(* ===== verification/Go_Prelude.thy ===== *)
theory Go_Prelude
  imports Main "HOL-Library.Word" "HOL-Library.Char_ord" "HOL-Library.List_Lexorder"
begin

text \<open>
  What the components share: Go's 64-bit \<open>int\<close> with its wrap-around, times and durations,
  the decimal printing of \<open>fmt\<close>'s \<open>%d\<close>, the dynamically typed values of message headers
  and queue arguments, the store of Go maps (a Go map is a reference, so two structs can
  share one), and the reachable states of a transition system with the invariant rule
  every state machine of the development instantiates.
\<close>

named_theorems inv_intros
  \<comment> \<open>operations keep the invariant of their component\<close>

named_theorems op_defs
  \<comment> \<open>unfoldings of the straight-line operations\<close>

section \<open>Machine integers\<close>

text \<open>
  Go's \<open>int\<close> is a 64-bit two's complement integer on every platform the library builds for.
  A value is an \<^typ>\<open>int\<close> of that range; \<open>wrap64\<close> is what every addition applies.
\<close>

definition is_int64 :: "int \<Rightarrow> bool" where
  "is_int64 x \<longleftrightarrow> - (2 ^ 63) \<le> x \<and> x < 2 ^ 63"

definition wrap64 :: "int \<Rightarrow> int" where
  "wrap64 x = (x + 2 ^ 63) mod 2 ^ 64 - 2 ^ 63"

definition inc64 :: "int \<Rightarrow> int" where
  "inc64 x = wrap64 (x + 1)"

lemma wrap64_id: "is_int64 x \<Longrightarrow> wrap64 x = x"
  by (simp add: is_int64_def wrap64_def)

lemma is_int64_wrap64 [simp]: "is_int64 (wrap64 x)"
proof -
  have "0 \<le> (x + 2 ^ 63) mod 2 ^ 64" and "(x + 2 ^ 63) mod 2 ^ 64 < 2 ^ 64"
    by simp_all
  then show ?thesis
    unfolding is_int64_def wrap64_def by (simp del: mod_add_self2)
qed

lemma is_int64_inc64 [simp]: "is_int64 (inc64 x)"
  by (simp add: inc64_def)

lemma inc64_below: "is_int64 b \<Longrightarrow> is_int64 x \<Longrightarrow> x < b \<Longrightarrow> inc64 x = x + 1"
  by (simp add: inc64_def wrap64_id is_int64_def)

lemma is_int64_0 [simp]: "is_int64 0"
  by (simp add: is_int64_def)

lemma is_int64_between: "is_int64 b \<Longrightarrow> 0 \<le> x \<Longrightarrow> x \<le> b \<Longrightarrow> is_int64 x"
  by (simp add: is_int64_def)

section \<open>Time\<close>

text \<open>
  A \<open>time.Time\<close> is its reading in nanoseconds, a \<open>time.Duration\<close> an \<open>int64\<close> count of
  nanoseconds. \<open>Time.Sub\<close> saturates at the ends of the duration's range.
\<close>

type_synonym time = int
type_synonym duration = int

definition Second :: duration where
  "Second = 1000000000"

definition time_Sub :: "time \<Rightarrow> time \<Rightarrow> duration" where
  "time_Sub t u = max (- (2 ^ 63)) (min (2 ^ 63 - 1) (t - u))"

definition time_Unix :: "time \<Rightarrow> int" where
  "time_Unix t = t div Second"

lemma time_Sub_ge: "is_int64 d \<Longrightarrow> time_Sub t u \<ge> d \<longleftrightarrow> t - u \<ge> d \<or> d = - (2 ^ 63)"
  by (auto simp: time_Sub_def is_int64_def)

section \<open>Decimal printing\<close>

fun show_nat :: "nat \<Rightarrow> string" where
  "show_nat n =
     (if n < 10 then [char_of (48 + n)] else show_nat (n div 10) @ [char_of (48 + n mod 10)])"

declare show_nat.simps [simp del]

definition show_int :: "int \<Rightarrow> string" where
  "show_int x = (if x < 0 then ''-'' @ show_nat (nat (- x)) else show_nat (nat x))"

fun read_nat :: "nat \<Rightarrow> string \<Rightarrow> nat" where
  "read_nat acc [] = acc"
| "read_nat acc (c # cs) = read_nat (10 * acc + (of_char c - 48)) cs"

lemma read_nat_append: "read_nat acc (xs @ ys) = read_nat (read_nat acc xs) ys"
  by (induction xs arbitrary: acc) simp_all

lemma read_show_nat: "read_nat 0 (show_nat n) = n"
proof (induction n rule: show_nat.induct)
  case (1 n)
  show ?case
  proof (cases "n < 10")
    case True
    then show ?thesis by (subst show_nat.simps) simp
  next
    case False
    then show ?thesis using "1.IH" by (subst show_nat.simps) (simp add: read_nat_append)
  qed
qed

lemma show_nat_inj [simp]: "show_nat m = show_nat n \<longleftrightarrow> m = n"
  by (metis read_show_nat)

section \<open>Joining strings\<close>

text \<open>\<open>strings.Join\<close>.\<close>

fun join :: "string \<Rightarrow> string list \<Rightarrow> string" where
  "join sep [] = []"
| "join sep [x] = x"
| "join sep (x # y # xs) = x @ sep @ join sep (y # xs)"

section \<open>Floating point\<close>

text \<open>
  A \<open>float64\<close> is a dyadic rational \<open>m * 2 ^ e\<close>, an infinity or a NaN. Converting to \<open>int\<close>
  truncates towards zero; for a value out of range the language leaves the result to the
  implementation, and the model takes the one of amd64, the least \<open>int64\<close>.
\<close>

datatype float64 = Finite int int | Infinite bool | NotANumber

fun float_trunc :: "int \<Rightarrow> int \<Rightarrow> int" where
  "float_trunc m e =
     (if 0 \<le> e then m * 2 ^ nat e else sgn m * (\<bar>m\<bar> div 2 ^ nat (- e)))"

fun float64_to_int :: "float64 \<Rightarrow> int" where
  "float64_to_int (Finite m e) =
     (if is_int64 (float_trunc m e) then float_trunc m e else - (2 ^ 63))"
| "float64_to_int (Infinite s) = - (2 ^ 63)"
| "float64_to_int NotANumber = - (2 ^ 63)"

lemma is_int64_float64_to_int [simp]: "is_int64 (float64_to_int f)"
  by (cases f) (simp_all add: is_int64_def)

section \<open>Dynamically typed values\<close>

text \<open>
  The values an \<open>any\<close> of a header table, of queue arguments or of log fields can hold: the
  dynamic types the sources ask for, and \<open>VOther\<close> for every other one. Nested tables and
  lists are never written by the code, so they are values and not references.
\<close>

datatype gvalue =
    VNil
  | VBool bool
  | VInt int
  | VInt32 int
  | VInt64 int
  | VFloat64 float64
  | VString string
  | VUint64 "64 word"
  | VDuration duration
  | VTime time
  | VTable "(string \<times> gvalue) list"
  | VArray "gvalue list"
  | VOther string

type_synonym gtable = "string \<rightharpoonup> gvalue"

fun as_string :: "gvalue \<Rightarrow> string option" where
  "as_string (VString s) = Some s"
| "as_string _ = None"

fun as_array :: "gvalue \<Rightarrow> gvalue list option" where
  "as_array (VArray xs) = Some xs"
| "as_array _ = None"

fun as_table :: "gvalue \<Rightarrow> gtable option" where
  "as_table (VTable kvs) = Some (map_of kvs)"
| "as_table _ = None"

section \<open>The store of Go maps\<close>

text \<open>
  \<open>map[string]any\<close> is a reference: assigning a struct copies the reference, not the map.
  A \<open>mapref\<close> is \<^term>\<open>None\<close> for the nil map. Reading a nil map finds nothing; writing to
  one panics, so the write below takes the address of a map that exists.
\<close>

type_synonym mapref = "nat option"

record heap =
  hp_next :: nat
  hp_map :: "nat \<Rightarrow> gtable"

definition empty_heap :: heap where
  "empty_heap = \<lparr>hp_next = 0, hp_map = (\<lambda>_. Map.empty)\<rparr>"

definition make_map :: "gtable \<Rightarrow> heap \<Rightarrow> nat \<times> heap" where
  "make_map t h = (hp_next h, h\<lparr>hp_next := Suc (hp_next h), hp_map := (hp_map h)(hp_next h := t)\<rparr>)"

definition map_get :: "heap \<Rightarrow> mapref \<Rightarrow> gtable" where
  "map_get h r = (case r of None \<Rightarrow> Map.empty | Some a \<Rightarrow> hp_map h a)"

definition map_put :: "nat \<Rightarrow> string \<Rightarrow> gvalue \<Rightarrow> heap \<Rightarrow> heap" where
  "map_put a k v h = h\<lparr>hp_map := (hp_map h)(a := (hp_map h a)(k \<mapsto> v))\<rparr>"

definition map_snapshot :: "heap \<Rightarrow> mapref \<Rightarrow> gtable option" where
  "map_snapshot h r = map_option (hp_map h) r"

definition ref_ok :: "heap \<Rightarrow> mapref \<Rightarrow> bool" where
  "ref_ok h r = (case r of None \<Rightarrow> True | Some a \<Rightarrow> a < hp_next h)"

lemma map_get_nil [simp]: "map_get h None = Map.empty"
  by (simp add: map_get_def)

lemma map_get_Some [simp]: "map_get h (Some a) = hp_map h a"
  by (simp add: map_get_def)

lemma map_put_map [simp]:
  "hp_map (map_put a k v h) = (hp_map h)(a := (hp_map h a)(k \<mapsto> v))"
  by (simp add: map_put_def)

lemma map_put_next [simp]: "hp_next (map_put a k v h) = hp_next h"
  by (simp add: map_put_def)

lemma map_get_put_other: "r \<noteq> Some a \<Longrightarrow> map_get (map_put a k v h) r = map_get h r"
  by (auto simp: map_get_def split: option.splits)

lemma map_get_make_map: "ref_ok h r \<Longrightarrow> map_get (snd (make_map t h)) r = map_get h r"
  by (auto simp: map_get_def make_map_def ref_ok_def split: option.splits)

lemma make_map_fst [simp]: "fst (make_map t h) = hp_next h"
  by (simp add: make_map_def)

lemma make_map_map [simp]: "hp_map (snd (make_map t h)) = (hp_map h)(hp_next h := t)"
  by (simp add: make_map_def)

lemma make_map_next [simp]: "hp_next (snd (make_map t h)) = Suc (hp_next h)"
  by (simp add: make_map_def)

lemma map_snapshot_simps [simp]:
  "map_snapshot h None = None" "map_snapshot h (Some a) = Some (hp_map h a)"
  by (simp_all add: map_snapshot_def)

section \<open>Transition systems\<close>

inductive reach :: "('s \<Rightarrow> bool) \<Rightarrow> ('s \<Rightarrow> 's \<Rightarrow> bool) \<Rightarrow> 's \<Rightarrow> bool"
  for init :: "'s \<Rightarrow> bool" and step :: "'s \<Rightarrow> 's \<Rightarrow> bool" where
  reach_init: "init s \<Longrightarrow> reach init step s"
| reach_step: "reach init step s \<Longrightarrow> step s t \<Longrightarrow> reach init step t"

text \<open>The contract of a state machine and the invariant it promises in every reachable state.\<close>

locale invariant_system =
  fixes init :: "'s \<Rightarrow> bool"
    and step :: "'s \<Rightarrow> 's \<Rightarrow> bool"
    and inv :: "'s \<Rightarrow> bool"
  assumes inv_init: "init s \<Longrightarrow> inv s"
    and inv_step: "step s t \<Longrightarrow> inv s \<Longrightarrow> inv t"
begin

lemma reach_inv: "reach init step s \<Longrightarrow> inv s"
  by (induction rule: reach.induct) (auto intro: inv_init inv_step)

lemma step_star_inv: "step\<^sup>*\<^sup>* s t \<Longrightarrow> inv s \<Longrightarrow> inv t"
  by (induction rule: rtranclp_induct) (auto intro: inv_step)

end

text \<open>
  A system seen through \<open>abs\<close> takes steps of another one, or none: what is invariant there holds here
  of what \<open>abs\<close> shows.
\<close>

locale simulation = abstract: invariant_system ainit astep ainv
  for ainit :: "'a \<Rightarrow> bool" and astep :: "'a \<Rightarrow> 'a \<Rightarrow> bool" and ainv :: "'a \<Rightarrow> bool" +
  fixes init :: "'s \<Rightarrow> bool"
    and step :: "'s \<Rightarrow> 's \<Rightarrow> bool"
    and abs :: "'s \<Rightarrow> 'a"
  assumes init_abs: "init s \<Longrightarrow> ainit (abs s)"
    and step_abs: "step s t \<Longrightarrow> abs t = abs s \<or> astep (abs s) (abs t)"
begin

lemma reach_abs: "reach init step s \<Longrightarrow> reach ainit astep (abs s)"
proof (induction rule: reach.induct)
  case (reach_step s t)
  then show ?case using step_abs by (metis reach.reach_step)
qed (auto intro: reach.reach_init init_abs)

lemma abs_inv: "reach init step s \<Longrightarrow> ainv (abs s)"
  using reach_abs abstract.reach_inv by blast

end

lemma reach_star: "step\<^sup>*\<^sup>* s t \<Longrightarrow> reach init step s \<Longrightarrow> reach init step t"
  by (induction rule: rtranclp_induct) (auto intro: reach_step)

lemma reach_mono: "reach init step s \<Longrightarrow> (\<And>s. init s \<Longrightarrow> init' s) \<Longrightarrow> reach init' step s"
  by (induction rule: reach.induct) (auto intro: reach_init reach_step)

section \<open>Lists and options\<close>

lemma list_ex_size [termination_simp]: "x \<in> set xs \<Longrightarrow> size x < Suc (size_list size xs)"
  by (induction xs) auto

end
