(* ===== verification/Errors.thy ===== *)
theory Errors
  imports Go_Prelude
begin

text \<open>
  The error values of \<open>errors/errors.go\<close>: the sentinels, the typed errors with their causes,
  \<open>Error()\<close>, \<open>Unwrap()\<close>, and the two queries the consumer asks, \<open>errors.Is\<close> for a sentinel and
  \<open>IsExpectedRetry\<close>. An error of code outside the repository is an \<open>ExternalError\<close> with its
  text and the errors its \<open>Unwrap\<close> methods expose (none, one, or several for a joined error).
  A nil \<open>error\<close> is \<^term>\<open>None\<close>.
\<close>

section \<open>Error values\<close>

text \<open>
  The sentinels are package variables, each allocated once: comparing two of them compares
  their names. The typed errors are pointers; the model keeps their fields and never compares
  two of them.
\<close>

datatype sentinel =
    ClientClosed
  | NoConnection
  | NoChannel
  | MaxRetriesExceeded
  | NoHandlersRegistered
  | PublishNotConfirmed
  | PublishConfirmTimeout

datatype goerror =
    Sentinel sentinel
  | ConfigError string string
  | ConnectionError string "goerror option"
  | PublishError string string "goerror option"
  | ConsumeError string "goerror option"
  | TopologyError string string "goerror option"
  | HandlerError string string "goerror option"
  | ExpectedRetryError "goerror option"
  | ExternalError string "goerror list"

abbreviation ErrClientClosed :: goerror where
  "ErrClientClosed \<equiv> Sentinel ClientClosed"

abbreviation ErrNoConnection :: goerror where
  "ErrNoConnection \<equiv> Sentinel NoConnection"

abbreviation ErrNoChannel :: goerror where
  "ErrNoChannel \<equiv> Sentinel NoChannel"

abbreviation ErrMaxRetriesExceeded :: goerror where
  "ErrMaxRetriesExceeded \<equiv> Sentinel MaxRetriesExceeded"

abbreviation ErrNoHandlersRegistered :: goerror where
  "ErrNoHandlersRegistered \<equiv> Sentinel NoHandlersRegistered"

abbreviation ErrPublishNotConfirmed :: goerror where
  "ErrPublishNotConfirmed \<equiv> Sentinel PublishNotConfirmed"

abbreviation ErrPublishConfirmTimeout :: goerror where
  "ErrPublishConfirmTimeout \<equiv> Sentinel PublishConfirmTimeout"

definition NewConfigFieldError :: "string \<Rightarrow> string \<Rightarrow> goerror" where
  "NewConfigFieldError field message = ConfigError field message"

definition NewConnectionError :: "string \<Rightarrow> goerror option \<Rightarrow> goerror" where
  "NewConnectionError operation cause = ConnectionError operation cause"

definition NewPublishError :: "string \<Rightarrow> string \<Rightarrow> goerror option \<Rightarrow> goerror" where
  "NewPublishError exchange routingKey cause = PublishError exchange routingKey cause"

definition NewConsumeError :: "string \<Rightarrow> goerror option \<Rightarrow> goerror" where
  "NewConsumeError queue cause = ConsumeError queue cause"

definition NewTopologyError :: "string \<Rightarrow> string \<Rightarrow> goerror option \<Rightarrow> goerror" where
  "NewTopologyError operation resource cause = TopologyError operation resource cause"

definition NewHandlerError :: "string \<Rightarrow> string \<Rightarrow> goerror option \<Rightarrow> goerror" where
  "NewHandlerError eventType messageID cause = HandlerError eventType messageID cause"

definition NewExpectedRetryError :: "goerror option \<Rightarrow> goerror option" where
  "NewExpectedRetryError cause =
     (case cause of None \<Rightarrow> None | Some c \<Rightarrow> Some (ExpectedRetryError (Some c)))"

lemmas new_error_defs [simp] =
  NewConfigFieldError_def NewConnectionError_def NewPublishError_def NewConsumeError_def
  NewTopologyError_def NewHandlerError_def

section \<open>Error texts\<close>

fun Error :: "goerror \<Rightarrow> string" where
  "Error ErrClientClosed = ''rabbitmq: client is closed''"
| "Error ErrNoConnection = ''rabbitmq: no active connection''"
| "Error ErrNoChannel = ''rabbitmq: no active channel''"
| "Error ErrMaxRetriesExceeded = ''rabbitmq: max retries exceeded''"
| "Error ErrNoHandlersRegistered =
     ''rabbitmq: no handlers registered, call RegisterHandler before StartConsume''"
| "Error ErrPublishNotConfirmed = ''rabbitmq: message publish was not confirmed by broker''"
| "Error ErrPublishConfirmTimeout = ''rabbitmq: timeout waiting for publish confirmation''"
| "Error (ConfigError field message) =
     ''rabbitmq: config error ['' @ field @ '']: '' @ message"
| "Error (ConnectionError operation (Some c)) =
     ''rabbitmq: connection error during '' @ [CHR 0x27] @ operation @ [CHR 0x27] @ '': '' @ Error c"
| "Error (ConnectionError operation None) =
     ''rabbitmq: connection error during '' @ [CHR 0x27] @ operation @ [CHR 0x27]"
| "Error (PublishError exchange routingKey (Some c)) =
     ''rabbitmq: publish failed [exchange='' @ exchange @ '', routing_key='' @ routingKey
       @ '']: '' @ Error c"
| "Error (PublishError exchange routingKey None) =
     ''rabbitmq: publish failed [exchange='' @ exchange @ '', routing_key='' @ routingKey @ '']''"
| "Error (ConsumeError queue (Some c)) =
     ''rabbitmq: consume failed [queue='' @ queue @ '']: '' @ Error c"
| "Error (ConsumeError queue None) = ''rabbitmq: consume failed [queue='' @ queue @ '']''"
| "Error (TopologyError operation resource (Some c)) =
     ''rabbitmq: topology error during '' @ [CHR 0x27] @ operation @ [CHR 0x27] @ '' [resource=''
       @ resource @ '']: '' @ Error c"
| "Error (TopologyError operation resource None) =
     ''rabbitmq: topology error during '' @ [CHR 0x27] @ operation @ [CHR 0x27] @ '' [resource=''
       @ resource @ '']''"
| "Error (HandlerError eventType messageID (Some c)) =
     ''rabbitmq: handler error [type='' @ eventType @ '', message_id='' @ messageID
       @ '']: '' @ Error c"
| "Error (HandlerError eventType messageID None) =
     ''rabbitmq: handler error [type='' @ eventType @ '', message_id='' @ messageID @ '']''"
| "Error (ExpectedRetryError (Some c)) = Error c"
| "Error (ExpectedRetryError None) = ''rabbitmq: expected retry''"
| "Error (ExternalError text causes) = text"

section \<open>Unwrapping\<close>

fun Unwrap :: "goerror \<Rightarrow> goerror list" where
  "Unwrap (ConnectionError operation cause) = (case cause of None \<Rightarrow> [] | Some c \<Rightarrow> [c])"
| "Unwrap (PublishError exchange routingKey cause) = (case cause of None \<Rightarrow> [] | Some c \<Rightarrow> [c])"
| "Unwrap (ConsumeError queue cause) = (case cause of None \<Rightarrow> [] | Some c \<Rightarrow> [c])"
| "Unwrap (TopologyError operation resource cause) = (case cause of None \<Rightarrow> [] | Some c \<Rightarrow> [c])"
| "Unwrap (HandlerError eventType messageID cause) = (case cause of None \<Rightarrow> [] | Some c \<Rightarrow> [c])"
| "Unwrap (ExpectedRetryError cause) = (case cause of None \<Rightarrow> [] | Some c \<Rightarrow> [c])"
| "Unwrap (ExternalError text causes) = causes"
| "Unwrap _ = []"

lemma Unwrap_size [termination_simp]: "c \<in> set (Unwrap e) \<Longrightarrow> size c < size e"
  by (cases e rule: Unwrap.cases) (auto split: option.splits dest: list_ex_size)

text \<open>
  \<open>errors.Is(err, target)\<close> for a sentinel target, and \<open>errors.As\<close> for \<open>*ExpectedRetryError\<close>:
  both visit the error and then, depth first, everything it wraps.
\<close>

fun errors_Is :: "goerror \<Rightarrow> sentinel \<Rightarrow> bool" where
  "errors_Is err target = (err = Sentinel target \<or> list_ex (\<lambda>c. errors_Is c target) (Unwrap err))"

fun is_ExpectedRetryError :: "goerror \<Rightarrow> bool" where
  "is_ExpectedRetryError (ExpectedRetryError _) = True"
| "is_ExpectedRetryError _ = False"

fun IsExpectedRetry :: "goerror \<Rightarrow> bool" where
  "IsExpectedRetry err = (is_ExpectedRetryError err \<or> list_ex IsExpectedRetry (Unwrap err))"

declare errors_Is.simps [simp del] IsExpectedRetry.simps [simp del]

text \<open>The errors a value wraps, as the reflexive transitive closure of one \<open>Unwrap\<close>.\<close>

inductive wraps :: "goerror \<Rightarrow> goerror \<Rightarrow> bool" where
  wraps_refl: "wraps e e"
| wraps_step: "c \<in> set (Unwrap e) \<Longrightarrow> wraps c t \<Longrightarrow> wraps e t"

section \<open>Search laws\<close>

text \<open>
  The contract of a search over the error tree: it answers for the error itself and for
  everything it unwraps. Both searches of the sources meet it, and it determines them.
\<close>

locale error_search =
  fixes hit :: "goerror \<Rightarrow> bool"
    and search :: "goerror \<Rightarrow> bool"
  assumes search_unfold: "search e \<longleftrightarrow> hit e \<or> (\<exists>c \<in> set (Unwrap e). search c)"
begin

lemma search_if_wraps: "wraps e t \<Longrightarrow> hit t \<Longrightarrow> search e"
  by (induction rule: wraps.induct) (subst search_unfold, blast)+

lemma wraps_if_search: "search e \<Longrightarrow> \<exists>t. wraps e t \<and> hit t"
proof (induction "size e" arbitrary: e rule: less_induct)
  case less
  show ?case
  proof (cases "hit e")
    case True
    then show ?thesis by (blast intro: wraps_refl)
  next
    case False
    with less.prems obtain c where c: "c \<in> set (Unwrap e)" "search c"
      by (auto simp: search_unfold [of e])
    with less.hyps [of c] Unwrap_size obtain t where "wraps c t" "hit t" by blast
    with c show ?thesis by (blast intro: wraps_step)
  qed
qed

lemma search_iff: "search e \<longleftrightarrow> (\<exists>t. wraps e t \<and> hit t)"
  using search_if_wraps wraps_if_search by blast

lemma search_of_cause: "c \<in> set (Unwrap e) \<Longrightarrow> search c \<Longrightarrow> search e"
  by (subst search_unfold) blast

end

interpretation is_search: error_search "\<lambda>e. e = Sentinel target" "\<lambda>e. errors_Is e target" for target
  by unfold_locales (subst errors_Is.simps, auto simp: list_ex_iff)

interpretation retry_search: error_search is_ExpectedRetryError IsExpectedRetry
  by unfold_locales (subst IsExpectedRetry.simps, auto simp: list_ex_iff)

section \<open>Wrapping\<close>

text \<open>
  The ways the package wraps a non-nil error: the five typed errors with a cause and the
  expected-retry mark.
\<close>

datatype wrapper =
    ConnectionWrap string
  | PublishWrap string string
  | ConsumeWrap string
  | TopologyWrap string string
  | HandlerWrap string string
  | RetryMark

fun wrap :: "wrapper \<Rightarrow> goerror \<Rightarrow> goerror" where
  "wrap (ConnectionWrap operation) e = NewConnectionError operation (Some e)"
| "wrap (PublishWrap exchange routingKey) e = NewPublishError exchange routingKey (Some e)"
| "wrap (ConsumeWrap queue) e = NewConsumeError queue (Some e)"
| "wrap (TopologyWrap operation resource) e = NewTopologyError operation resource (Some e)"
| "wrap (HandlerWrap eventType messageID) e = NewHandlerError eventType messageID (Some e)"
| "wrap RetryMark e = (case NewExpectedRetryError (Some e) of None \<Rightarrow> e | Some err \<Rightarrow> err)"

lemma Unwrap_wrap: "Unwrap (wrap w e) = [e]"
  by (cases w) (simp_all add: NewExpectedRetryError_def)

lemma wrap_no_sentinel: "wrap w e \<noteq> Sentinel s"
  by (cases w) (simp_all add: NewExpectedRetryError_def)

lemma is_ExpectedRetryError_wrap: "is_ExpectedRetryError (wrap w e) \<longleftrightarrow> w = RetryMark"
  by (cases w) (simp_all add: NewExpectedRetryError_def)

lemma errors_Is_wrap: "errors_Is (wrap w e) s \<longleftrightarrow> errors_Is e s"
  using is_search.search_unfold [of "wrap w e" s] by (simp add: Unwrap_wrap wrap_no_sentinel)

lemma IsExpectedRetry_wrap: "IsExpectedRetry (wrap w e) \<longleftrightarrow> w = RetryMark \<or> IsExpectedRetry e"
  using retry_search.search_unfold [of "wrap w e"]
  by (simp add: Unwrap_wrap is_ExpectedRetryError_wrap)

lemma Error_wrap: "\<exists>prefix. Error (wrap w e) = prefix @ Error e"
  by (cases w) (simp_all add: NewExpectedRetryError_def)

lemma errors_Is_leaf [simp]:
  "errors_Is (Sentinel t) s \<longleftrightarrow> t = s" "\<not> errors_Is (ConfigError f m) s"
  "\<not> errors_Is (ExternalError x []) s"
  by (subst errors_Is.simps, simp)+

section \<open>Properties\<close>

text \<open>
  C28. No wrapper of the package hides what it wraps, however many are stacked in whatever
  order: through any chain of connection, publish, consume, topology and handler errors and
  expected-retry marks, \<open>errors.Is\<close> finds a sentinel exactly when it finds it in the innermost
  error, \<open>IsExpectedRetry\<close> answers yes exactly when a mark is in the chain or in the innermost
  error, and the text of the chain ends with the text of the innermost error. A sentinel
  matches itself and no other.
\<close>

theorem wrapping_hides_nothing:
  "(errors_Is (foldr wrap ws e) s \<longleftrightarrow> errors_Is e s) \<and>
   (IsExpectedRetry (foldr wrap ws e) \<longleftrightarrow> RetryMark \<in> set ws \<or> IsExpectedRetry e) \<and>
   (\<exists>prefix. Error (foldr wrap ws e) = prefix @ Error e) \<and>
   (errors_Is (foldr wrap ws (Sentinel t)) s \<longleftrightarrow> t = s)"
proof (induction ws)
  case Nil
  show ?case by simp
next
  case (Cons w ws)
  obtain p where "Error (foldr wrap (w # ws) e) = p @ Error (foldr wrap ws e)"
    using Error_wrap [of w "foldr wrap ws e"] by auto
  with Cons.IH show ?case by (auto simp: errors_Is_wrap IsExpectedRetry_wrap)
qed

end
