(* ===== verification/Circuit_Breaker.thy ===== *)
theory Circuit_Breaker
  imports Go_Prelude
begin

text \<open>
  The circuit breaker of \<open>internal/circuitbreaker\<close>: its configuration and state, every method
  that changes the state, and the callbacks it fires. Each method holds the mutex for its
  whole body, so a concurrent execution is a sequence of these operations; the clock readings
  a method takes are its arguments, in the order it takes them. \<open>cb_calls\<close> records the calls of
  \<open>OnStateChange\<close>: \<open>Async\<close> for the one \<open>setState\<close> starts on its own goroutine, \<open>Locked\<close> for
  the one \<open>Reset\<close> makes while it holds the mutex.
\<close>

section \<open>State and configuration\<close>

datatype State = StateClosed | StateOpen | StateHalfOpen | StateOther int

fun State_String :: "State \<Rightarrow> string" where
  "State_String StateClosed = ''closed''"
| "State_String StateOpen = ''open''"
| "State_String StateHalfOpen = ''half-open''"
| "State_String (StateOther n) = ''unknown''"

record cb_config =
  MaxFailures :: int
  ResetTimeout :: duration
  HalfOpenMaxRequests :: int
  OnStateChange :: bool

datatype cb_call = Async State State | Locked State State

record breaker =
  cb_conf :: cb_config
  cb_state :: State
  cb_failures :: int
  cb_successes :: int
  cb_lastFailureTime :: "time option"
  cb_lastStateChangeTime :: time
  cb_halfOpenRequests :: int
  cb_calls :: "cb_call list"

definition cb_DefaultConfig :: cb_config where
  "cb_DefaultConfig =
     \<lparr>MaxFailures = 5, ResetTimeout = 60 * Second, HalfOpenMaxRequests = 3, OnStateChange = False\<rparr>"

definition normalize :: "cb_config \<Rightarrow> cb_config" where
  "normalize c =
     (let c1 = (if MaxFailures c \<le> 0 then c\<lparr>MaxFailures := 5\<rparr> else c);
          c2 = (if ResetTimeout c1 \<le> 0 then c1\<lparr>ResetTimeout := 60 * Second\<rparr> else c1)
      in if HalfOpenMaxRequests c2 \<le> 0 then c2\<lparr>HalfOpenMaxRequests := 3\<rparr> else c2)"

definition cb_New :: "cb_config \<Rightarrow> time \<Rightarrow> breaker" where
  "cb_New c now =
     \<lparr>cb_conf = normalize c, cb_state = StateClosed, cb_failures = 0, cb_successes = 0,
      cb_lastFailureTime = None, cb_lastStateChangeTime = now, cb_halfOpenRequests = 0, cb_calls = []\<rparr>"

section \<open>Operations\<close>

definition setState :: "State \<Rightarrow> time \<Rightarrow> breaker \<Rightarrow> breaker" where
  "setState newState now cb =
     (let oldState = cb_state cb;
          cb1 = cb\<lparr>cb_state := newState, cb_lastStateChangeTime := now\<rparr>
      in if OnStateChange (cb_conf cb1) \<and> oldState \<noteq> newState
         then cb1\<lparr>cb_calls := cb_calls cb1 @ [Async oldState newState]\<rparr> else cb1)"

definition AllowRequest :: "time \<Rightarrow> time \<Rightarrow> breaker \<Rightarrow> bool \<times> breaker" where
  "AllowRequest now now' cb =
     (case cb_state cb of
        StateClosed \<Rightarrow> (True, cb)
      | StateOpen \<Rightarrow>
          if time_Sub now (cb_lastStateChangeTime cb) \<ge> ResetTimeout (cb_conf cb)
          then (True, (setState StateHalfOpen now' cb)
                        \<lparr>cb_halfOpenRequests := 0, cb_successes := 0, cb_failures := 0\<rparr>)
          else (False, cb)
      | StateHalfOpen \<Rightarrow>
          if cb_halfOpenRequests cb < HalfOpenMaxRequests (cb_conf cb)
          then (True, cb\<lparr>cb_halfOpenRequests := inc64 (cb_halfOpenRequests cb)\<rparr>)
          else (False, cb)
      | StateOther n \<Rightarrow> (False, cb))"

definition RecordSuccess :: "time \<Rightarrow> breaker \<Rightarrow> breaker" where
  "RecordSuccess now cb =
     (case cb_state cb of
        StateClosed \<Rightarrow> cb\<lparr>cb_failures := 0\<rparr>
      | StateHalfOpen \<Rightarrow>
          let cb1 = cb\<lparr>cb_successes := inc64 (cb_successes cb)\<rparr>
          in if cb_successes cb1 \<ge> HalfOpenMaxRequests (cb_conf cb1)
             then (setState StateClosed now cb1)\<lparr>cb_failures := 0, cb_successes := 0, cb_halfOpenRequests := 0\<rparr>
             else cb1
      | StateOpen \<Rightarrow> cb
      | StateOther n \<Rightarrow> cb)"

definition RecordFailure :: "time \<Rightarrow> time \<Rightarrow> breaker \<Rightarrow> breaker" where
  "RecordFailure now now' cb =
     (let cb1 = cb\<lparr>cb_failures := inc64 (cb_failures cb), cb_lastFailureTime := Some now\<rparr>
      in case cb_state cb1 of
           StateClosed \<Rightarrow>
             if cb_failures cb1 \<ge> MaxFailures (cb_conf cb1) then setState StateOpen now' cb1 else cb1
         | StateHalfOpen \<Rightarrow>
             (setState StateOpen now' cb1)\<lparr>cb_halfOpenRequests := 0, cb_successes := 0\<rparr>
         | StateOpen \<Rightarrow> cb1
         | StateOther n \<Rightarrow> cb1)"

definition Reset :: "time \<Rightarrow> breaker \<Rightarrow> breaker" where
  "Reset now cb =
     (let oldState = cb_state cb;
          cb1 = cb\<lparr>cb_state := StateClosed, cb_failures := 0, cb_successes := 0, cb_halfOpenRequests := 0,
                   cb_lastStateChangeTime := now\<rparr>
      in if OnStateChange (cb_conf cb1) \<and> oldState \<noteq> StateClosed
         then cb1\<lparr>cb_calls := cb_calls cb1 @ [Locked oldState StateClosed]\<rparr> else cb1)"

definition GetState :: "breaker \<Rightarrow> State" where
  "GetState cb = cb_state cb"

record Metrics =
  m_State :: State
  m_Failures :: int
  m_Successes :: int
  m_HalfOpenRequests :: int
  m_LastFailureTime :: "time option"
  m_LastStateChangeTime :: time

definition GetMetrics :: "breaker \<Rightarrow> Metrics" where
  "GetMetrics cb =
     \<lparr>m_State = cb_state cb, m_Failures = cb_failures cb, m_Successes = cb_successes cb,
      m_HalfOpenRequests = cb_halfOpenRequests cb, m_LastFailureTime = cb_lastFailureTime cb,
      m_LastStateChangeTime = cb_lastStateChangeTime cb\<rparr>"

definition Metrics_String :: "Metrics \<Rightarrow> string" where
  "Metrics_String m =
     ''CircuitBreaker[state='' @ State_String (m_State m) @ '', failures='' @ show_int (m_Failures m)
     @ '', successes='' @ show_int (m_Successes m) @ '', halfOpen=''
     @ show_int (m_HalfOpenRequests m) @ '']''"

lemmas cb_op_defs =
  setState_def AllowRequest_def RecordSuccess_def RecordFailure_def Reset_def Let_def

section \<open>Executions\<close>

text \<open>One locked operation, with the clock readings it takes, and sequences of them.\<close>

datatype cb_op =
    Allow time time
  | Succeed time
  | Fail time time
  | ResetOp time

fun cb_apply :: "cb_op \<Rightarrow> breaker \<Rightarrow> breaker" where
  "cb_apply (Allow now now') cb = snd (AllowRequest now now' cb)"
| "cb_apply (Succeed now) cb = RecordSuccess now cb"
| "cb_apply (Fail now now') cb = RecordFailure now now' cb"
| "cb_apply (ResetOp now) cb = Reset now cb"

fun cb_admits :: "cb_op \<Rightarrow> breaker \<Rightarrow> bool" where
  "cb_admits (Allow now now') cb = fst (AllowRequest now now' cb)"
| "cb_admits _ cb = False"

fun cb_run :: "cb_op list \<Rightarrow> breaker \<Rightarrow> breaker" where
  "cb_run [] cb = cb"
| "cb_run (x # xs) cb = cb_run xs (cb_apply x cb)"

text \<open>How many requests a run admits, and that it never leaves a state.\<close>

fun cb_admitted :: "cb_op list \<Rightarrow> breaker \<Rightarrow> nat" where
  "cb_admitted [] cb = 0"
| "cb_admitted (x # xs) cb = (if cb_admits x cb then 1 else 0) + cb_admitted xs (cb_apply x cb)"

fun cb_stays :: "State \<Rightarrow> cb_op list \<Rightarrow> breaker \<Rightarrow> bool" where
  "cb_stays s [] cb = (cb_state cb = s)"
| "cb_stays s (x # xs) cb = (cb_state cb = s \<and> cb_stays s xs (cb_apply x cb))"

definition cb_init :: "breaker \<Rightarrow> bool" where
  "cb_init cb \<longleftrightarrow> (\<exists>c now. cb = cb_New c now \<and> is_int64 (MaxFailures c) \<and> is_int64 (ResetTimeout c) \<and>
     is_int64 (HalfOpenMaxRequests c))"

inductive cb_step :: "breaker \<Rightarrow> breaker \<Rightarrow> bool" where
  cb_step: "cb_step cb (cb_apply x cb)"

inductive_cases cb_stepE: "cb_step cb cb'"

section \<open>The invariant\<close>

definition cb_config_ok :: "cb_config \<Rightarrow> bool" where
  "cb_config_ok c \<longleftrightarrow> 0 < MaxFailures c \<and> is_int64 (MaxFailures c) \<and> 0 < ResetTimeout c \<and>
     is_int64 (ResetTimeout c) \<and> 0 < HalfOpenMaxRequests c \<and> is_int64 (HalfOpenMaxRequests c)"

fun cb_counters_ok :: "State \<Rightarrow> breaker \<Rightarrow> bool" where
  "cb_counters_ok StateClosed cb =
     (0 \<le> cb_failures cb \<and> cb_failures cb < MaxFailures (cb_conf cb) \<and> cb_successes cb = 0 \<and>
      cb_halfOpenRequests cb = 0)"
| "cb_counters_ok StateOpen cb = (cb_successes cb = 0 \<and> cb_halfOpenRequests cb = 0)"
| "cb_counters_ok StateHalfOpen cb =
     (cb_failures cb = 0 \<and> 0 \<le> cb_successes cb \<and> cb_successes cb < HalfOpenMaxRequests (cb_conf cb) \<and>
      0 \<le> cb_halfOpenRequests cb \<and> cb_halfOpenRequests cb \<le> HalfOpenMaxRequests (cb_conf cb))"
| "cb_counters_ok (StateOther n) cb = False"

definition cb_inv :: "breaker \<Rightarrow> bool" where
  "cb_inv cb \<longleftrightarrow> cb_config_ok (cb_conf cb) \<and> is_int64 (cb_failures cb) \<and> cb_counters_ok (cb_state cb) cb"

lemma setState_simps [simp]:
  "cb_conf (setState s t cb) = cb_conf cb" "cb_state (setState s t cb) = s"
  "cb_failures (setState s t cb) = cb_failures cb" "cb_successes (setState s t cb) = cb_successes cb"
  "cb_halfOpenRequests (setState s t cb) = cb_halfOpenRequests cb"
  "cb_lastStateChangeTime (setState s t cb) = t" "cb_lastFailureTime (setState s t cb) = cb_lastFailureTime cb"
  by (simp_all add: setState_def Let_def)

lemma Reset_simps [simp]:
  "cb_conf (Reset t cb) = cb_conf cb" "cb_state (Reset t cb) = StateClosed"
  "cb_failures (Reset t cb) = 0" "cb_successes (Reset t cb) = 0"
  "cb_halfOpenRequests (Reset t cb) = 0" "cb_lastStateChangeTime (Reset t cb) = t"
  by (simp_all add: Reset_def Let_def)

lemma normalize_ok:
  "is_int64 (MaxFailures c) \<Longrightarrow> is_int64 (ResetTimeout c) \<Longrightarrow> is_int64 (HalfOpenMaxRequests c) \<Longrightarrow>
   cb_config_ok (normalize c)"
  by (simp add: cb_config_ok_def normalize_def Let_def is_int64_def Second_def)

lemma inc64_lt: "is_int64 b \<Longrightarrow> 0 \<le> x \<Longrightarrow> x < b \<Longrightarrow> inc64 x = x + 1"
  by (rule inc64_below) (auto simp: is_int64_def)

lemma cb_inv_init: "cb_init cb \<Longrightarrow> cb_inv cb"
  by (auto simp: cb_init_def cb_inv_def cb_New_def normalize_ok)
    (simp add: normalize_def Let_def)

lemma config_apply [simp]: "cb_conf (cb_apply x cb) = cb_conf cb"
  by (cases x) (auto simp: cb_op_defs split: State.splits)

lemma config_run [simp]: "cb_conf (cb_run xs cb) = cb_conf cb"
  by (induction xs arbitrary: cb) simp_all

lemma AllowRequest_inv [inv_intros]: "cb_inv cb \<Longrightarrow> cb_inv (snd (AllowRequest now now' cb))"
  by (cases "cb_state cb")
    (auto simp: cb_inv_def AllowRequest_def cb_config_ok_def inc64_lt)

lemma RecordSuccess_inv [inv_intros]: "cb_inv cb \<Longrightarrow> cb_inv (RecordSuccess now cb)"
  by (cases "cb_state cb")
    (auto simp: cb_inv_def RecordSuccess_def Let_def cb_config_ok_def inc64_lt)

lemma RecordFailure_inv [inv_intros]: "cb_inv cb \<Longrightarrow> cb_inv (RecordFailure now now' cb)"
  by (cases "cb_state cb")
    (auto simp: cb_inv_def RecordFailure_def Let_def cb_config_ok_def inc64_lt)

lemma Reset_inv [inv_intros]: "cb_inv cb \<Longrightarrow> cb_inv (Reset now cb)"
  by (auto simp: cb_inv_def Reset_def Let_def cb_config_ok_def)

lemma cb_apply_inv: "cb_inv cb \<Longrightarrow> cb_inv (cb_apply x cb)"
  by (cases x) (simp_all add: inv_intros)

lemma cb_run_inv: "cb_inv cb \<Longrightarrow> cb_inv (cb_run xs cb)"
  by (induction xs arbitrary: cb) (simp_all add: cb_apply_inv)

interpretation cb_sys: invariant_system cb_init cb_step cb_inv
  by unfold_locales (auto intro: cb_inv_init cb_apply_inv elim: cb_stepE)

section \<open>The abstract breaker\<close>

text \<open>
  What the breaker promises, without its bookkeeping: closed with a number of consecutive
  failures, open since an instant, or half-open with the numbers of further requests
  admitted and of successes. \<open>abs_cb\<close> reads it off the code's record.
\<close>

datatype abreaker = AClosed int | AOpen time | AHalf int int

fun abs_cb :: "breaker \<Rightarrow> abreaker" where
  "abs_cb cb =
     (case cb_state cb of
        StateClosed \<Rightarrow> AClosed (cb_failures cb)
      | StateOpen \<Rightarrow> AOpen (cb_lastStateChangeTime cb)
      | _ \<Rightarrow> AHalf (cb_halfOpenRequests cb) (cb_successes cb))"

fun a_apply :: "cb_config \<Rightarrow> cb_op \<Rightarrow> abreaker \<Rightarrow> bool \<times> abreaker" where
  "a_apply c (Allow now now') (AClosed n) = (True, AClosed n)"
| "a_apply c (Allow now now') (AOpen since) =
     (if now - since \<ge> ResetTimeout c then (True, AHalf 0 0) else (False, AOpen since))"
| "a_apply c (Allow now now') (AHalf a s) =
     (if a < HalfOpenMaxRequests c then (True, AHalf (a + 1) s) else (False, AHalf a s))"
| "a_apply c (Succeed now) (AClosed n) = (False, AClosed 0)"
| "a_apply c (Succeed now) (AOpen since) = (False, AOpen since)"
| "a_apply c (Succeed now) (AHalf a s) =
     (False, if s + 1 = HalfOpenMaxRequests c then AClosed 0 else AHalf a (s + 1))"
| "a_apply c (Fail now now') (AClosed n) =
     (False, if n + 1 = MaxFailures c then AOpen now' else AClosed (n + 1))"
| "a_apply c (Fail now now') (AOpen since) = (False, AOpen since)"
| "a_apply c (Fail now now') (AHalf a s) = (False, AOpen now')"
| "a_apply c (ResetOp now) b = (False, AClosed 0)"

lemma abs_cb_Allow:
  assumes "cb_inv cb"
  shows "a_apply (cb_conf cb) (Allow now now') (abs_cb cb) =
     (fst (AllowRequest now now' cb), abs_cb (snd (AllowRequest now now' cb)))"
  using assms by (cases "cb_state cb")
    (auto simp: cb_inv_def cb_config_ok_def AllowRequest_def inc64_lt time_Sub_ge is_int64_def [of "- _"])

lemma abs_cb_Succeed:
  assumes "cb_inv cb"
  shows "a_apply (cb_conf cb) (Succeed now) (abs_cb cb) = (False, abs_cb (RecordSuccess now cb))"
  using assms by (cases "cb_state cb")
    (auto simp: cb_inv_def cb_config_ok_def RecordSuccess_def inc64_lt Let_def)

lemma abs_cb_Fail:
  assumes "cb_inv cb"
  shows "a_apply (cb_conf cb) (Fail now now') (abs_cb cb) = (False, abs_cb (RecordFailure now now' cb))"
  using assms by (cases "cb_state cb")
    (auto simp: cb_inv_def cb_config_ok_def RecordFailure_def inc64_lt Let_def)

lemma abs_cb_Reset: "a_apply c (ResetOp now) b = (False, abs_cb (Reset now cb))"
  by (simp add: Reset_def Let_def)

section \<open>Half-open episodes and rejection\<close>

lemma cb_stays_state: "cb_stays s xs cb \<Longrightarrow> cb_state cb = s"
  by (cases xs) simp_all

lemma half_open_step:
  assumes "cb_inv cb" "cb_state cb = StateHalfOpen" "cb_state (cb_apply x cb) = StateHalfOpen"
  shows "cb_halfOpenRequests (cb_apply x cb) =
    cb_halfOpenRequests cb + (if cb_admits x cb then 1 else 0)"
  using assms
  by (cases x) (auto simp: AllowRequest_def RecordSuccess_def RecordFailure_def Let_def
      cb_inv_def cb_config_ok_def inc64_lt)

lemma half_open_admitted:
  assumes "cb_inv cb" "cb_stays StateHalfOpen xs cb"
  shows "int (cb_admitted xs cb) = cb_halfOpenRequests (cb_run xs cb) - cb_halfOpenRequests cb"
  using assms
proof (induction xs arbitrary: cb)
  case Nil
  then show ?case by simp
next
  case (Cons x xs)
  then have "cb_state (cb_apply x cb) = StateHalfOpen" by (auto dest: cb_stays_state)
  with Cons half_open_step [of cb x] cb_apply_inv [of cb x] show ?case by auto
qed

lemma stays_run_state: "cb_stays s xs cb \<Longrightarrow> cb_state (cb_run xs cb) = s"
  by (induction xs arbitrary: cb) auto

lemma half_open_bound:
  assumes "cb_inv cb" "cb_stays StateHalfOpen xs cb"
  shows "int (cb_admitted xs cb) \<le> HalfOpenMaxRequests (cb_conf cb) - cb_halfOpenRequests cb"
  using half_open_admitted [OF assms] cb_run_inv [OF assms(1), of xs] stays_run_state [OF assms(2)]
  by (simp add: cb_inv_def)

text \<open>An operation during an open period that has not run out: no reset, and an early request.\<close>

fun early_op :: "time \<Rightarrow> cb_op \<Rightarrow> bool" where
  "early_op deadline (Allow now now') = (now < deadline)"
| "early_op deadline (ResetOp now) = False"
| "early_op deadline _ = True"

lemma early_op_step:
  assumes "cb_inv cb" "cb_state cb = StateOpen"
    and "early_op (cb_lastStateChangeTime cb + ResetTimeout (cb_conf cb)) x"
  shows "\<not> cb_admits x cb \<and> cb_state (cb_apply x cb) = StateOpen \<and>
    cb_lastStateChangeTime (cb_apply x cb) = cb_lastStateChangeTime cb"
  using assms
  by (cases x) (auto simp: AllowRequest_def RecordSuccess_def RecordFailure_def Let_def
      cb_inv_def cb_config_ok_def time_Sub_ge)

section \<open>Failure counting\<close>

fun is_fail :: "cb_op \<Rightarrow> bool" where
  "is_fail (Fail now now') = True"
| "is_fail _ = False"

fun is_allow :: "cb_op \<Rightarrow> bool" where
  "is_allow (Allow now now') = True"
| "is_allow _ = False"

lemma closed_fail_step:
  assumes "cb_inv cb" "cb_state cb = StateClosed" "is_fail x"
  shows "if cb_failures cb + 1 < MaxFailures (cb_conf cb)
    then cb_state (cb_apply x cb) = StateClosed \<and> cb_failures (cb_apply x cb) = cb_failures cb + 1
    else cb_state (cb_apply x cb) = StateOpen"
  using assms by (cases x) (auto simp: RecordFailure_def Let_def cb_inv_def cb_config_ok_def inc64_lt)

lemma closed_allow_step:
  "cb_state cb = StateClosed \<Longrightarrow> is_allow x \<Longrightarrow> cb_apply x cb = cb \<and> cb_admits x cb"
  by (cases x) (auto simp: AllowRequest_def)

lemma closed_stays_iff:
  assumes "cb_inv cb" "cb_state cb = StateClosed" "list_all (\<lambda>x. is_allow x \<or> is_fail x) xs"
  shows "cb_stays StateClosed xs cb \<longleftrightarrow>
    cb_failures cb + int (length (filter is_fail xs)) < MaxFailures (cb_conf cb)"
  using assms
proof (induction xs arbitrary: cb)
  case Nil
  then show ?case by (simp add: cb_inv_def)
next
  case (Cons x xs)
  show ?case
  proof (cases "is_fail x")
    case True
    show ?thesis
    proof (cases "cb_failures cb + 1 < MaxFailures (cb_conf cb)")
      case less: True
      then show ?thesis
        using True Cons closed_fail_step [of cb x] cb_apply_inv [of cb x] by auto
    next
      case False
      then have "cb_state (cb_apply x cb) = StateOpen"
        using True Cons.prems closed_fail_step [of cb x] by auto
      then have "\<not> cb_stays StateClosed xs (cb_apply x cb)" by (auto dest: cb_stays_state)
      then show ?thesis using False True by simp
    qed
  next
    case False
    then show ?thesis using Cons closed_allow_step [of cb x] by auto
  qed
qed

section \<open>Recovery\<close>

lemma half_open_successes:
  assumes "cb_inv cb" "cb_state cb = StateHalfOpen"
    and "cb_successes cb + int n < HalfOpenMaxRequests (cb_conf cb)"
  shows "cb_state (cb_run (map Succeed (replicate n t)) cb) = StateHalfOpen \<and>
    cb_successes (cb_run (map Succeed (replicate n t)) cb) = cb_successes cb + int n"
  using assms
proof (induction n arbitrary: cb)
  case 0
  then show ?case by simp
next
  case (Suc n)
  have "cb_state (RecordSuccess t cb) = StateHalfOpen"
    and "cb_successes (RecordSuccess t cb) = cb_successes cb + 1"
    and "cb_conf (RecordSuccess t cb) = cb_conf cb"
    using Suc.prems by (auto simp: RecordSuccess_def Let_def cb_inv_def cb_config_ok_def inc64_lt)
  with Suc show ?case by (simp add: RecordSuccess_inv)
qed

lemma cb_run_append: "cb_run (xs @ ys) cb = cb_run ys (cb_run xs cb)"
  by (induction xs arbitrary: cb) simp_all

lemma open_elapsed_step:
  assumes "cb_inv cb" "cb_state cb = StateOpen"
    and "now - cb_lastStateChangeTime cb \<ge> ResetTimeout (cb_conf cb)"
  shows "fst (AllowRequest now now' cb)"
    and "cb_state (snd (AllowRequest now now' cb)) = StateHalfOpen"
    and "cb_halfOpenRequests (snd (AllowRequest now now' cb)) = 0"
    and "cb_successes (snd (AllowRequest now now' cb)) = 0"
    and "cb_conf (snd (AllowRequest now now' cb)) = cb_conf cb"
  using assms by (auto simp: AllowRequest_def cb_inv_def cb_config_ok_def time_Sub_ge)

lemma half_open_allow_run:
  assumes "cb_inv cb" "cb_state cb = StateHalfOpen"
    and "int n = HalfOpenMaxRequests (cb_conf cb) - cb_halfOpenRequests cb"
  shows "cb_admitted (map (\<lambda>t. Allow t t) ts) cb = min n (length ts)"
  using assms
proof (induction ts arbitrary: cb n)
  case Nil
  then show ?case by simp
next
  case (Cons t ts)
  show ?case
  proof (cases n)
    case 0
    with Cons show ?thesis by (simp add: AllowRequest_def)
  next
    case (Suc m)
    let ?cb = "snd (AllowRequest t t cb)"
    have "cb_state ?cb = StateHalfOpen" "cb_conf ?cb = cb_conf cb"
      and "int m = HalfOpenMaxRequests (cb_conf ?cb) - cb_halfOpenRequests ?cb"
      and "fst (AllowRequest t t cb)"
      using Suc Cons.prems by (auto simp: AllowRequest_def cb_inv_def cb_config_ok_def inc64_lt)
    with Cons.IH [of ?cb m] Cons.prems Suc show ?thesis by (simp add: AllowRequest_inv)
  qed
qed

section \<open>Callbacks\<close>

text \<open>
  The notifications form a path: each leaves the state the one before it entered. The path
  starts at \<open>StateClosed\<close> and ends in the current state.
\<close>

fun call_from :: "cb_call \<Rightarrow> State" where
  "call_from (Async a b) = a"
| "call_from (Locked a b) = a"

fun call_to :: "cb_call \<Rightarrow> State" where
  "call_to (Async a b) = b"
| "call_to (Locked a b) = b"

fun call_path :: "State \<Rightarrow> cb_call list \<Rightarrow> State \<Rightarrow> bool" where
  "call_path s [] t = (s = t)"
| "call_path s (c # cs) t = (call_from c = s \<and> call_from c \<noteq> call_to c \<and> call_path (call_to c) cs t)"

lemma call_path_snoc:
  "call_path s (cs @ [c]) t \<longleftrightarrow> call_path s cs (call_from c) \<and> call_from c \<noteq> call_to c \<and> call_to c = t"
  by (induction cs arbitrary: s) auto

definition calls_ok :: "breaker \<Rightarrow> bool" where
  "calls_ok cb \<longleftrightarrow> (if OnStateChange (cb_conf cb) then call_path StateClosed (cb_calls cb) (cb_state cb)
     else cb_calls cb = [])"

lemma calls_ok_setState: "calls_ok cb \<Longrightarrow> calls_ok (setState s t cb)"
  by (auto simp: calls_ok_def setState_def Let_def call_path_snoc)

lemma calls_ok_upd [simp]:
  "calls_ok (cb\<lparr>cb_failures := n\<rparr>) = calls_ok cb" "calls_ok (cb\<lparr>cb_successes := n\<rparr>) = calls_ok cb"
  "calls_ok (cb\<lparr>cb_halfOpenRequests := n\<rparr>) = calls_ok cb"
  "calls_ok (cb\<lparr>cb_lastFailureTime := d\<rparr>) = calls_ok cb"
  by (simp_all add: calls_ok_def)

lemma calls_ok_Reset: "calls_ok cb \<Longrightarrow> calls_ok (Reset t cb)"
  by (auto simp: calls_ok_def Reset_def Let_def call_path_snoc)

lemma calls_ok_apply: "calls_ok cb \<Longrightarrow> calls_ok (cb_apply x cb)"
  by (cases x; cases "cb_state cb")
    (auto simp: AllowRequest_def RecordSuccess_def RecordFailure_def Let_def
      calls_ok_setState calls_ok_Reset)

lemma calls_ok_init: "cb_init cb \<Longrightarrow> calls_ok cb"
  by (auto simp: cb_init_def calls_ok_def cb_New_def)

interpretation cb_calls_sys: invariant_system cb_init cb_step calls_ok
  by unfold_locales (auto intro: calls_ok_init calls_ok_apply elim: cb_stepE)

lemma reach_cb_run: "reach cb_init cb_step cb \<Longrightarrow> reach cb_init cb_step (cb_run xs cb)"
  by (induction xs arbitrary: cb) (auto intro: reach_step cb_step)

section \<open>Properties\<close>

definition cb_opened :: breaker where
  "cb_opened = cb_run (replicate 5 (Fail 7 7)) (cb_New cb_DefaultConfig 0)"

lemma reach_cb_New_Default: "reach cb_init cb_step (cb_New cb_DefaultConfig now)"
  by (rule reach_init) (auto simp: cb_init_def cb_DefaultConfig_def is_int64_def Second_def)

lemma reach_cb_opened: "reach cb_init cb_step cb_opened"
  unfolding cb_opened_def by (rule reach_cb_run) (rule reach_cb_New_Default)

lemma cb_inv_opened: "cb_inv cb_opened"
  by (rule cb_sys.reach_inv) (rule reach_cb_opened)

lemma cb_opened_simps [simp]:
  "cb_state cb_opened = StateOpen" "cb_lastStateChangeTime cb_opened = 7"
  "cb_conf cb_opened = cb_DefaultConfig"
  by code_simp+

text \<open>
  C17. In every state a breaker can reach from \<open>New\<close> by any sequence of its methods, at any
  clock readings, the configuration is the positive normalised one, the state is one of the
  three, the failure counter of a closed breaker is below \<open>MaxFailures\<close>, a half-open breaker
  has let through at most \<open>HalfOpenMaxRequests\<close> counted requests and counted fewer successes
  than that, and outside half-open both half-open counters are zero: none of them can wrap.
\<close>

theorem breaker_invariant:
  assumes "reach cb_init cb_step cb"
  shows "cb_config_ok (cb_conf cb) \<and> cb_state cb \<in> {StateClosed, StateOpen, StateHalfOpen} \<and>
    (cb_state cb = StateClosed \<longrightarrow> 0 \<le> cb_failures cb \<and> cb_failures cb < MaxFailures (cb_conf cb)) \<and>
    0 \<le> cb_halfOpenRequests cb \<and> cb_halfOpenRequests cb \<le> HalfOpenMaxRequests (cb_conf cb) \<and>
    0 \<le> cb_successes cb \<and> cb_successes cb < HalfOpenMaxRequests (cb_conf cb) \<and>
    (cb_state cb \<noteq> StateHalfOpen \<longrightarrow> cb_halfOpenRequests cb = 0 \<and> cb_successes cb = 0)"
  using cb_sys.reach_inv [OF assms]
  by (cases "cb_state cb") (auto simp: cb_inv_def cb_config_ok_def)

theorem breaker_invariant_witness:
  "cb_config_ok (cb_conf cb_opened) \<and> cb_state cb_opened = StateOpen \<and> cb_successes cb_opened = 0"
  using breaker_invariant [OF reach_cb_opened] by simp

text \<open>
  C6. The breaker implements its abstract specification: from any state that satisfies the
  invariant, every method admits or refuses exactly as the specification does and leads to a
  state whose abstraction is the specification's next state.
\<close>

theorem breaker_refines_spec:
  assumes "cb_inv cb"
  shows "a_apply (cb_conf cb) x (abs_cb cb) = (cb_admits x cb, abs_cb (cb_apply x cb))"
  using assms by (cases x) (simp_all only: cb_apply.simps cb_admits.simps abs_cb_Allow abs_cb_Succeed
    abs_cb_Fail abs_cb_Reset)

theorem breaker_refines_spec_witness:
  "abs_cb cb_opened = AOpen 7 \<and> a_apply (cb_conf cb_opened) (Allow 8 8) (abs_cb cb_opened) =
     (False, abs_cb (cb_apply (Allow 8 8) cb_opened))"
proof -
  have "abs_cb cb_opened = AOpen 7" "\<not> cb_admits (Allow 8 8) cb_opened"
    by code_simp+
  then show ?thesis
    using breaker_refines_spec [OF cb_inv_opened, of "Allow 8 8"]
    by (simp del: abs_cb.simps cb_apply.simps cb_admits.simps)
qed

text \<open>
  Counting from a closed breaker with no failure on record, and with no success in
  between, the circuit stays closed exactly as long as fewer than \<open>MaxFailures\<close> failures were
  recorded, whatever requests are admitted meanwhile.
\<close>

theorem breaker_opens_at_threshold:
  assumes "cb_inv cb" "cb_state cb = StateClosed" "cb_failures cb = 0"
    and "list_all (\<lambda>x. is_allow x \<or> is_fail x) xs"
  shows "cb_stays StateClosed xs cb \<longleftrightarrow> int (length (filter is_fail xs)) < MaxFailures (cb_conf cb)"
  using closed_stays_iff [OF assms(1,2,4)] assms(3) by simp

theorem breaker_opens_at_threshold_witness:
  "\<not> cb_stays StateClosed [Fail 1 1, Allow 2 2, Fail 3 3, Fail 4 4, Fail 5 5, Fail 6 6]
       (cb_New cb_DefaultConfig 0)"
proof -
  have "cb_inv (cb_New cb_DefaultConfig 0)"
    by (rule cb_sys.reach_inv) (rule reach_cb_New_Default)
  then show ?thesis
    using breaker_opens_at_threshold [of "cb_New cb_DefaultConfig 0"
        "[Fail 1 1, Allow 2 2, Fail 3 3, Fail 4 4, Fail 5 5, Fail 6 6]"]
    by (simp add: cb_New_def cb_DefaultConfig_def normalize_def Second_def)
qed

text \<open>
  An open circuit rejects: until \<open>ResetTimeout\<close> has passed since it opened, no request is
  admitted and the circuit stays open, whatever successes and failures are still reported;
  only \<open>Reset\<close> ends the period early.
\<close>

theorem breaker_open_rejects:
  assumes "cb_inv cb" "cb_state cb = StateOpen"
    and "list_all (early_op (cb_lastStateChangeTime cb + ResetTimeout (cb_conf cb))) xs"
  shows "cb_admitted xs cb = 0 \<and> cb_stays StateOpen xs cb"
  using assms
proof (induction xs arbitrary: cb)
  case Nil
  then show ?case by simp
next
  case (Cons x xs)
  then show ?case using early_op_step [of cb x] cb_apply_inv [of cb x] by auto
qed

theorem breaker_open_rejects_witness:
  "cb_admitted [Allow 8 8, Fail 9 9, Succeed 10, Allow 1000 1000] cb_opened = 0"
  using breaker_open_rejects [OF cb_inv_opened,
      of "[Allow 8 8, Fail 9 9, Succeed 10, Allow 1000 1000]"]
  by (simp add: cb_DefaultConfig_def Second_def)

text \<open>
  Recovery: once \<open>ResetTimeout\<close> has passed, the next request is admitted and the circuit
  is half-open; it closes, with every counter at zero, exactly when the
  \<open>HalfOpenMaxRequests\<close>-th success is recorded, not earlier.
\<close>

theorem breaker_recovers:
  fixes t now' :: time
  assumes "cb_inv cb" "cb_state cb = StateOpen"
    and "now - cb_lastStateChangeTime cb \<ge> ResetTimeout (cb_conf cb)"
    and "int n < HalfOpenMaxRequests (cb_conf cb)"
  defines "cb1 \<equiv> cb_run (Allow now now' # map Succeed (replicate n t)) cb"
  shows "cb_admits (Allow now now') cb \<and> cb_state cb1 = StateHalfOpen \<and> cb_successes cb1 = int n \<and>
    (int (Suc n) = HalfOpenMaxRequests (cb_conf cb) \<longrightarrow>
       cb_state (RecordSuccess t cb1) = StateClosed \<and> cb_failures (RecordSuccess t cb1) = 0 \<and>
       cb_successes (RecordSuccess t cb1) = 0 \<and> cb_halfOpenRequests (RecordSuccess t cb1) = 0)"
proof -
  let ?cb = "snd (AllowRequest now now' cb)"
  note o = open_elapsed_step [OF assms(1,2,3), of now']
  have run: "cb_state cb1 = StateHalfOpen" "cb_successes cb1 = int n"
    using half_open_successes [of ?cb n t] AllowRequest_inv [OF assms(1), of now now'] o assms(4)
    by (auto simp: cb1_def)
  have "cb_inv cb1" "cb_conf cb1 = cb_conf cb"
    using cb_run_inv [OF assms(1)] by (simp_all only: cb1_def config_run)
  then show ?thesis
    using o run by (auto simp: RecordSuccess_def Let_def cb_inv_def cb_config_ok_def inc64_lt)
qed

theorem breaker_recovers_witness:
  "cb_state (RecordSuccess 0 (cb_run (Allow 60000000007 60000000008 # map Succeed (replicate 2 0))
     cb_opened)) = StateClosed"
  using breaker_recovers [OF cb_inv_opened, of 60000000007 2 60000000008 0]
  by (simp add: cb_DefaultConfig_def Second_def)

text \<open>
  A half-open episode admits one request more than \<open>HalfOpenMaxRequests\<close>: the request that
  finds the timeout elapsed switches the breaker to half-open with its request counter at
  zero, and the counter then lets through that many more. With no result reported,
  \<open>HalfOpenMaxRequests + 1\<close> requests are admitted and every later one is refused.
\<close>

theorem breaker_half_open_admits_one_more:
  assumes "cb_inv cb" "cb_state cb = StateOpen"
    and "now - cb_lastStateChangeTime cb \<ge> ResetTimeout (cb_conf cb)"
  shows "cb_admitted (Allow now now' # map (\<lambda>t. Allow t t) ts) cb =
    1 + min (nat (HalfOpenMaxRequests (cb_conf cb))) (length ts)"
  using open_elapsed_step [OF assms, of now'] AllowRequest_inv [OF assms(1), of now now'] assms(1)
    half_open_allow_run [of "snd (AllowRequest now now' cb)"
      "nat (HalfOpenMaxRequests (cb_conf cb))" ts]
  by (simp add: cb_inv_def cb_config_ok_def)

theorem breaker_half_open_admits_one_more_witness:
  "HalfOpenMaxRequests (cb_conf cb_opened) = 3 \<and>
   cb_admitted (Allow 60000000007 60000000007 # map (\<lambda>t. Allow t t) [60000000008, 60000000009,
     60000000010, 60000000011, 60000000012]) cb_opened = 4"
  using breaker_half_open_admits_one_more [OF cb_inv_opened, of 60000000007 60000000007
      "[60000000008, 60000000009, 60000000010, 60000000011, 60000000012]"]
  by (simp add: cb_DefaultConfig_def Second_def)

text \<open>
  However results are interleaved, a half-open episode never admits more than the counted
  \<open>HalfOpenMaxRequests\<close> after the request that began it.
\<close>

theorem breaker_half_open_limit:
  assumes "reach cb_init cb_step cb" "cb_state cb = StateOpen"
    and "fst (AllowRequest now now' cb)"
    and "cb_stays StateHalfOpen xs (snd (AllowRequest now now' cb))"
  shows "int (cb_admitted (Allow now now' # xs) cb) \<le> HalfOpenMaxRequests (cb_conf cb) + 1"
proof -
  have inv: "cb_inv cb" using assms(1) by (rule cb_sys.reach_inv)
  have "now - cb_lastStateChangeTime cb \<ge> ResetTimeout (cb_conf cb)"
    using assms(2,3) inv
    by (auto simp: AllowRequest_def cb_inv_def cb_config_ok_def time_Sub_ge split: if_splits)
  from open_elapsed_step [OF inv assms(2) this, of now'] show ?thesis
    using half_open_bound [OF AllowRequest_inv [OF inv] assms(4)] by simp
qed

text \<open>
  Monitoring sees every transition: with \<open>OnStateChange\<close> set, the calls made so far form a
  path from \<open>StateClosed\<close> to the current state in which each call reports a change from the
  state the previous one entered; with no callback there are no calls.
\<close>

theorem breaker_callbacks_trace_states:
  assumes "reach cb_init cb_step cb"
  shows "if OnStateChange (cb_conf cb) then call_path StateClosed (cb_calls cb) (cb_state cb)
    else cb_calls cb = []"
  using cb_calls_sys.reach_inv [OF assms] by (simp add: calls_ok_def)

theorem breaker_callbacks_trace_states_witness:
  "call_path StateClosed [Async StateClosed StateOpen, Locked StateOpen StateClosed] StateClosed \<and>
   cb_calls (cb_run [Fail 1 2, ResetOp 3] (cb_New \<lparr>MaxFailures = 1, ResetTimeout = 1,
     HalfOpenMaxRequests = 1, OnStateChange = True\<rparr> 0)) =
     [Async StateClosed StateOpen, Locked StateOpen StateClosed]"
proof -
  let ?cb = "cb_New \<lparr>MaxFailures = 1, ResetTimeout = 1, HalfOpenMaxRequests = 1,
     OnStateChange = True\<rparr> 0"
  have "reach cb_init cb_step ?cb"
    by (rule reach_init) (auto simp: cb_init_def is_int64_def)
  then have "reach cb_init cb_step (cb_run [Fail 1 2, ResetOp 3] ?cb)"
    by (rule reach_cb_run)
  moreover have "cb_calls (cb_run [Fail 1 2, ResetOp 3] ?cb) =
      [Async StateClosed StateOpen, Locked StateOpen StateClosed] \<and>
    cb_state (cb_run [Fail 1 2, ResetOp 3] ?cb) = StateClosed \<and>
    OnStateChange (cb_conf (cb_run [Fail 1 2, ResetOp 3] ?cb))"
    by code_simp
  ultimately show ?thesis using breaker_callbacks_trace_states by fastforce
qed

end
