(* ===== verification/Config.thy ===== *)
theory Config
  imports Errors
begin

text \<open>
  The configuration of \<open>config/\<close>: exchanges, queues, dead-letter settings, the client's
  \<open>Config\<close> with its defaults, functional options and validation, and the batch options.
  Argument maps are references into the store of Go maps, so that \<open>WithDLX\<close>, which writes
  to \<open>Args\<close>, acts on every copy of the struct that shares the map. A callback is modelled by
  whether it is set, a logger by which one it is.
\<close>

section \<open>Exchanges, queues and dead letters\<close>

record ExchangeConfig =
  ex_Name :: string
  ex_Type :: string
  ex_Durable :: bool
  ex_AutoDelete :: bool
  ex_Internal :: bool
  ex_Args :: mapref

record QueueConfig =
  q_Name :: string
  q_Exchange :: string
  q_RoutingKeys :: "string list"
  q_Durable :: bool
  q_AutoDelete :: bool
  q_Exclusive :: bool
  q_Args :: mapref

record DLQConfig =
  ExchangeName :: string
  QueuePrefix :: string
  ExchangeType :: string
  dlq_Durable :: bool
  dlq_AutoDelete :: bool

definition DefaultDLQConfig :: DLQConfig where
  "DefaultDLQConfig =
     \<lparr>ExchangeName = ''dlx.exchange'', QueuePrefix = ''dlq.'', ExchangeType = ''direct'',
      dlq_Durable = True, dlq_AutoDelete = False\<rparr>"

definition GetDLQName :: "DLQConfig \<Rightarrow> string \<Rightarrow> string" where
  "GetDLQName c queueName = QueuePrefix c @ queueName"

definition GetDLXRoutingKey :: "DLQConfig \<Rightarrow> string \<Rightarrow> string" where
  "GetDLXRoutingKey c queueName = queueName"

definition dlx_key :: string where
  "dlx_key = ''x-dead-letter-exchange''"

definition dlx_rk_key :: string where
  "dlx_rk_key = ''x-dead-letter-routing-key''"

text \<open>\<open>WithDLX\<close> has a pointer receiver: it may replace the queue's \<open>Args\<close> and writes to the map.\<close>

definition WithDLX :: "string \<Rightarrow> string \<Rightarrow> QueueConfig \<Rightarrow> heap \<Rightarrow> QueueConfig \<times> heap" where
  "WithDLX dlxExchange routingKey q h =
     (let (a, h1) = (case q_Args q of None \<Rightarrow> make_map Map.empty h | Some a \<Rightarrow> (a, h));
          q1 = q\<lparr>q_Args := Some a\<rparr>
      in if hp_map h1 a dlx_key = None
         then (q1, map_put a dlx_rk_key (VString routingKey)
                     (map_put a dlx_key (VString dlxExchange) h1))
         else (q1, h1))"

definition CreateDLQQueue :: "QueueConfig \<Rightarrow> DLQConfig \<Rightarrow> QueueConfig" where
  "CreateDLQQueue mainQueue dlqConfig =
     \<lparr>q_Name = GetDLQName dlqConfig (q_Name mainQueue), q_Exchange = ExchangeName dlqConfig,
      q_RoutingKeys = [GetDLXRoutingKey dlqConfig (q_Name mainQueue)],
      q_Durable = dlq_Durable dlqConfig, q_AutoDelete = dlq_AutoDelete dlqConfig,
      q_Exclusive = False, q_Args = None\<rparr>"

section \<open>The client configuration\<close>

datatype LoggerRef = DefaultLoggerRef | CustomLoggerRef string

record Config =
  URI :: string
  ReconnectDelay :: duration
  Timeout :: duration
  PrefetchCount :: int
  MaxRetries :: int
  PublisherConfirms :: bool
  ConfirmTimeout :: duration
  Logger :: "LoggerRef option"
  CircuitBreakerEnabled :: bool
  CircuitBreakerMaxFailures :: int
  CircuitBreakerResetTimeout :: duration
  CircuitBreakerHalfOpenRequests :: int
  DLQEnabled :: bool
  DLQConf :: DLQConfig
  Exchanges :: "ExchangeConfig list"
  Queues :: "QueueConfig list"
  OnConnectionBlocked :: bool
  OnConnectionUnblocked :: bool

definition DefaultConfig :: Config where
  "DefaultConfig =
     \<lparr>URI = [], ReconnectDelay = 5 * Second, Timeout = 10 * Second, PrefetchCount = 10,
      MaxRetries = 3, PublisherConfirms = False, ConfirmTimeout = 0,
      Logger = Some DefaultLoggerRef, CircuitBreakerEnabled = False,
      CircuitBreakerMaxFailures = 5, CircuitBreakerResetTimeout = 60 * Second,
      CircuitBreakerHalfOpenRequests = 3, DLQEnabled = False, DLQConf = DefaultDLQConfig,
      Exchanges = [], Queues = [], OnConnectionBlocked = False, OnConnectionUnblocked = False\<rparr>"

definition validTypes :: "string list" where
  "validTypes = [''direct'', ''fanout'', ''topic'', ''headers'']"

fun validateExchanges :: "nat \<Rightarrow> ExchangeConfig list \<Rightarrow> goerror option" where
  "validateExchanges i [] = None"
| "validateExchanges i (ex # exs) =
     (if ex_Name ex = [] then
        Some (NewConfigFieldError (''Exchanges['' @ show_nat i @ ''].Name'') ''is required'')
      else if ex_Type ex = [] then
        Some (NewConfigFieldError (''Exchanges['' @ show_nat i @ ''].Type'') ''is required'')
      else if ex_Type ex \<notin> set validTypes then
        Some (NewConfigFieldError (''Exchanges['' @ show_nat i @ ''].Type'')
          (''must be one of: direct, fanout, topic, headers (got: '' @ ex_Type ex @ '')''))
      else validateExchanges (Suc i) exs)"

fun validateQueues :: "nat \<Rightarrow> QueueConfig list \<Rightarrow> goerror option" where
  "validateQueues i [] = None"
| "validateQueues i (q # qs) =
     (if q_Name q = [] then
        Some (NewConfigFieldError (''Queues['' @ show_nat i @ ''].Name'') ''is required'')
      else validateQueues (Suc i) qs)"

definition Validate :: "Config \<Rightarrow> goerror option" where
  "Validate c =
     (if URI c = [] then Some (NewConfigFieldError ''URI'' ''is required'')
      else if ReconnectDelay c \<le> 0 then
        Some (NewConfigFieldError ''ReconnectDelay'' ''must be greater than 0'')
      else if Timeout c \<le> 0 then
        Some (NewConfigFieldError ''Timeout'' ''must be greater than 0'')
      else if PrefetchCount c < 0 then
        Some (NewConfigFieldError ''PrefetchCount'' ''cannot be negative'')
      else if MaxRetries c < 0 then
        Some (NewConfigFieldError ''MaxRetries'' ''cannot be negative'')
      else (case validateExchanges 0 (Exchanges c) of
              Some e \<Rightarrow> Some e
            | None \<Rightarrow> validateQueues 0 (Queues c)))"

section \<open>Functional options\<close>

type_synonym config_option = "Config \<Rightarrow> Config"

definition WithURI :: "string \<Rightarrow> config_option" where
  "WithURI uri c = c\<lparr>URI := uri\<rparr>"

definition WithReconnectDelay :: "duration \<Rightarrow> config_option" where
  "WithReconnectDelay d c = c\<lparr>ReconnectDelay := d\<rparr>"

definition WithTimeout :: "duration \<Rightarrow> config_option" where
  "WithTimeout d c = c\<lparr>Timeout := d\<rparr>"

definition WithPrefetchCount :: "int \<Rightarrow> config_option" where
  "WithPrefetchCount n c = c\<lparr>PrefetchCount := n\<rparr>"

definition WithMaxRetries :: "int \<Rightarrow> config_option" where
  "WithMaxRetries n c = c\<lparr>MaxRetries := n\<rparr>"

definition WithExchanges :: "ExchangeConfig list \<Rightarrow> config_option" where
  "WithExchanges exs c = c\<lparr>Exchanges := exs\<rparr>"

definition WithQueues :: "QueueConfig list \<Rightarrow> config_option" where
  "WithQueues qs c = c\<lparr>Queues := qs\<rparr>"

definition WithPublisherConfirms :: "bool \<Rightarrow> config_option" where
  "WithPublisherConfirms b c = c\<lparr>PublisherConfirms := b\<rparr>"

definition WithConfirmTimeout :: "duration \<Rightarrow> config_option" where
  "WithConfirmTimeout d c = c\<lparr>ConfirmTimeout := d\<rparr>"

definition WithLogger :: "LoggerRef option \<Rightarrow> config_option" where
  "WithLogger l c = c\<lparr>Logger := l\<rparr>"

definition WithCircuitBreaker :: "bool \<Rightarrow> config_option" where
  "WithCircuitBreaker b c = c\<lparr>CircuitBreakerEnabled := b\<rparr>"

definition WithCircuitBreakerMaxFailures :: "int \<Rightarrow> config_option" where
  "WithCircuitBreakerMaxFailures n c = c\<lparr>CircuitBreakerMaxFailures := n\<rparr>"

definition WithCircuitBreakerResetTimeout :: "duration \<Rightarrow> config_option" where
  "WithCircuitBreakerResetTimeout d c = c\<lparr>CircuitBreakerResetTimeout := d\<rparr>"

definition WithCircuitBreakerHalfOpenRequests :: "int \<Rightarrow> config_option" where
  "WithCircuitBreakerHalfOpenRequests n c = c\<lparr>CircuitBreakerHalfOpenRequests := n\<rparr>"

definition WithDLQ :: "bool \<Rightarrow> config_option" where
  "WithDLQ b c = c\<lparr>DLQEnabled := b\<rparr>"

definition WithCustomDLQ :: "DLQConfig \<Rightarrow> config_option" where
  "WithCustomDLQ d c = c\<lparr>DLQEnabled := True, DLQConf := d\<rparr>"

definition WithDLQExchange :: "string \<Rightarrow> config_option" where
  "WithDLQExchange n c = c\<lparr>DLQConf := (DLQConf c)\<lparr>ExchangeName := n\<rparr>\<rparr>"

definition WithDLQPrefix :: "string \<Rightarrow> config_option" where
  "WithDLQPrefix p c = c\<lparr>DLQConf := (DLQConf c)\<lparr>QueuePrefix := p\<rparr>\<rparr>"

definition WithConnectionBlockedCallback :: "bool \<Rightarrow> bool \<Rightarrow> config_option" where
  "WithConnectionBlockedCallback onBlocked onUnblocked c =
     c\<lparr>OnConnectionBlocked := onBlocked, OnConnectionUnblocked := onUnblocked\<rparr>"

text \<open>The loop that applies the options, in order.\<close>

definition applyOptions :: "config_option list \<Rightarrow> config_option" where
  "applyOptions opts c = fold (\<lambda>opt. opt) opts c"

section \<open>Batch options\<close>

record BatchConfig =
  UsePipelining :: bool
  FailFast :: bool
  MaxConcurrency :: int

type_synonym batch_option = "BatchConfig \<Rightarrow> BatchConfig"

definition DefaultBatchConfig :: BatchConfig where
  "DefaultBatchConfig = \<lparr>UsePipelining = True, FailFast = False, MaxConcurrency = 0\<rparr>"

definition WithPipelining :: "bool \<Rightarrow> batch_option" where
  "WithPipelining b c = c\<lparr>UsePipelining := b\<rparr>"

definition WithFailFast :: "bool \<Rightarrow> batch_option" where
  "WithFailFast b c = c\<lparr>FailFast := b\<rparr>"

definition WithMaxConcurrency :: "int \<Rightarrow> batch_option" where
  "WithMaxConcurrency n c = c\<lparr>MaxConcurrency := n\<rparr>"

section \<open>Validation\<close>

text \<open>What a valid configuration is, rule by rule.\<close>

definition exchange_valid :: "ExchangeConfig \<Rightarrow> bool" where
  "exchange_valid ex \<longleftrightarrow> ex_Name ex \<noteq> [] \<and> ex_Type ex \<in> {''direct'', ''fanout'', ''topic'', ''headers''}"

definition config_valid :: "Config \<Rightarrow> bool" where
  "config_valid c \<longleftrightarrow> URI c \<noteq> [] \<and> 0 < ReconnectDelay c \<and> 0 < Timeout c \<and> 0 \<le> PrefetchCount c \<and>
     0 \<le> MaxRetries c \<and> (\<forall>ex \<in> set (Exchanges c). exchange_valid ex) \<and>
     (\<forall>q \<in> set (Queues c). q_Name q \<noteq> [])"

lemma validateExchanges_None:
  "validateExchanges i exs = None \<longleftrightarrow> (\<forall>ex \<in> set exs. exchange_valid ex)"
  by (induction i exs rule: validateExchanges.induct)
    (auto simp: exchange_valid_def validTypes_def)

lemma validateQueues_None: "validateQueues i qs = None \<longleftrightarrow> (\<forall>q \<in> set qs. q_Name q \<noteq> [])"
  by (induction i qs rule: validateQueues.induct) auto

lemma validateQueues_first:
  "(\<forall>q \<in> set qs. q_Name q \<noteq> []) \<Longrightarrow> q_Name q = [] \<Longrightarrow>
   validateQueues i (qs @ q # rest) =
     Some (ConfigError (''Queues['' @ show_nat (i + length qs) @ ''].Name'') ''is required'')"
  by (induction qs arbitrary: i) auto

lemma validateExchanges_first:
  assumes "\<forall>ex \<in> set exs. exchange_valid ex" "\<not> exchange_valid ex"
  shows "\<exists>field m. validateExchanges i (exs @ ex # rest) =
    Some (ConfigError (''Exchanges['' @ show_nat (i + length exs) @ field) m)"
  using assms
proof (induction exs arbitrary: i)
  case Nil
  then show ?case by (auto simp: exchange_valid_def validTypes_def)
next
  case (Cons e exs)
  then have "validateExchanges i (e # exs @ ex # rest) = validateExchanges (Suc i) (exs @ ex # rest)"
    by (auto simp: exchange_valid_def validTypes_def)
  with Cons.IH [of "Suc i"] Cons.prems show ?case by simp
qed

lemma Validate_None: "Validate c = None \<longleftrightarrow> config_valid c"
  using validateExchanges_None [of 0 "Exchanges c"]
  by (auto simp: Validate_def config_valid_def validateQueues_None not_le split: option.splits)

section \<open>Dead-letter arguments\<close>

lemma WithDLX_args:
  "\<exists>a. q_Args (fst (WithDLX x rk q h)) = Some a \<and> fst (WithDLX x rk q h) = q\<lparr>q_Args := Some a\<rparr> \<and>
     (q_Args q \<noteq> None \<longrightarrow> q_Args q = Some a)"
  by (auto simp: WithDLX_def make_map_def Let_def split: option.splits)

text \<open>The arguments a queue is declared with once \<open>WithDLX\<close> has run.\<close>

definition dlx_args :: "string \<Rightarrow> string \<Rightarrow> gtable \<Rightarrow> gtable" where
  "dlx_args x rk t =
     (if t dlx_key = None then t(dlx_key \<mapsto> VString x, dlx_rk_key \<mapsto> VString rk) else t)"

lemma WithDLX_result:
  "map_get (snd (WithDLX x rk q h)) (q_Args (fst (WithDLX x rk q h))) =
     dlx_args x rk (map_get h (q_Args q))"
  by (auto simp: WithDLX_def make_map_def Let_def dlx_args_def split: option.splits)

lemma WithDLX_other:
  "ref_ok h r \<Longrightarrow> r \<noteq> q_Args q \<Longrightarrow> map_get (snd (WithDLX x rk q h)) r = map_get h r"
  by (auto simp: WithDLX_def make_map_def Let_def map_get_def ref_ok_def split: option.splits)

lemma WithDLX_next: "hp_next h \<le> hp_next (snd (WithDLX x rk q h))"
  by (auto simp: WithDLX_def make_map_def Let_def split: option.splits)

lemma dlx_args_has: "dlx_args x rk t dlx_key \<noteq> None"
  by (simp add: dlx_args_def dlx_key_def dlx_rk_key_def)

lemma dlx_args_idem: "dlx_args x' rk' (dlx_args x rk t) = dlx_args x rk t"
  using dlx_args_has [of x rk t] by (simp add: dlx_args_def)

section \<open>Properties\<close>

definition sample_queue :: "string \<Rightarrow> mapref \<Rightarrow> QueueConfig" where
  "sample_queue name args =
     \<lparr>q_Name = name, q_Exchange = ''orders'', q_RoutingKeys = [''order.created''], q_Durable = True,
      q_AutoDelete = False, q_Exclusive = False, q_Args = args\<rparr>"

text \<open>
  C29. \<open>Validate\<close> accepts exactly the configurations that meet its own rules (a URI, positive
  \<open>ReconnectDelay\<close> and \<open>Timeout\<close>, \<open>PrefetchCount\<close> and \<open>MaxRetries\<close> not negative, a name and one of
  the four types on every exchange, a name on every queue), and rejects every other one with a
  \<open>ConfigError\<close>; when the rest is valid it names the first exchange without a name or with an
  unknown type, else the first queue without a name. A \<open>PrefetchCount\<close> of zero is accepted and
  \<open>ConfirmTimeout\<close> is never looked at, although \<open>docs/CONFIGURATION.md\<close> lists both as validated.
\<close>

theorem validate_exact:
  "(Validate c = None \<longleftrightarrow> config_valid c) \<and>
   (\<not> config_valid c \<longrightarrow> (\<exists>field m. Validate c = Some (ConfigError field m))) \<and>
   (Queues c = qs @ q # rest \<and> config_valid (c\<lparr>Queues := qs\<rparr>) \<and> q_Name q = [] \<longrightarrow>
      Validate c = Some (ConfigError (''Queues['' @ show_nat (length qs) @ ''].Name'') ''is required'')) \<and>
   (Exchanges c = exs @ ex # rest' \<and> config_valid (c\<lparr>Exchanges := exs\<rparr>) \<and> \<not> exchange_valid ex \<longrightarrow>
      (\<exists>field m. Validate c = Some (ConfigError (''Exchanges['' @ show_nat (length exs) @ field) m))) \<and>
   (Validate c = None \<longrightarrow> Validate (c\<lparr>PrefetchCount := 0, ConfirmTimeout := t\<rparr>) = None)"
proof (intro conjI impI)
  show "Validate c = None \<longleftrightarrow> config_valid c" by (rule Validate_None)
next
  have ex: "\<exists>f m. validateExchanges i exs = Some (ConfigError f m)"
    if "validateExchanges i exs \<noteq> None" for i exs
    using that by (induction i exs rule: validateExchanges.induct) auto
  have qu: "\<exists>f m. validateQueues i qs = Some (ConfigError f m)"
    if "validateQueues i qs \<noteq> None" for i qs
    using that by (induction i qs rule: validateQueues.induct) auto
  assume "\<not> config_valid c"
  then have "Validate c \<noteq> None" by (simp add: Validate_None)
  then show "\<exists>field m. Validate c = Some (ConfigError field m)"
    using ex [of 0 "Exchanges c"] qu [of 0 "Queues c"]
    by (auto simp: Validate_def split: if_splits option.splits)
next
  assume "Queues c = qs @ q # rest \<and> config_valid (c\<lparr>Queues := qs\<rparr>) \<and> q_Name q = []"
  then show "Validate c = Some (ConfigError (''Queues['' @ show_nat (length qs) @ ''].Name'') ''is required'')"
    using validateQueues_first [of qs q 0 rest] validateExchanges_None [of 0 "Exchanges c"]
    by (auto simp: Validate_def config_valid_def)
next
  assume "Exchanges c = exs @ ex # rest' \<and> config_valid (c\<lparr>Exchanges := exs\<rparr>) \<and> \<not> exchange_valid ex"
  then show "\<exists>field m. Validate c = Some (ConfigError (''Exchanges['' @ show_nat (length exs) @ field) m)"
    using validateExchanges_first [of exs ex 0 rest'] by (auto simp: Validate_def config_valid_def)
next
  assume "Validate c = None"
  then show "Validate (c\<lparr>PrefetchCount := 0, ConfirmTimeout := t\<rparr>) = None"
    by (simp add: Validate_None config_valid_def)
qed

theorem validate_exact_witness:
  "Validate (WithQueues [sample_queue [] None]
     (WithURI ''amqp://localhost'' DefaultConfig)) =
   Some (ConfigError (''Queues['' @ show_nat 0 @ ''].Name'') ''is required'')"
  using validate_exact [of "WithQueues [sample_queue [] None]
     (WithURI ''amqp://localhost'' DefaultConfig)" "[]"
     "sample_queue [] None" "[]"]
  by (simp add: WithQueues_def WithURI_def DefaultConfig_def config_valid_def Second_def
      sample_queue_def)

text \<open>
  \<open>WithDLX\<close> is idempotent and never overwrites a dead-letter exchange that is already set:
  after it ran, a queue's arguments name one, running it again with any other names changes
  no argument, and no other queue's arguments change unless it shares the map.
\<close>

theorem with_dlx_idempotent:
  fixes x rk :: string
  assumes "ref_ok h (q_Args q)" "ref_ok h r" "r \<noteq> q_Args q"
  defines "q1 \<equiv> fst (WithDLX x rk q h)" and "h1 \<equiv> snd (WithDLX x rk q h)"
  shows "map_get h1 (q_Args q1) dlx_key \<noteq> None \<and>
    (\<forall>v. map_get h (q_Args q) dlx_key = Some v \<longrightarrow> map_get h1 (q_Args q1) = map_get h (q_Args q)) \<and>
    map_get (snd (WithDLX x' rk' q1 h1)) (q_Args q1) = map_get h1 (q_Args q1) \<and>
    fst (WithDLX x' rk' q1 h1) = q1 \<and> map_get h1 r = map_get h r"
proof -
  have res: "map_get h1 (q_Args q1) = dlx_args x rk (map_get h (q_Args q))"
    unfolding q1_def h1_def by (rule WithDLX_result)
  obtain a where a: "q_Args q1 = Some a"
    using WithDLX_args [of x rk q h] by (auto simp: q1_def)
  then have q1: "fst (WithDLX x' rk' q1 h1) = q1"
    using WithDLX_args [of x' rk' q1 h1] by auto
  then have "map_get (snd (WithDLX x' rk' q1 h1)) (q_Args q1) = map_get h1 (q_Args q1)"
    using WithDLX_result [of x' rk' q1 h1] by (simp add: res dlx_args_idem)
  moreover have "map_get h1 r = map_get h r"
    unfolding h1_def using assms(2,3) by (rule WithDLX_other)
  ultimately show ?thesis using q1 dlx_args_has by (auto simp: res dlx_args_def)
qed

theorem with_dlx_idempotent_witness:
  "map_get (snd (WithDLX ''dlx'' ''k'' (sample_queue ''q'' None)
     (snd (make_map [''a'' \<mapsto> VInt 1] empty_heap)))) (Some 0) = [''a'' \<mapsto> VInt 1]"
  using with_dlx_idempotent [of "snd (make_map [''a'' \<mapsto> VInt 1] empty_heap)"
      "sample_queue ''q'' None" "Some 0" "''dlx''" "''k''"]
  by (simp add: ref_ok_def make_map_def empty_heap_def sample_queue_def)

end
