(* ===== verification/Json.thy ===== *)
theory Json
  imports Go_Prelude
begin

text \<open>
  What the library uses of Go's \<open>encoding/json\<close>: reading a message body into
  \<open>struct { Type string `json:"type"` }\<close> and into a \<open>map[string]any\<close>. The parser
  works on bytes (\<^typ>\<open>char\<close> is a byte), refuses what the decoder's scanner refuses (including
  control bytes in strings, malformed escapes and numbers, and nesting beyond 10000), keeps
  the raw text of strings and numbers, and \<open>unquote\<close> decodes a string as the decoder does:
  escapes, surrogate pairs, and U+FFFD for anything that is not UTF-8.
\<close>

section \<open>Syntax trees and lexing\<close>

datatype json =
    JNull
  | JBool bool
  | JNum string
  | JStr string
  | JArr "json list"
  | JObj "(string \<times> json) list"

definition is_ws :: "char \<Rightarrow> bool" where
  "is_ws c \<longleftrightarrow> c \<in> {CHR '' '', CHR 0x09, CHR 0x0A, CHR 0x0D}"

fun skip_ws :: "string \<Rightarrow> string" where
  "skip_ws [] = []"
| "skip_ws (c # cs) = (if is_ws c then skip_ws cs else c # cs)"

definition byte :: "char \<Rightarrow> nat" where
  "byte c = of_char c"

definition is_digit :: "char \<Rightarrow> bool" where
  "is_digit c \<longleftrightarrow> 48 \<le> byte c \<and> byte c \<le> 57"

definition is_hex :: "char \<Rightarrow> bool" where
  "is_hex c \<longleftrightarrow> is_digit c \<or> (65 \<le> byte c \<and> byte c \<le> 70) \<or> (97 \<le> byte c \<and> byte c \<le> 102)"

definition hex_val :: "char \<Rightarrow> nat" where
  "hex_val c = (if is_digit c then byte c - 48 else if byte c \<le> 70 then byte c - 55 else byte c - 87)"

definition is_escape :: "char \<Rightarrow> bool" where
  "is_escape c \<longleftrightarrow> c \<in> {CHR ''b'', CHR ''f'', CHR ''n'', CHR ''r'', CHR ''t'', CHR 0x5C, CHR ''/'', CHR 0x22}"

text \<open>The raw text of a string after its opening quote, and the rest of the input.\<close>

fun scan_string :: "string \<Rightarrow> (string \<times> string) option" where
  "scan_string [] = None"
| "scan_string (c # cs) =
     (if c = CHR 0x22 then Some ([], cs)
      else if c = CHR 0x5C then
        (case cs of
           [] \<Rightarrow> None
         | e # es \<Rightarrow>
             if is_escape e then
               (case scan_string es of None \<Rightarrow> None | Some (r, rest) \<Rightarrow> Some (c # e # r, rest))
             else if e = CHR ''u'' then
               (case es of
                  h1 # h2 # h3 # h4 # es' \<Rightarrow>
                    if is_hex h1 \<and> is_hex h2 \<and> is_hex h3 \<and> is_hex h4 then
                      (case scan_string es' of
                         None \<Rightarrow> None
                       | Some (r, rest) \<Rightarrow> Some (c # e # h1 # h2 # h3 # h4 # r, rest))
                    else None
                | _ \<Rightarrow> None)
             else None)
      else if byte c < 32 then None
      else (case scan_string cs of None \<Rightarrow> None | Some (r, rest) \<Rightarrow> Some (c # r, rest)))"

text \<open>Numbers: an optional sign, an integer without leading zeros, a fraction, an exponent.\<close>

definition scan_digits1 :: "string \<Rightarrow> (string \<times> string) option" where
  "scan_digits1 s = (if takeWhile is_digit s = [] then None
     else Some (takeWhile is_digit s, dropWhile is_digit s))"

definition scan_integer :: "string \<Rightarrow> (string \<times> string) option" where
  "scan_integer s =
     (case s of
        c # cs \<Rightarrow> if c = CHR ''0'' then Some ([c], cs) else scan_digits1 s
      | [] \<Rightarrow> None)"

definition scan_frac :: "string \<Rightarrow> (string \<times> string) option" where
  "scan_frac s =
     (case s of
        c # cs \<Rightarrow> if c = CHR ''.'' then map_option (\<lambda>(r, rest). (c # r, rest)) (scan_digits1 cs)
                 else Some ([], s)
      | [] \<Rightarrow> Some ([], []))"

definition scan_exp :: "string \<Rightarrow> (string \<times> string) option" where
  "scan_exp s =
     (case s of
        c # cs \<Rightarrow>
          if c = CHR ''e'' \<or> c = CHR ''E'' then
            (case cs of
               d # ds \<Rightarrow>
                 if d = CHR ''+'' \<or> d = CHR ''-''
                 then map_option (\<lambda>(r, rest). (c # d # r, rest)) (scan_digits1 ds)
                 else map_option (\<lambda>(r, rest). (c # r, rest)) (scan_digits1 cs)
             | [] \<Rightarrow> None)
          else Some ([], s)
      | [] \<Rightarrow> Some ([], []))"

definition scan_unsigned :: "string \<Rightarrow> (string \<times> string) option" where
  "scan_unsigned s =
     (case scan_integer s of
        None \<Rightarrow> None
      | Some (i, s1) \<Rightarrow>
          (case scan_frac s1 of
             None \<Rightarrow> None
           | Some (f, s2) \<Rightarrow> map_option (\<lambda>(e, s3). (i @ f @ e, s3)) (scan_exp s2)))"

definition scan_number :: "string \<Rightarrow> (string \<times> string) option" where
  "scan_number s =
     (case s of
        c # cs \<Rightarrow> if c = CHR ''-'' then map_option (\<lambda>(r, rest). (c # r, rest)) (scan_unsigned cs)
                 else scan_unsigned s
      | [] \<Rightarrow> None)"

definition strip_prefix :: "string \<Rightarrow> string \<Rightarrow> string option" where
  "strip_prefix p s = (if take (length p) s = p then Some (drop (length p) s) else None)"

section \<open>Parsing\<close>

definition maxNestingDepth :: nat where
  "maxNestingDepth = 10000"

fun p_value :: "nat \<Rightarrow> nat \<Rightarrow> string \<Rightarrow> (json \<times> string) option"
  and p_elems :: "nat \<Rightarrow> nat \<Rightarrow> string \<Rightarrow> (json list \<times> string) option"
  and p_members :: "nat \<Rightarrow> nat \<Rightarrow> string \<Rightarrow> ((string \<times> json) list \<times> string) option" where
  "p_value 0 d s = None"
| "p_value (Suc n) d s =
     (case skip_ws s of
        [] \<Rightarrow> None
      | c # cs \<Rightarrow>
          if c = CHR 0x22 then map_option (\<lambda>(r, rest). (JStr r, rest)) (scan_string cs)
          else if c = CHR ''{'' then
            (if d \<ge> maxNestingDepth then None
             else (case skip_ws cs of
                     [] \<Rightarrow> None
                   | e # es \<Rightarrow>
                       if e = CHR ''}'' then Some (JObj [], es)
                       else map_option (\<lambda>(ms, rest). (JObj ms, rest)) (p_members n (Suc d) (e # es))))
          else if c = CHR ''['' then
            (if d \<ge> maxNestingDepth then None
             else (case skip_ws cs of
                     [] \<Rightarrow> None
                   | e # es \<Rightarrow>
                       if e = CHR '']'' then Some (JArr [], es)
                       else map_option (\<lambda>(vs, rest). (JArr vs, rest)) (p_elems n (Suc d) (e # es))))
          else if c = CHR ''t'' then
            map_option (\<lambda>rest. (JBool True, rest)) (strip_prefix ''true'' (c # cs))
          else if c = CHR ''f'' then
            map_option (\<lambda>rest. (JBool False, rest)) (strip_prefix ''false'' (c # cs))
          else if c = CHR ''n'' then
            map_option (\<lambda>rest. (JNull, rest)) (strip_prefix ''null'' (c # cs))
          else map_option (\<lambda>(r, rest). (JNum r, rest)) (scan_number (c # cs)))"
| "p_elems 0 d s = None"
| "p_elems (Suc n) d s =
     (case p_value n d s of
        None \<Rightarrow> None
      | Some (v, s1) \<Rightarrow>
          (case skip_ws s1 of
             [] \<Rightarrow> None
           | c # cs \<Rightarrow>
               if c = CHR '']'' then Some ([v], cs)
               else if c = CHR '','' then
                 map_option (\<lambda>(vs, rest). (v # vs, rest)) (p_elems n d cs)
               else None))"
| "p_members 0 d s = None"
| "p_members (Suc n) d s =
     (case skip_ws s of
        [] \<Rightarrow> None
      | q # qs \<Rightarrow>
          if q \<noteq> CHR 0x22 then None
          else (case scan_string qs of
                  None \<Rightarrow> None
                | Some (k, s1) \<Rightarrow>
                    (case skip_ws s1 of
                       [] \<Rightarrow> None
                     | c # cs \<Rightarrow>
                         if c \<noteq> CHR '':'' then None
                         else (case p_value n d cs of
                                 None \<Rightarrow> None
                               | Some (v, s2) \<Rightarrow>
                                   (case skip_ws s2 of
                                      [] \<Rightarrow> None
                                    | e # es \<Rightarrow>
                                        if e = CHR ''}'' then Some ([(k, v)], es)
                                        else if e = CHR '','' then
                                          map_option (\<lambda>(ms, rest). ((k, v) # ms, rest)) (p_members n d es)
                                        else None)))))"

text \<open>
  Twice the length of the input is fuel enough (\<open>json_parse_fuel\<close> below): a value or a member
  consumes a byte before it recurses, an element list at the latest in its first value.
\<close>

definition json_parse_with :: "nat \<Rightarrow> string \<Rightarrow> json option" where
  "json_parse_with fuel s =
     (case p_value fuel 0 s of
        None \<Rightarrow> None
      | Some (v, rest) \<Rightarrow> if skip_ws rest = [] then Some v else None)"

definition json_parse :: "string \<Rightarrow> json option" where
  "json_parse s = json_parse_with (2 * length s + 2) s"

section \<open>Decoding strings\<close>

definition is_cont :: "char \<Rightarrow> bool" where
  "is_cont c \<longleftrightarrow> 128 \<le> byte c \<and> byte c \<le> 191"

text \<open>The width of the UTF-8 sequence at the head of the text, 0 when there is none.\<close>

fun utf8_width :: "string \<Rightarrow> nat" where
  "utf8_width [] = 0"
| "utf8_width (a # s) =
     (if byte a < 128 then 1
      else if 194 \<le> byte a \<and> byte a \<le> 223 then
        (case s of b # _ \<Rightarrow> if is_cont b then 2 else 0 | _ \<Rightarrow> 0)
      else if 224 \<le> byte a \<and> byte a \<le> 239 then
        (case s of
           b # c # _ \<Rightarrow>
             if (if byte a = 224 then 160 else 128) \<le> byte b \<and>
                byte b \<le> (if byte a = 237 then 159 else 191) \<and> is_cont c then 3 else 0
         | _ \<Rightarrow> 0)
      else if 240 \<le> byte a \<and> byte a \<le> 244 then
        (case s of
           b # c # d # _ \<Rightarrow>
             if (if byte a = 240 then 144 else 128) \<le> byte b \<and>
                byte b \<le> (if byte a = 244 then 143 else 191) \<and> is_cont c \<and> is_cont d then 4 else 0
         | _ \<Rightarrow> 0)
      else 0)"

definition utf8_encode :: "nat \<Rightarrow> string" where
  "utf8_encode r =
     (if r < 128 then [char_of r]
      else if r < 2048 then [char_of (192 + r div 64), char_of (128 + r mod 64)]
      else if r < 65536 then
        [char_of (224 + r div 4096), char_of (128 + r div 64 mod 64), char_of (128 + r mod 64)]
      else [char_of (240 + r div 262144), char_of (128 + r div 4096 mod 64),
            char_of (128 + r div 64 mod 64), char_of (128 + r mod 64)])"

definition replacement :: string where
  "replacement = utf8_encode 65533"

definition escape_char :: "char \<Rightarrow> char" where
  "escape_char c =
     (if c = CHR ''b'' then CHR 0x08 else if c = CHR ''f'' then CHR 0x0C
      else if c = CHR ''n'' then CHR 0x0A else if c = CHR ''r'' then CHR 0x0D
      else if c = CHR ''t'' then CHR 0x09 else c)"

definition hex4 :: "char \<Rightarrow> char \<Rightarrow> char \<Rightarrow> char \<Rightarrow> nat" where
  "hex4 a b c d = ((hex_val a * 16 + hex_val b) * 16 + hex_val c) * 16 + hex_val d"

definition is_surrogate :: "nat \<Rightarrow> bool" where
  "is_surrogate r \<longleftrightarrow> 55296 \<le> r \<and> r < 57344"

text \<open>The code point of a \<open>\u\<close> escape and how many more bytes it takes from what follows.\<close>

definition decode_u :: "nat \<Rightarrow> string \<Rightarrow> string \<times> nat" where
  "decode_u r s =
     (if \<not> is_surrogate r then (utf8_encode r, 0)
      else (case s of
              bs # u # a # b # c # d # _ \<Rightarrow>
                if bs = CHR 0x5C \<and> u = CHR ''u'' \<and> r < 56320 \<and> 56320 \<le> hex4 a b c d \<and> hex4 a b c d < 57344
                then (utf8_encode ((r - 55296) * 1024 + (hex4 a b c d - 56320) + 65536), 6)
                else (replacement, 0)
            | _ \<Rightarrow> (replacement, 0)))"

function unquote :: "string \<Rightarrow> string" where
  "unquote [] = []"
| "unquote (c # cs) =
     (if c = CHR 0x5C then
        (case cs of
           [] \<Rightarrow> []
         | e # es \<Rightarrow>
             if e = CHR ''u'' then
               (case es of
                  h1 # h2 # h3 # h4 # es' \<Rightarrow>
                    fst (decode_u (hex4 h1 h2 h3 h4) es') @
                    unquote (drop (snd (decode_u (hex4 h1 h2 h3 h4) es')) es')
                | _ \<Rightarrow> [])
             else escape_char e # unquote es)
      else if utf8_width (c # cs) = 0 then replacement @ unquote cs
      else take (utf8_width (c # cs)) (c # cs) @ unquote (drop (utf8_width (c # cs) - 1) cs))"
  by pat_completeness auto
termination
  by (relation "measure length") auto

section \<open>The type field\<close>

definition to_lower :: "char \<Rightarrow> char" where
  "to_lower c = (if 65 \<le> byte c \<and> byte c \<le> 90 then char_of (byte c + 32) else c)"

text \<open>A member names the struct field if its key is \<open>type\<close> up to letter case.\<close>

definition is_type_key :: "string \<Rightarrow> bool" where
  "is_type_key k \<longleftrightarrow> map to_lower (unquote k) = ''type''"

text \<open>
  Decoding the members in order into the field: a string sets it, \<open>null\<close> leaves it, any other
  value is a type error, which is reported after the remaining members are decoded.
\<close>

fun decode_type :: "string \<Rightarrow> bool \<Rightarrow> (string \<times> json) list \<Rightarrow> string option" where
  "decode_type cur ok [] = (if ok then Some cur else None)"
| "decode_type cur ok ((k, v) # ms) =
     (if is_type_key k then
        (case v of
           JStr s \<Rightarrow> decode_type (unquote s) ok ms
         | JNull \<Rightarrow> decode_type cur ok ms
         | _ \<Rightarrow> decode_type cur False ms)
      else decode_type cur ok ms)"

text \<open>\<open>json.Unmarshal\<close> into the payload struct: \<^term>\<open>None\<close> when it returns an error.\<close>

definition unmarshal_type :: "string \<Rightarrow> string option" where
  "unmarshal_type body =
     (case json_parse body of
        Some (JObj ms) \<Rightarrow> decode_type [] True ms
      | Some JNull \<Rightarrow> Some []
      | _ \<Rightarrow> None)"

section \<open>Decoding into a map\<close>

text \<open>
  Decoding into \<open>map[string]any\<close> turns every number into a \<open>float64\<close> and reports one that is
  out of its range. A number text is read as a mantissa and a decimal exponent; rounding
  reaches infinity from \<open>2 ^ 1024 - 2 ^ 970\<close> on.
\<close>

definition num_parts :: "string \<Rightarrow> nat \<times> int" where
  "num_parts r =
     (let u = (case r of c # cs \<Rightarrow> if c = CHR ''-'' then cs else r | [] \<Rightarrow> []);
          ip = takeWhile is_digit u;
          u1 = dropWhile is_digit u;
          fp = (case u1 of c # cs \<Rightarrow> if c = CHR ''.'' then takeWhile is_digit cs else [] | [] \<Rightarrow> []);
          u2 = (case u1 of c # cs \<Rightarrow> if c = CHR ''.'' then dropWhile is_digit cs else u1 | [] \<Rightarrow> []);
          ep = (case u2 of
                  e # d # ds \<Rightarrow> if d = CHR ''-'' then - int (read_nat 0 ds)
                               else if d = CHR ''+'' then int (read_nat 0 ds)
                               else int (read_nat 0 (d # ds))
                | _ \<Rightarrow> 0)
      in (read_nat 0 (ip @ fp), ep - int (length fp)))"

definition float_in_range :: "string \<Rightarrow> bool" where
  "float_in_range r =
     (case num_parts r of (m, e) \<Rightarrow>
        if 0 \<le> e then int m * 10 ^ nat e < 2 ^ 1024 - 2 ^ 970
        else int m < (2 ^ 1024 - 2 ^ 970) * 10 ^ nat (- e))"

fun nums_in_range :: "json \<Rightarrow> bool" where
  "nums_in_range (JNum r) = float_in_range r"
| "nums_in_range (JArr vs) = list_all nums_in_range vs"
| "nums_in_range (JObj ms) = list_all (\<lambda>m. nums_in_range (snd m)) ms"
| "nums_in_range _ = True"

text \<open>
  A number in range becomes the nearest \<open>float64\<close>, ties going to the even significand:
  \<open>num / den\<close> is scaled by a power of two to 53 bits (to fewer below the least normal exponent).
  The sign of a zero is not kept.
\<close>

fun bit_size :: "nat \<Rightarrow> nat" where
  "bit_size n = (if n = 0 then 0 else Suc (bit_size (n div 2)))"

declare bit_size.simps [simp del]

definition round_even :: "nat \<Rightarrow> nat \<Rightarrow> nat" where
  "round_even n d =
     (let k = n div d; r = n mod d in if 2 * r > d \<or> 2 * r = d \<and> odd k then Suc k else k)"

definition float_exp :: "nat \<Rightarrow> nat \<Rightarrow> int" where
  "float_exp num den =
     (let q = int (bit_size num) - int (bit_size den) - 53;
          small = num * 2 ^ nat (- q) < den * 2 ^ nat q * 2 ^ 53
      in max (- 1074) (if small then q else q + 1))"

definition float_of_ratio :: "bool \<Rightarrow> nat \<Rightarrow> nat \<Rightarrow> float64" where
  "float_of_ratio neg num den =
     (if num = 0 then Finite 0 0
      else
        (let q = float_exp num den;
             m = int (round_even (num * 2 ^ nat (- q)) (den * 2 ^ nat q))
         in Finite (if neg then - m else m) q))"

definition float_of_text :: "string \<Rightarrow> float64" where
  "float_of_text r =
     (case num_parts r of (m, e) \<Rightarrow>
        float_of_ratio (take 1 r = ''-'') (m * 10 ^ nat e) (10 ^ nat (- e)))"

text \<open>The value of a key that appears again is replaced.\<close>

fun assoc_put :: "'k \<Rightarrow> 'v \<Rightarrow> ('k \<times> 'v) list \<Rightarrow> ('k \<times> 'v) list" where
  "assoc_put k v [] = [(k, v)]"
| "assoc_put k v ((k', v') # kvs) = (if k' = k then (k, v) # kvs else (k', v') # assoc_put k v kvs)"

text \<open>Decoding into an empty interface; a number out of range is reported and leaves nil.\<close>

fun decode_any :: "json \<Rightarrow> gvalue" where
  "decode_any JNull = VNil"
| "decode_any (JBool b) = VBool b"
| "decode_any (JNum r) = (if float_in_range r then VFloat64 (float_of_text r) else VNil)"
| "decode_any (JStr r) = VString (unquote r)"
| "decode_any (JArr vs) = VArray (map decode_any vs)"
| "decode_any (JObj ms) =
     VTable (fold (\<lambda>(k, v). assoc_put k v) (map (\<lambda>m. (unquote (fst m), decode_any (snd m))) ms) [])"

text \<open>
  \<open>json.Unmarshal\<close> into an empty \<open>map[string]any\<close>: whether it succeeds, and the map it leaves. A
  body that is not an object is an error that leaves the map empty; \<open>null\<close> makes it nil, which
  reads as empty.
\<close>

definition unmarshal_map :: "string \<Rightarrow> bool \<times> gvalue" where
  "unmarshal_map body =
     (case json_parse body of
        Some (JObj ms) \<Rightarrow> (nums_in_range (JObj ms), decode_any (JObj ms))
      | Some JNull \<Rightarrow> (True, VTable [])
      | _ \<Rightarrow> (False, VTable []))"

section \<open>The parser consumes its input\<close>

lemma length_skip_ws: "length (skip_ws s) \<le> length s"
  by (induction s) auto

lemma skip_ws_Cons_length: "skip_ws s = c # cs \<Longrightarrow> length cs < length s"
  using length_skip_ws [of s] by simp

lemma scan_string_length: "scan_string s = Some (r, rest) \<Longrightarrow> length rest < length s"
proof (induction s arbitrary: r rest rule: length_induct)
  case (1 s)
  then obtain c cs where s: "s = c # cs" by (cases s) auto
  have IH: "length rest' < length t" if "length t < Suc (length cs)" "scan_string t = Some (r', rest')"
    for t r' rest'
    using 1(1) that by (auto simp: s)
  show ?case
    using 1(2) unfolding s scan_string.simps(2) [of c cs]
    by (auto split: if_splits list.splits option.splits simp del: scan_string.simps dest!: IH [rotated])
qed

lemma scan_digits1_length: "scan_digits1 s = Some (r, rest) \<Longrightarrow> length rest < length s"
proof -
  assume "scan_digits1 s = Some (r, rest)"
  then have "takeWhile is_digit s \<noteq> []" "rest = dropWhile is_digit s"
    by (auto simp: scan_digits1_def split: if_splits)
  moreover have "length s = length (takeWhile is_digit s) + length (dropWhile is_digit s)"
    by (metis length_append takeWhile_dropWhile_id)
  ultimately show ?thesis by simp
qed

lemma scan_integer_length: "scan_integer s = Some (r, rest) \<Longrightarrow> length rest < length s"
  by (auto simp: scan_integer_def dest: scan_digits1_length split: list.splits if_splits)

lemma scan_frac_length: "scan_frac s = Some (r, rest) \<Longrightarrow> length rest \<le> length s"
  by (auto simp: scan_frac_def dest!: scan_digits1_length split: list.splits if_splits)

lemma scan_exp_length: "scan_exp s = Some (r, rest) \<Longrightarrow> length rest \<le> length s"
  by (auto simp: scan_exp_def dest!: scan_digits1_length split: list.splits if_splits)

lemma scan_unsigned_length: "scan_unsigned s = Some (r, rest) \<Longrightarrow> length rest < length s"
  by (auto simp: scan_unsigned_def split: option.splits
      dest!: scan_integer_length scan_frac_length scan_exp_length)

lemma scan_number_length: "scan_number s = Some (r, rest) \<Longrightarrow> length rest < length s"
  by (auto simp: scan_number_def dest!: scan_unsigned_length split: list.splits if_splits)

lemma strip_prefix_length:
  "strip_prefix p s = Some rest \<Longrightarrow> s \<noteq> [] \<Longrightarrow> p \<noteq> [] \<Longrightarrow> length rest < length s"
  by (auto simp: strip_prefix_def split: if_splits)

declare p_value.simps [simp del] p_elems.simps [simp del] p_members.simps [simp del]

lemmas consumed = skip_ws_Cons_length scan_string_length scan_number_length

lemma p_length:
  shows "p_value n d s = Some (v, rest) \<Longrightarrow> length rest < length s"
    and "p_elems n d s = Some (vs, rest) \<Longrightarrow> length rest < length s"
    and "p_members n d s = Some (ms, rest) \<Longrightarrow> length rest < length s"
proof (induction n d s and n d s and n d s arbitrary: v rest and vs rest and ms rest
    rule: p_value_p_elems_p_members.induct)
  case (2 n d s)
  show ?case
    using "2.prems" "2.IH" unfolding p_value.simps(2) [of n d s]
    by (auto split: list.splits if_splits dest!: consumed strip_prefix_length) fastforce+
next
  case (4 n d s)
  show ?case
    using "4.prems" "4.IH" unfolding p_elems.simps(2) [of n d s]
    by (auto split: list.splits if_splits option.splits dest!: skip_ws_Cons_length) fastforce+
next
  case (6 n d s)
  show ?case
    using "6.prems" "6.IH" unfolding p_members.simps(2) [of n d s]
    by (auto split: list.splits if_splits option.splits dest!: consumed) fastforce+
qed (simp_all add: p_value.simps p_elems.simps p_members.simps)

section \<open>Fuel\<close>

text \<open>Enough fuel is enough: above twice the length every amount gives the same answer.\<close>

lemma p_value_fuel_step:
  assumes "2 * length s < Suc n" "2 * length s < Suc m"
    and elems: "\<And>t. 2 * length t + 1 < n \<Longrightarrow> 2 * length t + 1 < m \<Longrightarrow> p_elems n (Suc d) t = p_elems m (Suc d) t"
    and members: "\<And>t. 2 * length t < n \<Longrightarrow> 2 * length t < m \<Longrightarrow> p_members n (Suc d) t = p_members m (Suc d) t"
  shows "p_value (Suc n) d s = p_value (Suc m) d s"
proof -
  have "p_elems n (Suc d) (e # es) = p_elems m (Suc d) (e # es) \<and>
    p_members n (Suc d) (e # es) = p_members m (Suc d) (e # es)"
    if "skip_ws s = c # cs" "skip_ws cs = e # es" for c cs e es
    using assms skip_ws_Cons_length [OF that(1)] skip_ws_Cons_length [OF that(2)] by simp
  then show ?thesis by (simp add: p_value.simps split: list.split)
qed

lemma p_elems_fuel_step:
  assumes "2 * length s + 1 < Suc n" "2 * length s + 1 < Suc m"
    and "\<And>t. 2 * length t < n \<Longrightarrow> 2 * length t < m \<Longrightarrow> p_value n d t = p_value m d t"
    and "\<And>t. 2 * length t + 1 < n \<Longrightarrow> 2 * length t + 1 < m \<Longrightarrow> p_elems n d t = p_elems m d t"
  shows "p_elems (Suc n) d s = p_elems (Suc m) d s"
proof -
  have v: "p_value n d s = p_value m d s" using assms by simp
  have "p_elems n d cs = p_elems m d cs"
    if "p_value m d s = Some (v, s1)" "skip_ws s1 = c # cs" for v s1 c cs
    using assms p_length(1) [OF that(1)] skip_ws_Cons_length [OF that(2)] by simp
  then show ?thesis by (simp add: p_elems.simps v split: list.split option.split)
qed

lemma p_members_fuel_step:
  assumes "2 * length s < Suc n" "2 * length s < Suc m"
    and "\<And>t. 2 * length t < n \<Longrightarrow> 2 * length t < m \<Longrightarrow> p_value n d t = p_value m d t"
    and "\<And>t. 2 * length t < n \<Longrightarrow> 2 * length t < m \<Longrightarrow> p_members n d t = p_members m d t"
  shows "p_members (Suc n) d s = p_members (Suc m) d s"
proof -
  have v: "p_value n d cs = p_value m d cs"
    if "skip_ws s = q # qs" "scan_string qs = Some (k, s1)" "skip_ws s1 = c # cs" for q qs k s1 c cs
    using assms skip_ws_Cons_length [OF that(1)] scan_string_length [OF that(2)]
      skip_ws_Cons_length [OF that(3)] by simp
  have "p_members n d es = p_members m d es"
    if "skip_ws s = q # qs" "scan_string qs = Some (k, s1)" "skip_ws s1 = c # cs"
      "p_value m d cs = Some (v, s2)" "skip_ws s2 = e # es" for q qs k s1 c cs v s2 e es
    using assms skip_ws_Cons_length [OF that(1)] scan_string_length [OF that(2)]
      skip_ws_Cons_length [OF that(3)] p_length(1) [OF that(4)] skip_ws_Cons_length [OF that(5)] by simp
  with v show ?thesis
    by (simp add: p_members.simps split: list.split option.split)
qed

lemma p_fuel:
  "(2 * length s < n \<longrightarrow> 2 * length s < m \<longrightarrow> p_value n d s = p_value m d s) \<and>
   (2 * length s + 1 < n \<longrightarrow> 2 * length s + 1 < m \<longrightarrow> p_elems n d s = p_elems m d s) \<and>
   (2 * length s < n \<longrightarrow> 2 * length s < m \<longrightarrow> p_members n d s = p_members m d s)"
proof (induction n arbitrary: m d s)
  case 0
  then show ?case by simp
next
  case (Suc n)
  show ?case
  proof (cases m)
    case 0
    then show ?thesis by simp
  next
    case m: (Suc k)
    show ?thesis
      unfolding m using Suc.IH
      by (blast intro: p_value_fuel_step p_elems_fuel_step p_members_fuel_step)
  qed
qed

lemma json_parse_fuel: "2 * length s < fuel \<Longrightarrow> json_parse_with fuel s = json_parse s"
  using p_fuel [of s fuel "2 * length s + 2" 0] by (simp add: json_parse_with_def json_parse_def)

end
