(* ===== verification/Amqp.thy ===== *)
theory Amqp
  imports Errors Json
begin

text \<open>
  The boundary to \<open>amqp091-go\<close>, the clock and the UUID generator, none of which is code of
  the repository. A call of the AMQP library is a value; the environment \<open>env\<close> answers each
  call from the calls made so far and the call itself, so it can be any broker, any network
  and any timing, and the theorems hold for all of them. The world records the calls in
  order, the store of Go maps and the log. A header or argument map passed to the library is
  recorded as its contents at the time of the call, which is when the library reads it. The
  environment also gives what \<open>json.Marshal\<close> makes of a \<open>float64\<close>, a \<open>time.Time\<close> and values of
  types unknown to the sources, and the wording of a decoder's error.
\<close>

section \<open>Messages\<close>

type_synonym tag = "64 word"

record delivery =
  d_Headers :: mapref
  d_ContentType :: string
  d_DeliveryMode :: "8 word"
  d_Priority :: "8 word"
  d_CorrelationId :: string
  d_ReplyTo :: string
  d_Expiration :: string
  d_MessageId :: string
  d_Timestamp :: time
  d_Type :: string
  d_UserId :: string
  d_AppId :: string
  d_DeliveryTag :: tag
  d_Exchange :: string
  d_RoutingKey :: string
  d_Body :: string

record publishing =
  p_Headers :: mapref
  p_ContentType :: string
  p_DeliveryMode :: "8 word"
  p_Priority :: "8 word"
  p_CorrelationId :: string
  p_ReplyTo :: string
  p_Expiration :: string
  p_MessageId :: string
  p_Timestamp :: time
  p_Type :: string
  p_UserId :: string
  p_AppId :: string
  p_Body :: string

text \<open>The zero value of \<open>amqp.Publishing\<close>; a zero \<open>time.Time\<close> is written as reading 0.\<close>

definition zero_publishing :: publishing where
  "zero_publishing =
     \<lparr>p_Headers = None, p_ContentType = [], p_DeliveryMode = 0, p_Priority = 0, p_CorrelationId = [],
      p_ReplyTo = [], p_Expiration = [], p_MessageId = [], p_Timestamp = 0, p_Type = [],
      p_UserId = [], p_AppId = [], p_Body = []\<rparr>"

definition Persistent :: "8 word" where
  "Persistent = 2"

section \<open>Library calls and the world\<close>

datatype amqp_call =
    Dial string
  | OpenChannel nat
  | CloseChannel nat
  | CloseConnection nat
  | ConnIsClosed nat
  | Qos nat int int bool
  | Confirm nat bool
  | ExchangeDeclare nat string string bool bool bool bool "gtable option"
  | QueueDeclare nat string bool bool bool bool "gtable option"
  | QueueBind nat string string string bool "gtable option"
  | ConnNotifyClose nat
  | ChanNotifyClose nat
  | NotifyBlocked nat
  | NotifyPublish nat
  | PublishWithContext nat string string bool bool publishing "gtable option"
  | Consume nat string string bool bool bool bool "gtable option"
  | AckCall tag bool
  | NackCall tag bool bool

datatype reply = ROk | RErr goerror | RId nat | RQueue string int int | RBool bool

record env =
  clock :: "nat \<Rightarrow> time"
  uuid :: "nat \<Rightarrow> string"
  answer :: "amqp_call list \<Rightarrow> amqp_call \<Rightarrow> reply"
  marshal_leaf :: "gvalue \<Rightarrow> goerror + json"
  json_error :: "string \<Rightarrow> string"

datatype level = LInfo | LWarn | LError | LDebug

record log_entry =
  log_level :: level
  log_msg :: string
  log_fields :: "(string \<times> gvalue) list"

record world =
  w_calls :: "amqp_call list"
  w_heap :: heap
  w_logs :: "log_entry list"
  w_ticks :: nat
  w_uuids :: nat

definition empty_world :: world where
  "empty_world = \<lparr>w_calls = [], w_heap = empty_heap, w_logs = [], w_ticks = 0, w_uuids = 0\<rparr>"

definition call :: "env \<Rightarrow> amqp_call \<Rightarrow> world \<Rightarrow> reply \<times> world" where
  "call e c w = (answer e (w_calls w) c, w\<lparr>w_calls := w_calls w @ [c]\<rparr>)"

definition call_err :: "env \<Rightarrow> amqp_call \<Rightarrow> world \<Rightarrow> goerror option \<times> world" where
  "call_err e c w =
     (case call e c w of (r, w1) \<Rightarrow> ((case r of RErr x \<Rightarrow> Some x | _ \<Rightarrow> None), w1))"

definition time_Now :: "env \<Rightarrow> world \<Rightarrow> time \<times> world" where
  "time_Now e w = (clock e (w_ticks w), w\<lparr>w_ticks := Suc (w_ticks w)\<rparr>)"

definition uuid_New :: "env \<Rightarrow> world \<Rightarrow> string \<times> world" where
  "uuid_New e w = (uuid e (w_uuids w), w\<lparr>w_uuids := Suc (w_uuids w)\<rparr>)"

definition log :: "level \<Rightarrow> string \<Rightarrow> (string \<times> gvalue) list \<Rightarrow> world \<Rightarrow> world" where
  "log l m fs w = w\<lparr>w_logs := w_logs w @ [\<lparr>log_level = l, log_msg = m, log_fields = fs\<rparr>]\<rparr>"

lemma log_simps [simp]:
  "w_calls (log l m fs w) = w_calls w" "w_heap (log l m fs w) = w_heap w"
  "w_ticks (log l m fs w) = w_ticks w" "w_uuids (log l m fs w) = w_uuids w"
  "w_logs (log l m fs w) = w_logs w @ [\<lparr>log_level = l, log_msg = m, log_fields = fs\<rparr>]"
  by (simp_all add: log_def)

lemma call_err_snd [simp]: "snd (call_err e c w) = w\<lparr>w_calls := w_calls w @ [c]\<rparr>"
  by (simp add: call_err_def call_def)

lemma call_err_fst:
  "fst (call_err e c w) = (case answer e (w_calls w) c of RErr x \<Rightarrow> Some x | _ \<Rightarrow> None)"
  by (simp add: call_err_def call_def)

lemma call_err_eq:
  "call_err e c w =
     ((case answer e (w_calls w) c of RErr x \<Rightarrow> Some x | _ \<Rightarrow> None), w\<lparr>w_calls := w_calls w @ [c]\<rparr>)"
  by (simp add: call_err_def call_def)

end
