(* ===== verification/Client.thy ===== *)
theory Client
  imports Amqp Config
begin

text \<open>
  The client of \<open>internal/broker/client.go\<close>: connecting, declaring the topology with its dead
  letter queues, closing, and the accessors. Connections and channels are the identifiers the
  AMQP library hands out. \<open>connect\<close> and the functions below it run under the client's mutex,
  so each is one step; the goroutines it starts are modelled in the theory of the
  reconnection protocol.
\<close>

section \<open>State\<close>

record client =
  cl_config :: Config
  cl_conn :: "nat option"
  cl_channel :: "nat option"
  cl_closed :: bool

definition call_id :: "env \<Rightarrow> amqp_call \<Rightarrow> world \<Rightarrow> (goerror + nat) \<times> world" where
  "call_id e c w =
     (case call e c w of
        (r, w1) \<Rightarrow> ((case r of RErr x \<Rightarrow> Inl x | RId n \<Rightarrow> Inr n | _ \<Rightarrow> Inr 0), w1))"

section \<open>Topology\<close>

definition configQueueWithDLX :: "QueueConfig \<Rightarrow> DLQConfig \<Rightarrow> heap \<Rightarrow> QueueConfig \<times> heap" where
  "configQueueWithDLX queue dlqCfg h =
     WithDLX (ExchangeName dlqCfg) (GetDLXRoutingKey dlqCfg (q_Name queue)) queue h"

fun setupDLQQueues :: "env \<Rightarrow> nat \<Rightarrow> DLQConfig \<Rightarrow> QueueConfig list \<Rightarrow> world \<Rightarrow> goerror option \<times> world" where
  "setupDLQQueues e ch dlqCfg [] w = (None, w)"
| "setupDLQQueues e ch dlqCfg (q # qs) w =
     (let dlqName = GetDLQName dlqCfg (q_Name q);
          routingKey = GetDLXRoutingKey dlqCfg (q_Name q)
      in case call_err e (QueueDeclare ch dlqName (dlq_Durable dlqCfg) (dlq_AutoDelete dlqCfg)
                            False False None) w of
           (Some err, w1) \<Rightarrow> (Some (NewTopologyError ''declare_dlq'' dlqName (Some err)), w1)
         | (None, w1) \<Rightarrow>
             (case call_err e (QueueBind ch dlqName routingKey (ExchangeName dlqCfg) False None) w1 of
                (Some err, w2) \<Rightarrow> (Some (NewTopologyError ''bind_dlq'' dlqName (Some err)), w2)
              | (None, w2) \<Rightarrow>
                  setupDLQQueues e ch dlqCfg qs
                    (log LDebug ''Client: DLQ configured''
                      [(''queue'', VString (q_Name q)), (''dlq'', VString dlqName),
                       (''routing_key'', VString routingKey)] w2)))"

definition setupDLQ :: "env \<Rightarrow> nat \<Rightarrow> Config \<Rightarrow> world \<Rightarrow> goerror option \<times> world" where
  "setupDLQ e ch cfg w =
     (let dlqCfg = DLQConf cfg
      in case call_err e (ExchangeDeclare ch (ExchangeName dlqCfg) (ExchangeType dlqCfg)
                            (dlq_Durable dlqCfg) (dlq_AutoDelete dlqCfg) False False None) w of
           (Some err, w1) \<Rightarrow>
             (Some (NewTopologyError ''declare_dlx'' (ExchangeName dlqCfg) (Some err)), w1)
         | (None, w1) \<Rightarrow>
             setupDLQQueues e ch dlqCfg (Queues cfg)
               (log LDebug ''Client: DLX exchange declared''
                 [(''exchange'', VString (ExchangeName dlqCfg))] w1))"

fun declareExchanges :: "env \<Rightarrow> nat \<Rightarrow> ExchangeConfig list \<Rightarrow> world \<Rightarrow> goerror option \<times> world" where
  "declareExchanges e ch [] w = (None, w)"
| "declareExchanges e ch (ex # exs) w =
     (case call_err e (ExchangeDeclare ch (ex_Name ex) (ex_Type ex) (ex_Durable ex)
                         (ex_AutoDelete ex) (ex_Internal ex) False
                         (map_snapshot (w_heap w) (ex_Args ex))) w of
        (Some err, w1) \<Rightarrow> (Some (NewTopologyError ''declare_exchange'' (ex_Name ex) (Some err)), w1)
      | (None, w1) \<Rightarrow> declareExchanges e ch exs w1)"

fun bindQueueKeys :: "env \<Rightarrow> nat \<Rightarrow> QueueConfig \<Rightarrow> string list \<Rightarrow> world \<Rightarrow> goerror option \<times> world" where
  "bindQueueKeys e ch q [] w = (None, w)"
| "bindQueueKeys e ch q (rk # rks) w =
     (case call_err e (QueueBind ch (q_Name q) rk (q_Exchange q) False None) w of
        (Some err, w1) \<Rightarrow> (Some (NewTopologyError ''bind_queue'' (q_Name q) (Some err)), w1)
      | (None, w1) \<Rightarrow> bindQueueKeys e ch q rks w1)"

fun declareQueues :: "env \<Rightarrow> nat \<Rightarrow> Config \<Rightarrow> QueueConfig list \<Rightarrow> world \<Rightarrow> goerror option \<times> world" where
  "declareQueues e ch cfg [] w = (None, w)"
| "declareQueues e ch cfg (q # qs) w =
     (let (queueConfig, w0) =
            (if DLQEnabled cfg
             then (case configQueueWithDLX q (DLQConf cfg) (w_heap w) of (q', h') \<Rightarrow> (q', w\<lparr>w_heap := h'\<rparr>))
             else (q, w))
      in case call_err e (QueueDeclare ch (q_Name queueConfig) (q_Durable queueConfig)
                            (q_AutoDelete queueConfig) (q_Exclusive queueConfig) False
                            (map_snapshot (w_heap w0) (q_Args queueConfig))) w0 of
           (Some err, w1) \<Rightarrow>
             (Some (NewTopologyError ''declare_queue'' (q_Name queueConfig) (Some err)), w1)
         | (None, w1) \<Rightarrow>
             (case (if q_Exchange queueConfig \<noteq> []
                    then bindQueueKeys e ch queueConfig (q_RoutingKeys queueConfig) w1
                    else (None, w1)) of
                (Some err, w2) \<Rightarrow> (Some err, w2)
              | (None, w2) \<Rightarrow> declareQueues e ch cfg qs w2))"

definition setupTopology :: "env \<Rightarrow> nat \<Rightarrow> Config \<Rightarrow> world \<Rightarrow> goerror option \<times> world" where
  "setupTopology e ch cfg w =
     (case (if DLQEnabled cfg then setupDLQ e ch cfg w else (None, w)) of
        (Some err, w1) \<Rightarrow> (Some err, w1)
      | (None, w1) \<Rightarrow>
          (case declareExchanges e ch (Exchanges cfg) w1 of
             (Some err, w2) \<Rightarrow> (Some err, w2)
           | (None, w2) \<Rightarrow> declareQueues e ch cfg (Queues cfg) w2))"

section \<open>Connecting and closing\<close>

definition close_both :: "env \<Rightarrow> nat \<Rightarrow> nat \<Rightarrow> world \<Rightarrow> world" where
  "close_both e ch conn w = snd (call e (CloseConnection conn) (snd (call e (CloseChannel ch) w)))"

definition watch :: "env \<Rightarrow> nat \<Rightarrow> nat \<Rightarrow> world \<Rightarrow> world" where
  "watch e conn ch w =
     snd (call e (NotifyBlocked conn)
       (snd (call e (ChanNotifyClose ch) (snd (call e (ConnNotifyClose conn) w)))))"

definition enableConfirms :: "env \<Rightarrow> nat \<Rightarrow> Config \<Rightarrow> world \<Rightarrow> goerror option \<times> world" where
  "enableConfirms e ch cfg w =
     (if PublisherConfirms cfg
      then (case call_err e (Confirm ch False) w of
              (Some err, w1) \<Rightarrow>
                (Some (NewConnectionError ''enable publisher confirms'' (Some err)), w1)
            | (None, w1) \<Rightarrow> (None, log LDebug ''Publisher confirms enabled'' [] w1))
      else (None, w))"

definition connect :: "env \<Rightarrow> client \<Rightarrow> world \<Rightarrow> goerror option \<times> client \<times> world" where
  "connect e c w =
     (if cl_closed c then (Some ErrClientClosed, c, w)
      else case call_id e (Dial (URI (cl_config c))) w of
        (Inl err, w1) \<Rightarrow> (Some (NewConnectionError ''dial'' (Some err)), c, w1)
      | (Inr conn, w1) \<Rightarrow>
      (case call_id e (OpenChannel conn) w1 of
        (Inl err, w2) \<Rightarrow>
          (Some (NewConnectionError ''open channel'' (Some err)), c,
           snd (call e (CloseConnection conn) w2))
      | (Inr ch, w2) \<Rightarrow>
      (let c1 = c\<lparr>cl_conn := Some conn, cl_channel := Some ch\<rparr>
       in case call_err e (Qos ch (PrefetchCount (cl_config c)) 0 False) w2 of
        (Some err, w3) \<Rightarrow>
          (Some (NewConnectionError ''set qos'' (Some err)), c1, close_both e ch conn w3)
      | (None, w3) \<Rightarrow>
      (case enableConfirms e ch (cl_config c) w3 of
        (Some err, w4) \<Rightarrow> (Some err, c1, close_both e ch conn w4)
      | (None, w4) \<Rightarrow>
      (case setupTopology e ch (cl_config c) w4 of
        (Some err, w5) \<Rightarrow> (Some err, c1, close_both e ch conn w5)
      | (None, w5) \<Rightarrow> (None, c1, watch e conn ch w5))))))"

text \<open>\<open>New\<close>: the first connection; on success the reconnection goroutine is started.\<close>

definition broker_New :: "env \<Rightarrow> Config \<Rightarrow> world \<Rightarrow> (goerror + client) \<times> world" where
  "broker_New e cfg w =
     (case connect e \<lparr>cl_config = cfg, cl_conn = None, cl_channel = None, cl_closed = False\<rparr> w of
        (Some err, c, w1) \<Rightarrow> (Inl err, w1)
      | (None, c, w1) \<Rightarrow> (Inr c, w1))"

definition GetChannel :: "client \<Rightarrow> goerror + nat" where
  "GetChannel c =
     (if cl_closed c then Inl ErrClientClosed
      else (case cl_channel c of None \<Rightarrow> Inl ErrNoChannel | Some ch \<Rightarrow> Inr ch))"

definition client_Close :: "env \<Rightarrow> client \<Rightarrow> world \<Rightarrow> goerror option \<times> client \<times> world" where
  "client_Close e c w =
     (if cl_closed c then (None, c, w)
      else
        (let c1 = c\<lparr>cl_closed := True\<rparr>;
             w1 = (case cl_channel c of None \<Rightarrow> w | Some ch \<Rightarrow> snd (call e (CloseChannel ch) w));
             w2 = (case cl_conn c of None \<Rightarrow> w1 | Some conn \<Rightarrow> snd (call e (CloseConnection conn) w1))
         in (None, c1, w2)))"

definition client_IsConnected :: "env \<Rightarrow> client \<Rightarrow> world \<Rightarrow> bool \<times> world" where
  "client_IsConnected e c w =
     (case cl_conn c of
        None \<Rightarrow> (False, w)
      | Some conn \<Rightarrow>
          (case call e (ConnIsClosed conn) w of (r, w1) \<Rightarrow> (r \<noteq> RBool True, w1)))"

section \<open>The declaration plan\<close>

text \<open>
  What the topology setup is meant to do, as a list: the calls in order, each with the error
  it is reported as. Running a plan stops at the first call that fails.
\<close>

type_synonym plan = "(amqp_call \<times> (goerror \<Rightarrow> goerror)) list"

fun run_plan :: "env \<Rightarrow> plan \<Rightarrow> amqp_call list \<Rightarrow> goerror option \<times> amqp_call list" where
  "run_plan e [] cs = (None, cs)"
| "run_plan e ((c, f) # ps) cs =
     (case answer e cs c of RErr x \<Rightarrow> (Some (f x), cs @ [c]) | _ \<Rightarrow> run_plan e ps (cs @ [c]))"

definition plan_exchange :: "heap \<Rightarrow> nat \<Rightarrow> ExchangeConfig \<Rightarrow> plan" where
  "plan_exchange h ch ex =
     [(ExchangeDeclare ch (ex_Name ex) (ex_Type ex) (ex_Durable ex) (ex_AutoDelete ex)
         (ex_Internal ex) False (map_snapshot h (ex_Args ex)),
       \<lambda>x. TopologyError ''declare_exchange'' (ex_Name ex) (Some x))]"

definition plan_dlq_queue :: "nat \<Rightarrow> DLQConfig \<Rightarrow> QueueConfig \<Rightarrow> plan" where
  "plan_dlq_queue ch d q =
     [(QueueDeclare ch (GetDLQName d (q_Name q)) (dlq_Durable d) (dlq_AutoDelete d) False False None,
       \<lambda>x. TopologyError ''declare_dlq'' (GetDLQName d (q_Name q)) (Some x)),
      (QueueBind ch (GetDLQName d (q_Name q)) (q_Name q) (ExchangeName d) False None,
       \<lambda>x. TopologyError ''bind_dlq'' (GetDLQName d (q_Name q)) (Some x))]"

definition plan_dlq :: "nat \<Rightarrow> Config \<Rightarrow> plan" where
  "plan_dlq ch cfg =
     (let d = DLQConf cfg
      in (ExchangeDeclare ch (ExchangeName d) (ExchangeType d) (dlq_Durable d) (dlq_AutoDelete d)
            False False None, \<lambda>x. TopologyError ''declare_dlx'' (ExchangeName d) (Some x))
         # concat (map (plan_dlq_queue ch d) (Queues cfg)))"

definition queue_args :: "Config \<Rightarrow> heap \<Rightarrow> QueueConfig \<Rightarrow> gtable option" where
  "queue_args cfg h q =
     (if DLQEnabled cfg
      then Some (dlx_args (ExchangeName (DLQConf cfg)) (q_Name q) (map_get h (q_Args q)))
      else map_snapshot h (q_Args q))"

definition plan_queue :: "Config \<Rightarrow> heap \<Rightarrow> nat \<Rightarrow> QueueConfig \<Rightarrow> plan" where
  "plan_queue cfg h ch q =
     (QueueDeclare ch (q_Name q) (q_Durable q) (q_AutoDelete q) (q_Exclusive q) False
        (queue_args cfg h q), \<lambda>x. TopologyError ''declare_queue'' (q_Name q) (Some x))
     # (if q_Exchange q = [] then []
        else map (\<lambda>rk. (QueueBind ch (q_Name q) rk (q_Exchange q) False None,
                        \<lambda>x. TopologyError ''bind_queue'' (q_Name q) (Some x))) (q_RoutingKeys q))"

definition topology_plan :: "Config \<Rightarrow> heap \<Rightarrow> nat \<Rightarrow> plan" where
  "topology_plan cfg h ch =
     (if DLQEnabled cfg then plan_dlq ch cfg else []) @ concat (map (plan_exchange h ch) (Exchanges cfg))
     @ concat (map (plan_queue cfg h ch) (Queues cfg))"

lemma run_plan_append:
  "run_plan e (ps @ qs) cs =
     (case run_plan e ps cs of (Some x, cs') \<Rightarrow> (Some x, cs') | (None, cs') \<Rightarrow> run_plan e qs cs')"
  by (induction ps arbitrary: cs) (auto split: reply.splits)

text \<open>The outcome of an operation as far as the broker sees it: its error and the calls made.\<close>

definition outcome :: "goerror option \<times> world \<Rightarrow> goerror option \<times> amqp_call list" where
  "outcome r = (fst r, w_calls (snd r))"

lemma outcome_simps [simp]: "outcome (x, w) = (x, w_calls w)"
  by (simp add: outcome_def)

section \<open>The setup follows the plan\<close>

lemma setupDLQQueues_plan:
  "outcome (setupDLQQueues e ch d qs w) =
     run_plan e (concat (map (plan_dlq_queue ch d) qs)) (w_calls w) \<and>
   w_heap (snd (setupDLQQueues e ch d qs w)) = w_heap w"
  by (induction qs arbitrary: w)
    (auto simp: call_err_eq plan_dlq_queue_def GetDLXRoutingKey_def Let_def split: reply.splits)

lemma setupDLQ_plan:
  "outcome (setupDLQ e ch cfg w) = run_plan e (plan_dlq ch cfg) (w_calls w)"
  "w_heap (snd (setupDLQ e ch cfg w)) = w_heap w"
  by (simp_all add: setupDLQ_def plan_dlq_def call_err_eq setupDLQQueues_plan Let_def split: reply.splits)

lemma declareExchanges_plan:
  "outcome (declareExchanges e ch exs w) =
     run_plan e (concat (map (plan_exchange (w_heap w) ch) exs)) (w_calls w) \<and>
   w_heap (snd (declareExchanges e ch exs w)) = w_heap w"
proof (induction exs arbitrary: w)
  case Nil
  then show ?case by simp
next
  case (Cons ex exs)
  show ?case
    using Cons.IH [of "w\<lparr>w_calls := w_calls w @ [fst (hd (plan_exchange (w_heap w) ch ex))]\<rparr>"]
    by (simp add: call_err_eq plan_exchange_def split: reply.splits)
qed

lemma bindQueueKeys_plan:
  "outcome (bindQueueKeys e ch q rks w) =
     run_plan e (map (\<lambda>rk. (QueueBind ch (q_Name q) rk (q_Exchange q) False None,
       \<lambda>x. TopologyError ''bind_queue'' (q_Name q) (Some x))) rks) (w_calls w) \<and>
   w_heap (snd (bindQueueKeys e ch q rks w)) = w_heap w"
  by (induction rks arbitrary: w) (auto simp: call_err_eq split: reply.splits)

text \<open>Preparing one queue: the struct handed to the broker and the store afterwards.\<close>

definition prepare_queue :: "Config \<Rightarrow> QueueConfig \<Rightarrow> heap \<Rightarrow> QueueConfig \<times> heap" where
  "prepare_queue cfg q h = (if DLQEnabled cfg then configQueueWithDLX q (DLQConf cfg) h else (q, h))"

lemma prepare_queue_args:
  "map_snapshot (snd (prepare_queue cfg q h)) (q_Args (fst (prepare_queue cfg q h))) = queue_args cfg h q"
proof (cases "DLQEnabled cfg")
  case True
  let ?x = "ExchangeName (DLQConf cfg)"
  obtain a where "q_Args (fst (WithDLX ?x (q_Name q) q h)) = Some a"
    using WithDLX_args [of ?x "q_Name q" q h] by blast
  then show ?thesis
    using True WithDLX_result [of ?x "q_Name q" q h]
    by (simp add: prepare_queue_def queue_args_def configQueueWithDLX_def GetDLXRoutingKey_def)
next
  case False
  then show ?thesis by (simp add: prepare_queue_def queue_args_def)
qed

lemma prepare_queue_fields:
  "q_Name (fst (prepare_queue cfg q h)) = q_Name q" "q_Durable (fst (prepare_queue cfg q h)) = q_Durable q"
  "q_AutoDelete (fst (prepare_queue cfg q h)) = q_AutoDelete q"
  "q_Exclusive (fst (prepare_queue cfg q h)) = q_Exclusive q"
  "q_Exchange (fst (prepare_queue cfg q h)) = q_Exchange q"
  "q_RoutingKeys (fst (prepare_queue cfg q h)) = q_RoutingKeys q"
  using WithDLX_args [of "ExchangeName (DLQConf cfg)" "q_Name q" q h]
  by (auto simp: prepare_queue_def configQueueWithDLX_def GetDLXRoutingKey_def)

lemma prepare_queue_next: "hp_next h \<le> hp_next (snd (prepare_queue cfg q h))"
  by (simp add: prepare_queue_def configQueueWithDLX_def WithDLX_next)

lemma prepare_queue_other:
  "ref_ok h r \<Longrightarrow> r = None \<or> r \<noteq> q_Args q \<Longrightarrow> map_get (snd (prepare_queue cfg q h)) r = map_get h r"
  by (auto simp: prepare_queue_def configQueueWithDLX_def WithDLX_other)

lemma map_snapshot_cong: "map_get h' r = map_get h r \<Longrightarrow> map_snapshot h' r = map_snapshot h r"
  by (cases r) simp_all

lemma plan_queue_cong:
  "map_get h' (q_Args q) = map_get h (q_Args q) \<Longrightarrow> plan_queue cfg h' ch q = plan_queue cfg h ch q"
  using map_snapshot_cong [of h' "q_Args q" h] by (simp add: plan_queue_def queue_args_def)

lemma w_heap_upd: "w_heap (w\<lparr>w_heap := h\<rparr>) = h"
  by simp

text \<open>One queue of the loop: preparing, declaring and binding it.\<close>

lemma declareQueues_Cons:
  "declareQueues e ch cfg (q # qs) w =
     (let q' = fst (prepare_queue cfg q (w_heap w));
          w0 = w\<lparr>w_heap := snd (prepare_queue cfg q (w_heap w))\<rparr>;
          c = QueueDeclare ch (q_Name q) (q_Durable q) (q_AutoDelete q) (q_Exclusive q) False
                (queue_args cfg (w_heap w) q)
      in case call_err e c w0 of
           (Some err, w1) \<Rightarrow> (Some (TopologyError ''declare_queue'' (q_Name q) (Some err)), w1)
         | (None, w1) \<Rightarrow>
             (case (if q_Exchange q \<noteq> [] then bindQueueKeys e ch q' (q_RoutingKeys q) w1 else (None, w1)) of
                (Some err, w2) \<Rightarrow> (Some err, w2)
              | (None, w2) \<Rightarrow> declareQueues e ch cfg qs w2))"
proof -
  have "(if DLQEnabled cfg
      then (case configQueueWithDLX q (DLQConf cfg) (w_heap w) of (q', h') \<Rightarrow> (q', w\<lparr>w_heap := h'\<rparr>))
      else (q, w)) =
    (fst (prepare_queue cfg q (w_heap w)), w\<lparr>w_heap := snd (prepare_queue cfg q (w_heap w))\<rparr>)"
    by (simp add: prepare_queue_def split: prod.splits)
  then show ?thesis
    by (simp only: declareQueues.simps Let_def prod.case prepare_queue_fields prepare_queue_args
        new_error_defs w_heap_upd)
qed

definition args_separate :: "heap \<Rightarrow> QueueConfig list \<Rightarrow> bool" where
  "args_separate h qs \<longleftrightarrow> (\<forall>q \<in> set qs. ref_ok h (q_Args q)) \<and>
     distinct (filter (\<lambda>r. r \<noteq> None) (map q_Args qs))"

lemma args_separate_step:
  assumes "args_separate h (q # qs)"
  shows "args_separate (snd (prepare_queue cfg q h)) qs"
    and "\<And>q'. q' \<in> set qs \<Longrightarrow>
      map_get (snd (prepare_queue cfg q h)) (q_Args q') = map_get h (q_Args q')"
proof -
  show "args_separate (snd (prepare_queue cfg q h)) qs"
    using assms prepare_queue_next [of h cfg q]
    by (auto simp: args_separate_def ref_ok_def split: option.splits if_splits)
  fix q' assume "q' \<in> set qs"
  with assms have "ref_ok h (q_Args q')" "q_Args q' = None \<or> q_Args q' \<noteq> q_Args q"
    by (auto simp: args_separate_def split: if_splits) force
  then show "map_get (snd (prepare_queue cfg q h)) (q_Args q') = map_get h (q_Args q')"
    by (rule prepare_queue_other)
qed

lemma declareQueues_plan:
  assumes "args_separate (w_heap w) qs"
  shows "outcome (declareQueues e ch cfg qs w) =
    run_plan e (concat (map (plan_queue cfg (w_heap w) ch) qs)) (w_calls w)"
  using assms
proof (induction qs arbitrary: w)
  case Nil
  then show ?case by simp
next
  case (Cons q qs)
  let ?h = "snd (prepare_queue cfg q (w_heap w))"
  have plan: "concat (map (plan_queue cfg ?h ch) qs) = concat (map (plan_queue cfg (w_heap w) ch) qs)"
    using args_separate_step(2) [OF Cons.prems, of _ cfg]
    by (intro arg_cong [where f = concat] map_cong refl plan_queue_cong)
  have IH: "outcome (declareQueues e ch cfg qs w') =
      run_plan e (concat (map (plan_queue cfg (w_heap w) ch) qs)) (w_calls w')"
    if "w_heap w' = ?h" for w'
    using Cons.IH [of w'] args_separate_step(1) [OF Cons.prems, of cfg] plan that by simp
  let ?c = "QueueDeclare ch (q_Name q) (q_Durable q) (q_AutoDelete q) (q_Exclusive q) False
    (queue_args cfg (w_heap w) q)"
  let ?w1 = "w\<lparr>w_heap := ?h, w_calls := w_calls w @ [?c]\<rparr>"
  obtain x w2 where b: "bindQueueKeys e ch (fst (prepare_queue cfg q (w_heap w))) (q_RoutingKeys q) ?w1 = (x, w2)"
    by fastforce
  have plan_b: "run_plan e (map (\<lambda>rk. (QueueBind ch (q_Name q) rk (q_Exchange q) False None,
       \<lambda>x. TopologyError ''bind_queue'' (q_Name q) (Some x))) (q_RoutingKeys q)) (w_calls w @ [?c]) =
      (x, w_calls w2)" "w_heap w2 = ?h"
    using bindQueueKeys_plan [of e ch "fst (prepare_queue cfg q (w_heap w))" "q_RoutingKeys q" ?w1,
        unfolded prepare_queue_fields b] by simp_all
  show ?case
  proof (cases "\<exists>y. answer e (w_calls w) ?c = RErr y")
    case True
    then show ?thesis
      unfolding declareQueues_Cons by (auto simp: call_err_eq plan_queue_def Let_def)
  next
    case False
    then have ans: "(case answer e (w_calls w) ?c of RErr y \<Rightarrow> f y | _ \<Rightarrow> g) = g" for f :: "goerror \<Rightarrow> 'z" and g
      by (cases "answer e (w_calls w) ?c") auto
    show ?thesis
      unfolding declareQueues_Cons
      using b plan_b IH [of ?w1] IH [of w2]
      by (cases x)
        (auto simp: call_err_eq plan_queue_def [of cfg "w_heap w" ch q] run_plan_append Let_def ans)
  qed
qed

lemma setupTopology_plan:
  assumes "args_separate (w_heap w) (Queues cfg)"
  shows "outcome (setupTopology e ch cfg w) = run_plan e (topology_plan cfg (w_heap w) ch) (w_calls w)"
proof -
  define r1 where "r1 = (if DLQEnabled cfg then setupDLQ e ch cfg w else (None, w))"
  obtain x1 w1 where r1: "r1 = (x1, w1)" by fastforce
  have p1: "run_plan e (if DLQEnabled cfg then plan_dlq ch cfg else []) (w_calls w) = (x1, w_calls w1)"
    and h1: "w_heap w1 = w_heap w"
    using setupDLQ_plan [of e ch cfg w] r1 by (auto simp: r1_def outcome_def split: if_splits)
  obtain x2 w2 where r2: "declareExchanges e ch (Exchanges cfg) w1 = (x2, w2)" by fastforce
  have p2: "run_plan e (concat (map (plan_exchange (w_heap w) ch) (Exchanges cfg))) (w_calls w1) =
      (x2, w_calls w2)" and h2: "w_heap w2 = w_heap w"
    using declareExchanges_plan [of e ch "Exchanges cfg" w1] r2 h1 by auto
  show ?thesis
    using declareQueues_plan [of w2 "Queues cfg" e ch cfg] assms r1 r2 p1 p2 h2
    by (cases x1; cases x2)
      (simp_all add: setupTopology_def topology_plan_def run_plan_append r1_def [symmetric]
        del: concat_append map_append)
qed

lemma run_plan_None: "run_plan e ps cs = (None, cs') \<Longrightarrow> cs' = cs @ map fst ps"
proof (induction ps arbitrary: cs)
  case Nil
  then show ?case by simp
next
  case (Cons p ps)
  obtain c f where p: "p = (c, f)" by fastforce
  with Cons.prems have "run_plan e ps (cs @ [c]) = (None, cs')"
    by (cases "answer e cs c") auto
  with Cons.IH p show ?case by fastforce
qed

lemma run_plan_prefix: "\<exists>n. snd (run_plan e ps cs) = cs @ take n (map fst ps)"
proof (induction e ps cs rule: run_plan.induct)
  case (1 e cs)
  then show ?case by simp
next
  case (2 e c f ps cs)
  show ?case
  proof (cases "\<exists>x. answer e cs c = RErr x")
    case True
    then show ?thesis by (intro exI [of _ 1]) auto
  next
    case False
    then have "run_plan e ((c, f) # ps) cs = run_plan e ps (cs @ [c])"
      by (cases "answer e cs c") auto
    moreover obtain n where "snd (run_plan e ps (cs @ [c])) = (cs @ [c]) @ take n (map fst ps)"
      using 2 False by (cases "answer e cs c") auto
    ultimately show ?thesis by (intro exI [of _ "Suc n"]) simp
  qed
qed

section \<open>Outcomes of connect\<close>

text \<open>The calls that come before the topology once the channel is open.\<close>

definition channel_setup :: "client \<Rightarrow> nat \<Rightarrow> amqp_call list" where
  "channel_setup c ch =
     Qos ch (PrefetchCount (cl_config c)) 0 False
     # (if PublisherConfirms (cl_config c) then [Confirm ch False] else [])"

definition watch_calls :: "nat \<Rightarrow> nat \<Rightarrow> amqp_call list" where
  "watch_calls conn ch = [ConnNotifyClose conn, ChanNotifyClose ch, NotifyBlocked conn]"

lemma close_both_calls [simp]:
  "w_calls (close_both e ch conn w) = w_calls w @ [CloseChannel ch, CloseConnection conn]"
  by (simp add: close_both_def call_def)

lemma watch_calls_eq [simp]: "w_calls (watch e conn ch w) = w_calls w @ watch_calls conn ch"
  by (simp add: watch_def watch_calls_def call_def)

lemma call_id_calls: "call_id e c w = (r, w1) \<Longrightarrow> w1 = w\<lparr>w_calls := w_calls w @ [c]\<rparr>"
  by (auto simp: call_id_def call_def)

lemma call_err_calls: "call_err e c w = (r, w1) \<Longrightarrow> w1 = w\<lparr>w_calls := w_calls w @ [c]\<rparr>"
  by (auto simp: call_err_eq)

lemma connect_ok_calls:
  assumes "connect e c w = (None, c', w')" "args_separate (w_heap w) (Queues (cl_config c))"
  shows "\<exists>conn ch. c' = c\<lparr>cl_conn := Some conn, cl_channel := Some ch\<rparr> \<and>
    w_calls w' = w_calls w @ [Dial (URI (cl_config c)), OpenChannel conn] @ channel_setup c ch
      @ map fst (topology_plan (cl_config c) (w_heap w) ch) @ watch_calls conn ch"
proof -
  from assms(1) obtain conn w1 ch w2 where
    steps: "call_id e (Dial (URI (cl_config c))) w = (Inr conn, w1)"
    "call_id e (OpenChannel conn) w1 = (Inr ch, w2)"
    by (auto simp: connect_def split: if_splits sum.splits prod.splits)
  obtain x3 w3 where q: "call_err e (Qos ch (PrefetchCount (cl_config c)) 0 False) w2 = (x3, w3)"
    by fastforce
  obtain x4 w4 where r4: "enableConfirms e ch (cl_config c) w3 = (x4, w4)" by fastforce
  obtain x5 w5 where r5: "setupTopology e ch (cl_config c) w4 = (x5, w5)" by fastforce
  have ok: "x3 = None" "x4 = None" "x5 = None"
    and res: "c' = c\<lparr>cl_conn := Some conn, cl_channel := Some ch\<rparr>" "w' = watch e conn ch w5"
    using assms(1) steps q r4 r5
    by (auto simp: connect_def Let_def split: if_splits option.splits)
  have w3: "w3 = w\<lparr>w_calls := w_calls w @ [Dial (URI (cl_config c)), OpenChannel conn,
      Qos ch (PrefetchCount (cl_config c)) 0 False]\<rparr>"
    using call_id_calls [OF steps(1)] call_id_calls [OF steps(2)] call_err_calls [OF q] by simp
  then have w4: "w_calls w4 = w_calls w @ [Dial (URI (cl_config c)), OpenChannel conn] @ channel_setup c ch"
    "w_heap w4 = w_heap w"
    using r4 ok(2) by (auto simp: enableConfirms_def channel_setup_def call_err_eq split: if_splits reply.splits)
  then have "run_plan e (topology_plan (cl_config c) (w_heap w) ch) (w_calls w4) = (None, w_calls w5)"
    using setupTopology_plan [of w4 "cl_config c" e ch] assms(2) r5 ok(3) by simp
  then have "w_calls w5 = w_calls w4 @ map fst (topology_plan (cl_config c) (w_heap w) ch)"
    by (rule run_plan_None)
  with w4 res show ?thesis by auto
qed

text \<open>Calls among which no channel and no connection is closed, and worlds that only made such calls since.\<close>

definition no_close :: "amqp_call list \<Rightarrow> bool" where
  "no_close cs \<longleftrightarrow> (\<forall>n. CloseConnection n \<notin> set cs \<and> CloseChannel n \<notin> set cs)"

definition keeps_open :: "world \<Rightarrow> world \<Rightarrow> bool" where
  "keeps_open w w' \<longleftrightarrow> (\<exists>cs. w_calls w' = w_calls w @ cs \<and> no_close cs)"

lemma keeps_open_refl [intro, simp]: "w_calls w' = w_calls w \<Longrightarrow> keeps_open w w'"
  by (simp add: keeps_open_def no_close_def)

lemma keeps_open_log [simp]: "keeps_open (log l m fs w) w' \<longleftrightarrow> keeps_open w w'"
  by (simp add: keeps_open_def)

lemma keeps_open_call [intro]: "no_close [c] \<Longrightarrow> w_calls w' = w_calls w @ [c] \<Longrightarrow> keeps_open w w'"
  by (auto simp: keeps_open_def)

lemma keeps_open_trans: "keeps_open w w1 \<Longrightarrow> keeps_open w1 w2 \<Longrightarrow> keeps_open w w2"
  by (auto simp: keeps_open_def no_close_def)

lemma call_err_keeps_open: "call_err e c w = (r, w1) \<Longrightarrow> no_close [c] \<Longrightarrow> keeps_open w w1"
  using call_err_calls [of e c w r w1] by (auto intro: keeps_open_call)

lemma keeps_open_step:
  assumes "call_err e c w = (r, w1)" "no_close [c]"
    "\<And>err. r = Some err \<Longrightarrow> w' = w1" "r = None \<Longrightarrow> keeps_open w1 w'"
  shows "keeps_open w w'"
  using assms call_err_keeps_open [OF assms(1,2)] by (cases r) (auto intro: keeps_open_trans)

lemma setupDLQQueues_keeps_open: "keeps_open w (snd (setupDLQQueues e ch d qs w))"
proof (induction qs arbitrary: w)
  case (Cons q qs)
  obtain r1 w1 where 1: "call_err e (QueueDeclare ch (GetDLQName d (q_Name q)) (dlq_Durable d) (dlq_AutoDelete d)
      False False None) w = (r1, w1)" by fastforce
  obtain r2 w2 where 2: "call_err e (QueueBind ch (GetDLQName d (q_Name q)) (GetDLXRoutingKey d (q_Name q))
      (ExchangeName d) False None) w1 = (r2, w2)" by fastforce
  have "keeps_open w1 w2" using 2 by (rule call_err_keeps_open) (simp add: no_close_def)
  then have "keeps_open w1 (snd (setupDLQQueues e ch d qs (log l m fs w2)))" for l m fs
    using Cons.IH [of "log l m fs w2"] by (auto intro: keeps_open_trans [of w1 w2])
  with 2 \<open>keeps_open w1 w2\<close> show ?case
    by (intro keeps_open_step [OF 1]) (auto simp: no_close_def 1 Let_def split: option.splits)
qed simp

lemma setupDLQ_keeps_open: "keeps_open w (snd (setupDLQ e ch cfg w))"
proof -
  let ?d = "DLQConf cfg"
  obtain r1 w1 where 1: "call_err e (ExchangeDeclare ch (ExchangeName ?d) (ExchangeType ?d) (dlq_Durable ?d)
      (dlq_AutoDelete ?d) False False None) w = (r1, w1)" by fastforce
  have "keeps_open w1 (snd (setupDLQQueues e ch ?d (Queues cfg) (log l m fs w1)))" for l m fs
    using setupDLQQueues_keeps_open [of "log l m fs w1"] by simp
  then show ?thesis
    by (intro keeps_open_step [OF 1]) (auto simp: no_close_def setupDLQ_def 1 Let_def)
qed

lemma declareExchanges_keeps_open: "keeps_open w (snd (declareExchanges e ch exs w))"
proof (induction exs arbitrary: w)
  case (Cons ex exs)
  obtain r1 w1 where 1: "call_err e (ExchangeDeclare ch (ex_Name ex) (ex_Type ex) (ex_Durable ex)
      (ex_AutoDelete ex) (ex_Internal ex) False (map_snapshot (w_heap w) (ex_Args ex))) w = (r1, w1)" by fastforce
  with Cons.IH [of w1] show ?case
    by (intro keeps_open_step [OF 1]) (auto simp: no_close_def)
qed simp

lemma bindQueueKeys_keeps_open: "keeps_open w (snd (bindQueueKeys e ch q rks w))"
proof (induction rks arbitrary: w)
  case (Cons rk rks)
  obtain r1 w1 where 1: "call_err e (QueueBind ch (q_Name q) rk (q_Exchange q) False None) w = (r1, w1)"
    by fastforce
  with Cons.IH [of w1] show ?case
    by (intro keeps_open_step [OF 1]) (auto simp: no_close_def)
qed simp

lemma declareQueues_keeps_open: "keeps_open w (snd (declareQueues e ch cfg qs w))"
proof (induction qs arbitrary: w)
  case (Cons q qs)
  define p where "p = (if DLQEnabled cfg
    then (case configQueueWithDLX q (DLQConf cfg) (w_heap w) of (q', h') \<Rightarrow> (q', w\<lparr>w_heap := h'\<rparr>)) else (q, w))"
  obtain q' w0 where p: "p = (q', w0)" by fastforce
  then have w0: "w_calls w0 = w_calls w" by (auto simp: p_def split: if_splits prod.splits)
  obtain r1 w1 where 1: "call_err e (QueueDeclare ch (q_Name q') (q_Durable q') (q_AutoDelete q') (q_Exclusive q')
      False (map_snapshot (w_heap w0) (q_Args q'))) w0 = (r1, w1)" by fastforce
  obtain r2 w2 where 2: "(if q_Exchange q' \<noteq> [] then bindQueueKeys e ch q' (q_RoutingKeys q') w1
      else (None, w1)) = (r2, w2)" by fastforce
  have b: "keeps_open w1 w2"
    using 2 bindQueueKeys_keeps_open [of w1 e ch q' "q_RoutingKeys q'"] by (auto split: if_splits)
  then have "keeps_open w1 (snd (declareQueues e ch cfg qs w2))"
    using Cons.IH [of w2] by (rule keeps_open_trans)
  with 2 b have "keeps_open w0 (snd (declareQueues e ch cfg (q # qs) w))"
    by (intro keeps_open_step [OF 1])
      (auto simp: no_close_def p_def [symmetric] p 1 Let_def simp del: if_not_P split: option.splits)
  with w0 show ?case by (auto simp: keeps_open_def)
qed simp

lemma setupTopology_keeps_open: "keeps_open w (snd (setupTopology e ch cfg w))"
proof -
  obtain r1 w1 where 1: "(if DLQEnabled cfg then setupDLQ e ch cfg w else (None, w)) = (r1, w1)" by fastforce
  then have k1: "keeps_open w w1"
    using setupDLQ_keeps_open [of w e ch cfg] by (auto split: if_splits)
  obtain r2 w2 where 2: "declareExchanges e ch (Exchanges cfg) w1 = (r2, w2)" by fastforce
  then have k2: "keeps_open w w2"
    using k1 declareExchanges_keeps_open [of w1 e ch "Exchanges cfg"] by (auto intro: keeps_open_trans)
  have "keeps_open w (snd (declareQueues e ch cfg (Queues cfg) w2))"
    using k2 declareQueues_keeps_open by (rule keeps_open_trans)
  with k1 k2 show ?thesis by (simp add: setupTopology_def 1 2 split: option.splits)
qed

lemma enableConfirms_keeps_open: "enableConfirms e ch cfg w = (r, w1) \<Longrightarrow> keeps_open w w1"
  by (auto simp: enableConfirms_def call_err_eq no_close_def split: if_splits reply.splits
      intro!: keeps_open_call [where c = "Confirm ch False"])

text \<open>The failures after the channel is open: the calls in between close nothing, then both are closed.\<close>

lemma connect_setup_error:
  assumes "connect e c w = (Some err, c', w')" "\<not> cl_closed c"
    and "call_id e (Dial (URI (cl_config c))) w = (Inr conn, w1)" "call_id e (OpenChannel conn) w1 = (Inr ch, w2)"
  shows "c' = c\<lparr>cl_conn := Some conn, cl_channel := Some ch\<rparr> \<and>
    (\<exists>w5. w' = close_both e ch conn w5 \<and> keeps_open w2 w5)"
proof -
  obtain x3 w3 where q: "call_err e (Qos ch (PrefetchCount (cl_config c)) 0 False) w2 = (x3, w3)"
    by fastforce
  have k3: "keeps_open w2 w3" using q by (rule call_err_keeps_open) (simp add: no_close_def)
  obtain x4 w4 where r4: "enableConfirms e ch (cl_config c) w3 = (x4, w4)" by fastforce
  have k4: "keeps_open w2 w4" using k3 enableConfirms_keeps_open [OF r4] by (rule keeps_open_trans)
  obtain x5 w5 where r5: "setupTopology e ch (cl_config c) w4 = (x5, w5)" by fastforce
  have k5: "keeps_open w2 w5"
    using k4 setupTopology_keeps_open [of w4 e ch "cl_config c"] r5 by (auto intro: keeps_open_trans)
  show ?thesis
    using assms q r4 r5 k3 k4 k5 by (cases x3; cases x4; cases x5) (auto simp: connect_def Let_def)
qed

lemma topology_plan_no_close:
  "CloseConnection n \<notin> fst ` set (topology_plan cfg h ch)" "CloseChannel n \<notin> fst ` set (topology_plan cfg h ch)"
  by (auto simp: topology_plan_def plan_dlq_def plan_dlq_queue_def plan_exchange_def plan_queue_def
      Let_def split: if_splits)

section \<open>Properties\<close>

definition plain_leaf :: "gvalue \<Rightarrow> goerror + json" where
  "plain_leaf v = Inl (ExternalError ''json: unsupported type'' [])"

definition plain_env :: env where
  "plain_env = \<lparr>clock = int, uuid = (\<lambda>n. ''uuid-'' @ show_nat n),
     answer = (\<lambda>cs c. case c of Dial u \<Rightarrow> RId 7 | OpenChannel n \<Rightarrow> RId 8 | _ \<Rightarrow> ROk),
     marshal_leaf = plain_leaf, json_error = (\<lambda>_. ''json'')\<rparr>"

definition no_qos_env :: env where
  "no_qos_env = \<lparr>clock = int, uuid = (\<lambda>n. ''uuid-'' @ show_nat n),
     answer = (\<lambda>cs c. case c of Dial u \<Rightarrow> RId 7 | OpenChannel n \<Rightarrow> RId 8
       | Qos ch n s g \<Rightarrow> RErr ErrNoConnection | _ \<Rightarrow> ROk),
     marshal_leaf = plain_leaf, json_error = (\<lambda>_. ''json'')\<rparr>"

definition shop_config :: Config where
  "shop_config = DefaultConfig\<lparr>URI := ''amqp://localhost'', DLQEnabled := True,
     Exchanges := [\<lparr>ex_Name = ''orders'', ex_Type = ''topic'', ex_Durable = True, ex_AutoDelete = False,
                    ex_Internal = False, ex_Args = None\<rparr>],
     Queues := [sample_queue ''orders.queue'' None]\<rparr>"

definition fresh_client :: "Config \<Rightarrow> client" where
  "fresh_client cfg = \<lparr>cl_config = cfg, cl_conn = None, cl_channel = None, cl_closed = False\<rparr>"

text \<open>
  C18. Topology setup carries out its plan. When no two queues share an argument map, the calls
  the broker sees and the error returned are those of running, until the first failure, the
  list: the dead-letter exchange, for each queue its dead-letter queue and binding, the
  exchanges, then each queue, declared with its dead-letter arguments, and its bindings.
\<close>

theorem topology_follows_plan:
  assumes "args_separate (w_heap w) (Queues cfg)"
  shows "outcome (setupTopology e ch cfg w) = run_plan e (topology_plan cfg (w_heap w) ch) (w_calls w)"
  using assms by (rule setupTopology_plan)

theorem topology_follows_plan_witness:
  "outcome (setupTopology plain_env 2 shop_config empty_world) =
     run_plan plain_env (topology_plan shop_config empty_heap 2) [] \<and>
   length (topology_plan shop_config empty_heap 2) = 6"
  using topology_follows_plan [of empty_world shop_config plain_env 2]
  by (simp add: args_separate_def shop_config_def sample_queue_def empty_world_def ref_ok_def
      topology_plan_def plan_dlq_def plan_dlq_queue_def plan_exchange_def plan_queue_def Let_def)

text \<open>
  \<open>configQueueWithDLX\<close> copies the struct but not its argument map. If two queues are
  configured with the same map and it has no dead-letter exchange yet, preparing the first
  writes to the caller's map, and the second is then declared with the first queue's routing
  key: its dead letters go to the first queue's dead-letter queue.
\<close>

theorem shared_args_take_first_routing_key:
  assumes "q_Args q1 = Some a" "q_Args q2 = Some a" "hp_map h a dlx_key = None"
  shows "hp_map (snd (configQueueWithDLX q1 d h)) a dlx_rk_key = Some (VString (q_Name q1)) \<and>
    map_get (snd (configQueueWithDLX q2 d (snd (configQueueWithDLX q1 d h))))
      (q_Args (fst (configQueueWithDLX q2 d (snd (configQueueWithDLX q1 d h))))) dlx_rk_key =
      Some (VString (q_Name q1))"
  using assms
  by (auto simp: configQueueWithDLX_def WithDLX_def GetDLXRoutingKey_def dlx_key_def dlx_rk_key_def)

theorem shared_args_take_first_routing_key_witness:
  "hp_map (snd (configQueueWithDLX (sample_queue ''b'' (Some 0)) DefaultDLQConfig
      (snd (configQueueWithDLX (sample_queue ''a'' (Some 0)) DefaultDLQConfig
        (snd (make_map Map.empty empty_heap)))))) 0 dlx_rk_key = Some (VString ''a'')"
  using shared_args_take_first_routing_key [of "sample_queue ''a'' (Some 0)" 0
      "sample_queue ''b'' (Some 0)" "snd (make_map Map.empty empty_heap)" DefaultDLQConfig]
  by (auto simp: sample_queue_def make_map_def empty_heap_def configQueueWithDLX_def WithDLX_def
      GetDLXRoutingKey_def dlx_key_def dlx_rk_key_def)

text \<open>
  C27. A successful \<open>connect\<close> leaves the client with the connection and channel it opened, having
  set the prefetch count, enabled confirms exactly if configured, declared the whole topology
  and registered the close and flow-control listeners, in that order. It closes nothing: the
  connection the client had before a reconnect stays open.
\<close>

theorem connect_success:
  assumes "connect e c w = (None, c', w')" "args_separate (w_heap w) (Queues (cl_config c))"
  shows "\<exists>conn ch new. c' = c\<lparr>cl_conn := Some conn, cl_channel := Some ch\<rparr> \<and>
    w_calls w' = w_calls w @ new \<and>
    new = [Dial (URI (cl_config c)), OpenChannel conn] @ channel_setup c ch
      @ map fst (topology_plan (cl_config c) (w_heap w) ch) @ watch_calls conn ch \<and>
    (\<forall>n. CloseConnection n \<notin> set new \<and> CloseChannel n \<notin> set new)"
proof -
  from connect_ok_calls [OF assms] obtain conn ch where
    *: "c' = c\<lparr>cl_conn := Some conn, cl_channel := Some ch\<rparr>"
    "w_calls w' = w_calls w @ [Dial (URI (cl_config c)), OpenChannel conn] @ channel_setup c ch
      @ map fst (topology_plan (cl_config c) (w_heap w) ch) @ watch_calls conn ch" by blast
  let ?new = "[Dial (URI (cl_config c)), OpenChannel conn] @ channel_setup c ch
      @ map fst (topology_plan (cl_config c) (w_heap w) ch) @ watch_calls conn ch"
  have "\<forall>n. CloseConnection n \<notin> set ?new \<and> CloseChannel n \<notin> set ?new"
    using topology_plan_no_close [of _ "cl_config c" "w_heap w" ch]
    by (auto simp: channel_setup_def watch_calls_def)
  with * show ?thesis by blast
qed

theorem connect_success_witness:
  "\<exists>conn ch. fst (snd (connect plain_env (fresh_client shop_config) empty_world)) =
     (fresh_client shop_config)\<lparr>cl_conn := Some conn, cl_channel := Some ch\<rparr>"
proof -
  have "fst (connect plain_env (fresh_client shop_config) empty_world) = None"
    by (simp add: connect_def fresh_client_def plain_env_def shop_config_def DefaultConfig_def
        sample_queue_def call_id_def call_def call_err_eq enableConfirms_def setupTopology_def
        setupDLQ_def WithDLX_def configQueueWithDLX_def make_map_def Let_def split: prod.split)
  moreover have "args_separate (w_heap empty_world) (Queues (cl_config (fresh_client shop_config)))"
    by (simp add: args_separate_def fresh_client_def shop_config_def sample_queue_def ref_ok_def)
  ultimately show ?thesis
    using connect_success [of plain_env "fresh_client shop_config" empty_world]
    by (metis prod.collapse)
qed

text \<open>
  C30. A failed \<open>connect\<close> leaks nothing and closes nothing else. If the dial failed, that is the
  only call. If the dial gave a connection and opening a channel on it failed, that connection
  is closed. After any later failure the calls end with closing the very channel and the very
  connection this call opened, and no other close was made. In that last case the client
  already holds them, so \<open>GetChannel\<close> hands out the closed channel without an error.
\<close>

theorem connect_failure_closes:
  fixes c :: client
  defines "dial \<equiv> Dial (URI (cl_config c))"
  assumes "connect e c w = (Some err, c', w')" "\<not> cl_closed c"
  shows "(\<exists>x. answer e (w_calls w) dial = RErr x \<and> err = ConnectionError ''dial'' (Some x) \<and> c' = c \<and>
      w_calls w' = w_calls w @ [dial]) \<or>
    (\<exists>conn x. fst (call_id e dial w) = Inr conn \<and>
      answer e (w_calls w @ [dial]) (OpenChannel conn) = RErr x \<and>
      err = ConnectionError ''open channel'' (Some x) \<and> c' = c \<and>
      w_calls w' = w_calls w @ [dial, OpenChannel conn, CloseConnection conn]) \<or>
    (\<exists>conn ch cs. fst (call_id e dial w) = Inr conn \<and>
      fst (call_id e (OpenChannel conn) (snd (call_id e dial w))) = Inr ch \<and>
      c' = c\<lparr>cl_conn := Some conn, cl_channel := Some ch\<rparr> \<and> GetChannel c' = Inr ch \<and> no_close cs \<and>
      w_calls w' = w_calls w @ [dial, OpenChannel conn] @ cs @ [CloseChannel ch, CloseConnection conn])"
proof -
  obtain r1 w1 where 1: "call_id e dial w = (r1, w1)" by fastforce
  have w1: "w1 = w\<lparr>w_calls := w_calls w @ [dial]\<rparr>" using 1 by (rule call_id_calls)
  show ?thesis
  proof (cases r1)
    case (Inl x)
    with assms 1 have "err = ConnectionError ''dial'' (Some x)" "c' = c" "w' = w1"
      by (auto simp: connect_def)
    with 1 Inl w1 show ?thesis by (auto simp: call_id_def call_def split: reply.splits)
  next
    case conn: (Inr conn)
    obtain r2 w2 where 2: "call_id e (OpenChannel conn) w1 = (r2, w2)" by fastforce
    have w2: "w2 = w1\<lparr>w_calls := w_calls w1 @ [OpenChannel conn]\<rparr>" using 2 by (rule call_id_calls)
    show ?thesis
    proof (cases r2)
      case (Inl x)
      with assms 1 2 conn have "err = ConnectionError ''open channel'' (Some x)" "c' = c"
        "w_calls w' = w_calls w2 @ [CloseConnection conn]"
        by (auto simp: connect_def call_def)
      moreover from 2 Inl w1 have "answer e (w_calls w @ [dial]) (OpenChannel conn) = RErr x"
        by (auto simp: call_id_def call_def split: reply.splits)
      ultimately show ?thesis using 1 conn w1 w2 by simp
    next
      case (Inr ch)
      from connect_setup_error [OF assms(2,3) 1 [unfolded dial_def conn] 2 [unfolded Inr]]
      show ?thesis using assms(3) 1 2 conn Inr w1 w2 by (auto simp: GetChannel_def keeps_open_def)
    qed
  qed
qed

theorem connect_failure_closes_witness:
  "\<exists>cs. w_calls (snd (snd (connect no_qos_env (fresh_client shop_config) empty_world))) =
     cs @ [CloseChannel 8, CloseConnection 7]"
proof -
  obtain x c' w' where r: "connect no_qos_env (fresh_client shop_config) empty_world = (x, c', w')"
    by (metis prod.collapse)
  then have x: "x = Some (ConnectionError ''set qos'' (Some ErrNoConnection))"
    "cl_conn c' = Some 7" "cl_channel c' = Some 8" "\<not> cl_closed c'"
    by (auto simp: connect_def fresh_client_def no_qos_env_def call_id_def call_def call_err_eq Let_def)
  show ?thesis
    using connect_failure_closes [OF r [unfolded x(1)]] r x
    by (auto simp: fresh_client_def GetChannel_def)
qed

text \<open>
  \<open>Close\<close> is idempotent and final: it closes the channel and the connection once, a second
  call makes no library call, and afterwards \<open>connect\<close> and \<open>GetChannel\<close> answer
  \<open>ErrClientClosed\<close> without touching the network.
\<close>

theorem close_idempotent_and_final:
  assumes "client_Close e c w = (r, c1, w1)"
  shows "r = None \<and> cl_closed c1 \<and> client_Close e c1 w1 = (None, c1, w1) \<and>
    connect e c1 w1 = (Some ErrClientClosed, c1, w1) \<and> GetChannel c1 = Inl ErrClientClosed \<and>
    (\<not> cl_closed c \<and> cl_channel c = Some ch \<and> cl_conn c = Some conn \<longrightarrow>
       w_calls w1 = w_calls w @ [CloseChannel ch, CloseConnection conn])"
  using assms
  by (auto simp: client_Close_def connect_def GetChannel_def call_def Let_def
      split: if_splits option.splits)

theorem close_idempotent_and_final_witness:
  "let c = (fresh_client shop_config)\<lparr>cl_conn := Some 1, cl_channel := Some 2\<rparr>
   in w_calls (snd (snd (client_Close plain_env c empty_world))) = [CloseChannel 2, CloseConnection 1]"
proof -
  let ?c = "(fresh_client shop_config)\<lparr>cl_conn := Some 1, cl_channel := Some 2\<rparr>"
  obtain r c1 w1 where "client_Close plain_env ?c empty_world = (r, c1, w1)"
    by (metis prod.collapse)
  with close_idempotent_and_final [OF this, of 2 1] show ?thesis
    by (simp add: Let_def fresh_client_def empty_world_def)
qed

end
