(* ===== verification/Reconnect.thy ===== *)
theory Reconnect
  imports Client
begin

text \<open>
  The reconnection machinery of \<open>internal/broker/client.go\<close>: the goroutine of \<open>handleReconnect\<close>,
  the close watcher each successful \<open>connect\<close> starts, \<open>Reconnect\<close> and \<open>Close\<close>, as one transition
  system. The signal channel \<open>done\<close> is unbuffered and both senders send without blocking, so
  a signal arrives exactly if the handler is at its receive, and is dropped otherwise. A sender
  first looks whether the client is closed and sends later; \<open>rs_signals\<close> counts the goroutines
  between the two. The handler's sleeps take no part in the model: a step may be taken at any time.
\<close>

section \<open>State\<close>

datatype pc =
    Waiting
  | Woken
  | Sleeping
  | Connecting
  | Connected "goerror option"
  | Retrying
  | Exited

record rstate =
  rs_pc :: pc
  rs_client :: client
  rs_world :: world
  rs_watchers :: "(nat \<times> nat) list"
  rs_signals :: nat

datatype label = LFire nat nat "goerror option" | LReconnect | LSend | LClose | LHandler

text \<open>The state in which \<open>New\<close> leaves a client it has connected.\<close>

definition started :: "client \<Rightarrow> world \<Rightarrow> rstate" where
  "started c w = \<lparr>rs_pc = Waiting, rs_client = c, rs_world = w,
     rs_watchers = (case (cl_conn c, cl_channel c) of (Some conn, Some ch) \<Rightarrow> [(conn, ch)] | _ \<Rightarrow> []), rs_signals = 0\<rparr>"

section \<open>Steps\<close>

text \<open>A non-blocking send on \<open>done\<close>, by a goroutine that has found the client open.\<close>

definition signal :: "rstate \<Rightarrow> rstate" where
  "signal s = (if rs_pc s = Waiting then s\<lparr>rs_pc := Woken\<rparr> else s)"

definition send_signal :: "rstate \<Rightarrow> rstate" where
  "send_signal s = (case rs_signals s of 0 \<Rightarrow> s | Suc n \<Rightarrow> signal (s\<lparr>rs_signals := n\<rparr>))"

text \<open>
  A watcher hears that its connection or channel is closed: with an error if the close was
  unexpected, with nil if it was orderly. Either way it is done.
\<close>

definition watcher_fires :: "nat \<Rightarrow> nat \<Rightarrow> goerror option \<Rightarrow> rstate \<Rightarrow> rstate" where
  "watcher_fires conn ch closeErr s =
     (let s1 = s\<lparr>rs_watchers := remove1 (conn, ch) (rs_watchers s)\<rparr>
      in case closeErr of
           None \<Rightarrow> s1
         | Some err \<Rightarrow>
             if cl_closed (rs_client s1) then s1
             else s1\<lparr>rs_world := log LWarn ''RabbitMQ connection/channel closed unexpectedly''
                    [(''error'', VOther (Error err))] (rs_world s1), rs_signals := Suc (rs_signals s1)\<rparr>)"

definition client_Reconnect :: "rstate \<Rightarrow> rstate" where
  "client_Reconnect s = (if cl_closed (rs_client s) then s else s\<lparr>rs_signals := Suc (rs_signals s)\<rparr>)"

definition close_step :: "env \<Rightarrow> rstate \<Rightarrow> rstate" where
  "close_step e s =
     (case client_Close e (rs_client s) (rs_world s) of
        (r, c, w) \<Rightarrow> s\<lparr>rs_client := c, rs_world := w\<rparr>)"

text \<open>
  One step of \<open>handleReconnect\<close>. \<open>connect\<close> holds the mutex throughout and is one step; on success
  it has started a watcher for the new connection and channel.
\<close>

definition handler_step :: "env \<Rightarrow> rstate \<Rightarrow> rstate" where
  "handler_step e s =
     (case rs_pc s of
        Waiting \<Rightarrow> s
      | Woken \<Rightarrow>
          if cl_closed (rs_client s) then s\<lparr>rs_pc := Exited\<rparr>
          else s\<lparr>rs_pc := Sleeping,
                 rs_world := log LInfo ''Attempting to reconnect in %v...''
                   [(''reconnect_delay'', VDuration (ReconnectDelay (cl_config (rs_client s))))] (rs_world s)\<rparr>
      | Sleeping \<Rightarrow> s\<lparr>rs_pc := Connecting\<rparr>
      | Connecting \<Rightarrow>
          (case connect e (rs_client s) (rs_world s) of
             (r, c, w) \<Rightarrow>
               s\<lparr>rs_pc := Connected r, rs_client := c, rs_world := w,
                 rs_watchers :=
                   (if r = None then (the (cl_conn c), the (cl_channel c)) # rs_watchers s
                    else rs_watchers s)\<rparr>)
      | Connected r \<Rightarrow>
          (let (alive, w1) = (if r = None then client_IsConnected e (rs_client s) (rs_world s)
                              else (False, rs_world s))
           in if alive
              then s\<lparr>rs_pc := Waiting, rs_world := log LInfo ''Successfully reconnected'' [] w1\<rparr>
              else s\<lparr>rs_pc := Retrying,
                     rs_world := log LError ''Reconnection failed: %v. Retrying in %v...''
                       [(''error'', case r of None \<Rightarrow> VNil | Some err \<Rightarrow> VOther (Error err)),
                        (''reconnect_delay'', VDuration (ReconnectDelay (cl_config (rs_client s))))] w1\<rparr>)
      | Retrying \<Rightarrow> s\<lparr>rs_pc := (if cl_closed (rs_client s) then Exited else Connecting)\<rparr>
      | Exited \<Rightarrow> s)"

inductive rstep :: "env \<Rightarrow> rstate \<Rightarrow> label \<Rightarrow> rstate \<Rightarrow> bool" for e where
  fire: "(conn, ch) \<in> set (rs_watchers s) \<Longrightarrow>
    rstep e s (LFire conn ch x) (watcher_fires conn ch x s)"
| reconnect: "rstep e s LReconnect (client_Reconnect s)"
| send: "rstep e s LSend (send_signal s)"
| close: "rstep e s LClose (close_step e s)"
| handler: "rstep e s LHandler (handler_step e s)"

inductive_cases rstepE: "rstep e s l t"

definition any_step :: "env \<Rightarrow> rstate \<Rightarrow> rstate \<Rightarrow> bool" where
  "any_step e s t \<longleftrightarrow> (\<exists>l. rstep e s l t)"

text \<open>Steps of an application that never calls \<open>Reconnect\<close>.\<close>

definition hands_off_step :: "env \<Rightarrow> rstate \<Rightarrow> rstate \<Rightarrow> bool" where
  "hands_off_step e s t \<longleftrightarrow> (\<exists>l. l \<noteq> LReconnect \<and> rstep e s l t)"

section \<open>The inner loop\<close>

text \<open>
  The retry loop of \<open>handleReconnect\<close> as a function: at most \<open>n\<close> attempts, \<^term>\<open>None\<close> if none of them
  connected. Nobody closes the client meanwhile.
\<close>

fun reconnect_loop :: "env \<Rightarrow> nat \<Rightarrow> rstate \<Rightarrow> rstate option" where
  "reconnect_loop e 0 s = None"
| "reconnect_loop e (Suc n) s =
     (let s1 = handler_step e s; s2 = handler_step e s1
      in if rs_pc s2 = Waiting then Some s2
         else let s3 = handler_step e s2
              in if rs_pc s3 = Connecting then reconnect_loop e n s3 else None)"

section \<open>Flow control\<close>

text \<open>
  A blocked or unblocked notice of the broker: the log line and the callback that is started
  on its own goroutine, which recovers from its panics.
\<close>

datatype callback = CallBlocked string | CallUnblocked

definition handle_blocking :: "Config \<Rightarrow> bool \<Rightarrow> string \<Rightarrow> world \<Rightarrow> callback option \<times> world" where
  "handle_blocking cfg active reason w =
     (if active
      then ((if OnConnectionBlocked cfg then Some (CallBlocked reason) else None),
            log LWarn ''RabbitMQ connection blocked by broker'' [(''reason'', VString reason)] w)
      else ((if OnConnectionUnblocked cfg then Some CallUnblocked else None),
            log LInfo ''RabbitMQ connection unblocked'' [] w))"

section \<open>After Close\<close>

fun is_Dial :: "amqp_call \<Rightarrow> bool" where
  "is_Dial (Dial u) = True"
| "is_Dial _ = False"

definition dials :: "world \<Rightarrow> amqp_call list" where
  "dials w = filter is_Dial (w_calls w)"

lemma dials_log [simp]: "dials (log l m fs w) = dials w"
  by (simp add: dials_def)

lemma signal_simps [simp]:
  "rs_client (signal s) = rs_client s" "rs_world (signal s) = rs_world s" "rs_watchers (signal s) = rs_watchers s"
  "rs_signals (signal s) = rs_signals s"
  by (simp_all add: signal_def)

lemma send_signal_simps [simp]:
  "rs_client (send_signal s) = rs_client s" "rs_world (send_signal s) = rs_world s"
  "rs_watchers (send_signal s) = rs_watchers s" "rs_signals (send_signal s) = rs_signals s - 1"
  by (simp_all add: send_signal_def split: nat.split)

lemma send_signal_none: "rs_signals s = 0 \<Longrightarrow> send_signal s = s"
  by (simp add: send_signal_def)

lemma send_signal_pc: "rs_signals s \<noteq> 0 \<Longrightarrow> rs_pc (send_signal s) = (if rs_pc s = Waiting then Woken else rs_pc s)"
  by (simp add: send_signal_def signal_def split: nat.split)

lemma watcher_fires_client [simp]:
  "rs_client (watcher_fires conn ch x s) = rs_client s" "dials (rs_world (watcher_fires conn ch x s)) = dials (rs_world s)"
  "w_calls (rs_world (watcher_fires conn ch x s)) = w_calls (rs_world s)"
  "rs_watchers (watcher_fires conn ch x s) = remove1 (conn, ch) (rs_watchers s)"
  by (auto simp: watcher_fires_def Let_def split: option.splits)

text \<open>
  A closed client, the connection attempts made so far, and whether its handler is waiting with
  no signal on its way.
\<close>

definition closed_with :: "amqp_call list \<Rightarrow> bool \<Rightarrow> rstate \<Rightarrow> bool" where
  "closed_with ds waits s \<longleftrightarrow> cl_closed (rs_client s) \<and> dials (rs_world s) = ds \<and>
     (waits \<longrightarrow> rs_pc s = Waiting \<and> rs_signals s = 0)"

lemma closed_handler: "closed_with ds v s \<Longrightarrow> closed_with ds v (handler_step e s)"
  by (cases "rs_pc s")
    (auto simp: closed_with_def handler_step_def connect_def client_IsConnected_def dials_def call_def Let_def
      split: option.splits)

lemma closed_step:
  assumes "any_step e s t" "closed_with ds v s"
  shows "closed_with ds v t"
proof -
  from assms(1) obtain l where "rstep e s l t" by (auto simp: any_step_def)
  then show ?thesis
  proof cases
    case (fire conn ch x)
    then show ?thesis
      using assms(2) by (auto simp: closed_with_def watcher_fires_def Let_def split: option.splits)
  next
    case send
    then show ?thesis using assms(2) send_signal_none by (auto simp: closed_with_def)
  next
    case close
    then show ?thesis using assms(2) by (auto simp: closed_with_def close_step_def client_Close_def)
  next
    case handler
    then show ?thesis using assms(2) closed_handler by simp
  qed (use assms(2) in \<open>auto simp: closed_with_def client_Reconnect_def\<close>)
qed

interpretation closed: invariant_system "closed_with ds v" "any_step e" "closed_with ds v" for ds v e
  by unfold_locales (use closed_step in blast)+

section \<open>A stranded handler\<close>

definition stranded :: "rstate \<Rightarrow> bool" where
  "stranded s \<longleftrightarrow> rs_pc s = Waiting \<and> rs_watchers s = [] \<and> rs_signals s = 0"

lemma stranded_step: "hands_off_step e s t \<Longrightarrow> stranded s \<Longrightarrow> stranded t"
  by (auto simp: hands_off_step_def stranded_def close_step_def handler_step_def send_signal_none elim!: rstepE
      split: prod.splits)

interpretation stranded: invariant_system stranded "hands_off_step e" stranded for e
  by unfold_locales (use stranded_step in blast)+

section \<open>The loop reconnects\<close>

lemma connect_None:
  assumes "connect e c w = (None, c', w')"
  shows "\<exists>conn ch. c' = c\<lparr>cl_conn := Some conn, cl_channel := Some ch\<rparr> \<and> \<not> cl_closed c"
  using assms by (auto simp: connect_def Let_def split: if_splits sum.splits option.splits prod.splits)

lemma connect_closed: "connect e c w = (r, c', w') \<Longrightarrow> cl_closed c' = cl_closed c"
  by (auto simp: connect_def Let_def split: if_splits sum.splits option.splits prod.splits)

lemma handler_star: "(any_step e)\<^sup>*\<^sup>* s (handler_step e s)"
  by (rule r_into_rtranclp) (auto simp: any_step_def intro: rstep.handler)

text \<open>The handler is back at its receive, with a watched connection that the client uses.\<close>

definition serving :: "rstate \<Rightarrow> bool" where
  "serving s \<longleftrightarrow> rs_pc s = Waiting \<and> \<not> cl_closed (rs_client s) \<and> (\<exists>conn ch. cl_conn (rs_client s) = Some conn \<and>
     GetChannel (rs_client s) = Inr ch \<and> (conn, ch) \<in> set (rs_watchers s))"

lemma attempt_succeeds:
  assumes "rs_pc s = Connecting" "rs_pc (handler_step e (handler_step e s)) = Waiting"
  shows "serving (handler_step e (handler_step e s))"
proof -
  obtain r c w where c: "connect e (rs_client s) (rs_world s) = (r, c, w)" by (metis surj_pair)
  then have pc: "rs_pc (handler_step e s) = Connected r" "rs_client (handler_step e s) = c"
    using assms(1) by (simp_all add: handler_step_def)
  have "r = None" using assms(2) pc(1) by (auto simp: handler_step_def [of e "handler_step e s"] split: if_splits)
  with connect_None c obtain conn ch where cc: "c = (rs_client s)\<lparr>cl_conn := Some conn, cl_channel := Some ch\<rparr>"
    "\<not> cl_closed (rs_client s)" by blast
  then have "(conn, ch) \<in> set (rs_watchers (handler_step e s))"
    using c \<open>r = None\<close> assms(1) by (simp add: handler_step_def)
  then show ?thesis
    using pc cc assms(2) \<open>r = None\<close>
    by (auto simp: serving_def GetChannel_def handler_step_def [of e "handler_step e s"] split: if_splits prod.splits)
qed

lemma reconnect_loop_serves:
  assumes "reconnect_loop e n s = Some t" "rs_pc s = Connecting"
  shows "(any_step e)\<^sup>*\<^sup>* s t \<and> serving t"
  using assms
proof (induction n arbitrary: s)
  case 0
  then show ?case by simp
next
  case (Suc n)
  let ?s2 = "handler_step e (handler_step e s)"
  have s2: "(any_step e)\<^sup>*\<^sup>* s ?s2" by (rule rtranclp_trans [OF handler_star handler_star])
  show ?case
  proof (cases "rs_pc ?s2 = Waiting")
    case True
    then show ?thesis using Suc.prems s2 attempt_succeeds [OF Suc.prems(2) True] by (simp add: Let_def)
  next
    case False
    then have "reconnect_loop e n (handler_step e ?s2) = Some t" "rs_pc (handler_step e ?s2) = Connecting"
      using Suc.prems(1) by (auto simp: Let_def split: if_splits)
    from Suc.IH [OF this] show ?thesis using s2 handler_star rtranclp_trans by metis
  qed
qed

lemma connection_loss:
  assumes "rs_pc s = Waiting" "\<not> cl_closed (rs_client s)" "(conn, ch) \<in> set (rs_watchers s)"
    "s1 = handler_step e (handler_step e (send_signal (watcher_fires conn ch (Some err) s)))"
  shows "rs_pc s1 = Connecting \<and> (any_step e)\<^sup>*\<^sup>* s s1 \<and>
    (\<forall>t. reconnect_loop e n s1 = Some t \<longrightarrow> (any_step e)\<^sup>*\<^sup>* s t \<and> serving t)"
proof -
  have "any_step e s (watcher_fires conn ch (Some err) s)"
    using assms(3) by (auto simp: any_step_def intro: rstep.fire)
  moreover have "any_step e s' (send_signal s')" for s' by (auto simp: any_step_def intro: rstep.send)
  ultimately have "(any_step e)\<^sup>*\<^sup>* s (send_signal (watcher_fires conn ch (Some err) s))"
    by (meson converse_rtranclp_into_rtranclp r_into_rtranclp)
  then have star: "(any_step e)\<^sup>*\<^sup>* s s1"
    unfolding assms(4) using handler_star rtranclp_trans by metis
  have "rs_pc s1 = Connecting"
    using assms(1,2) by (simp add: assms(4) handler_step_def watcher_fires_def send_signal_def signal_def)
  then show ?thesis using star reconnect_loop_serves rtranclp_trans by metis
qed

section \<open>Properties\<close>

definition served :: rstate where
  "served = started ((fresh_client (DefaultConfig\<lparr>URI := ''amqp://localhost''\<rparr>))\<lparr>cl_conn := Some 1, cl_channel := Some 2\<rparr>)
     empty_world"

lemma served_reconnects:
  obtains t where "reconnect_loop plain_env 1 (handler_step plain_env (handler_step plain_env
      (send_signal (watcher_fires 1 2 (Some ErrNoConnection) served)))) = Some t" "cl_conn (rs_client t) = Some 7"
  by (simp add: served_def started_def fresh_client_def watcher_fires_def send_signal_def signal_def handler_step_def
      DefaultConfig_def connect_def call_id_def call_def call_err_eq plain_env_def enableConfirms_def setupTopology_def
      client_IsConnected_def Let_def split: prod.splits)

text \<open>
  C38. A closed client never dials again, and stays closed, whatever is signalled. But a handler
  that is waiting when the client is closed, with no signal already on its way, waits for ever:
  no step wakes it, so its goroutine is not released by \<open>Close\<close>.
\<close>

theorem closed_client_never_dials:
  assumes "cl_closed (rs_client s)" "(any_step e)\<^sup>*\<^sup>* s t"
  shows "cl_closed (rs_client t) \<and> dials (rs_world t) = dials (rs_world s) \<and>
    (rs_pc s = Waiting \<and> rs_signals s = 0 \<longrightarrow> rs_pc t = Waiting)"
  using closed.step_star_inv [OF assms(2), of "dials (rs_world s)" "rs_pc s = Waiting \<and> rs_signals s = 0"] assms(1)
  by (simp add: closed_with_def)

theorem closed_client_never_dials_witness:
  "rs_pc (client_Reconnect (close_step plain_env served)) = Waiting"
proof -
  have "cl_closed (rs_client (close_step plain_env served))" "rs_pc (close_step plain_env served) = Waiting"
    "rs_signals (close_step plain_env served) = 0"
    by (simp_all add: served_def started_def fresh_client_def close_step_def client_Close_def)
  moreover have "(any_step plain_env)\<^sup>*\<^sup>* (close_step plain_env served) (client_Reconnect (close_step plain_env served))"
    by (rule r_into_rtranclp) (auto simp: any_step_def intro: rstep.reconnect)
  ultimately show ?thesis using closed_client_never_dials by blast
qed



end
