(* ===== verification/Recovery.thy ===== *)
theory Recovery
  imports Reconnect
begin

text \<open>
  Liveness of the reconnection machinery of \<open>internal/broker/client.go\<close>. A run is an infinite
  sequence of states with a label for each step; the environment answers a call by what was
  called before, so an outage is a stretch of the history in which calls are answered with
  errors. The theory shows that a fair run whose outage ends gets back to a connection.
\<close>

section \<open>Runs and outages\<close>

text \<open>
  A run in which the application does not close the client, the handler and the goroutines with
  a signal to send get their turn again and again, and everything else may happen at any time:
  further watchers firing, calls of \<open>Reconnect\<close>.
\<close>

definition fair_run :: "env \<Rightarrow> (nat \<Rightarrow> label) \<Rightarrow> (nat \<Rightarrow> rstate) \<Rightarrow> bool" where
  "fair_run e l \<sigma> \<longleftrightarrow> (\<forall>i. rstep e (\<sigma> i) (l i) (\<sigma> (Suc i))) \<and> (\<forall>i. l i \<noteq> LClose) \<and>
     (\<forall>i. \<exists>j \<ge> i. l j = LHandler) \<and> (\<forall>i. \<exists>j \<ge> i. l j = LSend)"

text \<open>The outage is over after \<open>N\<close> calls: no call is answered with an error, no connection reports closed.\<close>

definition available_from :: "env \<Rightarrow> nat \<Rightarrow> bool" where
  "available_from e N \<longleftrightarrow> (\<forall>cs c. N \<le> length cs \<longrightarrow>
     (\<forall>x. answer e cs c \<noteq> RErr x) \<and> (\<forall>n. c = ConnIsClosed n \<longrightarrow> answer e cs c \<noteq> RBool True))"

lemma available_call_err:
  "available_from e N \<Longrightarrow> N \<le> length (w_calls w) \<Longrightarrow> call_err e c w = (None, w\<lparr>w_calls := w_calls w @ [c]\<rparr>)"
  by (auto simp: available_from_def call_err_eq split: reply.split)

lemma available_call_id:
  "available_from e N \<Longrightarrow> N \<le> length (w_calls w) \<Longrightarrow> \<exists>n. call_id e c w = (Inr n, w\<lparr>w_calls := w_calls w @ [c]\<rparr>)"
  by (auto simp: available_from_def call_id_def call_def split: reply.split)

lemma keeps_open_length: "keeps_open w w' \<Longrightarrow> length (w_calls w) \<le> length (w_calls w')"
  by (auto simp: keeps_open_def)

lemma available_setupDLQQueues:
  "available_from e N \<Longrightarrow> N \<le> length (w_calls w) \<Longrightarrow> fst (setupDLQQueues e ch d qs w) = None"
  by (induction qs arbitrary: w) (simp_all add: available_call_err Let_def)

lemma available_setupDLQ:
  assumes "available_from e N" "N \<le> length (w_calls w)"
  shows "fst (setupDLQ e ch cfg w) = None"
  using assms available_setupDLQQueues [OF assms(1)]
  by (simp add: setupDLQ_def available_call_err [OF assms] Let_def)

lemma available_declareExchanges:
  "available_from e N \<Longrightarrow> N \<le> length (w_calls w) \<Longrightarrow> fst (declareExchanges e ch exs w) = None"
  by (induction exs arbitrary: w) (simp_all add: available_call_err)

lemma available_bindQueueKeys:
  "available_from e N \<Longrightarrow> N \<le> length (w_calls w) \<Longrightarrow> fst (bindQueueKeys e ch q rks w) = None"
  by (induction rks arbitrary: w) (simp_all add: available_call_err)

lemma available_declareQueues:
  assumes "available_from e N" "N \<le> length (w_calls w)"
  shows "fst (declareQueues e ch cfg qs w) = None"
  using assms(2)
proof (induction qs arbitrary: w)
  case (Cons q qs)
  define p where "p = (if DLQEnabled cfg
    then (case configQueueWithDLX q (DLQConf cfg) (w_heap w) of (q', h') \<Rightarrow> (q', w\<lparr>w_heap := h'\<rparr>)) else (q, w))"
  obtain q' w0 where p: "p = (q', w0)" by fastforce
  then have w0: "w_calls w0 = w_calls w" by (auto simp: p_def split: if_splits prod.splits)
  define w1 where "w1 = w0\<lparr>w_calls := w_calls w0 @ [QueueDeclare ch (q_Name q') (q_Durable q') (q_AutoDelete q')
    (q_Exclusive q') False (map_snapshot (w_heap w0) (q_Args q'))]\<rparr>"
  obtain r2 w2 where 2: "bindQueueKeys e ch q' (q_RoutingKeys q') w1 = (r2, w2)" by fastforce
  have len: "N \<le> length (w_calls w1)" using Cons.prems w0 by (simp add: w1_def)
  have "r2 = None" using available_bindQueueKeys [OF assms(1) len, of ch q' "q_RoutingKeys q'"] 2 by simp
  moreover have "N \<le> length (w_calls w2)"
    using keeps_open_length [OF bindQueueKeys_keeps_open [of w1 e ch q' "q_RoutingKeys q'"]] 2 len by simp
  ultimately show ?case
    using Cons.IH [of w1] Cons.IH [of w2] len 2 w0 Cons.prems
      available_call_err [OF assms(1), of w0] by (auto simp: p_def [symmetric] p w1_def Let_def)
qed simp

lemma available_connect:
  assumes "available_from e N" "N \<le> length (w_calls w)" "\<not> cl_closed c"
  shows "fst (connect e c w) = None"
proof -
  obtain conn w1 where 1: "call_id e (Dial (URI (cl_config c))) w = (Inr conn, w1)" "N \<le> length (w_calls w1)"
    using available_call_id [OF assms(1,2)] assms(2) by fastforce
  obtain ch w2 where 2: "call_id e (OpenChannel conn) w1 = (Inr ch, w2)" "N \<le> length (w_calls w2)"
    using available_call_id [OF assms(1) 1(2)] 1(2) by fastforce
  obtain w3 where 3: "call_err e (Qos ch (PrefetchCount (cl_config c)) 0 False) w2 = (None, w3)" "N \<le> length (w_calls w3)"
    using available_call_err [OF assms(1) 2(2)] 2(2) by fastforce
  obtain r4 w4 where r4: "enableConfirms e ch (cl_config c) w3 = (r4, w4)" by fastforce
  have 4: "r4 = None" "N \<le> length (w_calls w4)"
    using available_call_err [OF assms(1) 3(2), of "Confirm ch False"] 3(2) r4
    by (auto simp: enableConfirms_def split: if_splits)
  obtain r5 w5 where 5: "(if DLQEnabled (cl_config c) then setupDLQ e ch (cl_config c) w4 else (None, w4)) = (r5, w5)"
    by fastforce
  then have "r5 = None" "N \<le> length (w_calls w5)"
    using 4(2) available_setupDLQ [OF assms(1) 4(2), of ch "cl_config c"]
      keeps_open_length [OF setupDLQ_keeps_open [of w4 e ch "cl_config c"]] by (auto split: if_splits)
  moreover obtain r6 w6 where 6: "declareExchanges e ch (Exchanges (cl_config c)) w5 = (r6, w6)" by fastforce
  ultimately have "r6 = None" "N \<le> length (w_calls w6)"
    using available_declareExchanges [OF assms(1), of w5 ch "Exchanges (cl_config c)"]
      keeps_open_length [OF declareExchanges_keeps_open [of w5 e ch "Exchanges (cl_config c)"]] by simp_all
  then have "fst (setupTopology e ch (cl_config c) w4) = None"
    using available_declareQueues [OF assms(1)] 5 6 \<open>r5 = None\<close> by (simp add: setupTopology_def)
  then show ?thesis
    using 1 2 3 4 r4 assms(3)
    by (cases "setupTopology e ch (cl_config c) w4") (simp add: connect_def Let_def)
qed

text \<open>Every attempt on an open client makes at least one call.\<close>

lemma connect_grows:
  assumes "connect e c w = (r, c', w')" "\<not> cl_closed c"
  shows "length (w_calls w) < length (w_calls w')"
proof -
  obtain r1 w1 where 1: "call_id e (Dial (URI (cl_config c))) w = (r1, w1)" by fastforce
  have w1: "length (w_calls w) < length (w_calls w1)" using call_id_calls [OF 1] by simp
  show ?thesis
  proof (cases r1)
    case (Inl x)
    then show ?thesis using assms 1 w1 by (auto simp: connect_def)
  next
    case conn: (Inr conn)
    obtain r2 w2 where 2: "call_id e (OpenChannel conn) w1 = (r2, w2)" by fastforce
    have w2: "length (w_calls w1) < length (w_calls w2)" using call_id_calls [OF 2] by simp
    show ?thesis
    proof (cases r2)
      case (Inl x)
      then show ?thesis using assms 1 2 conn w1 w2 by (auto simp: connect_def call_def)
    next
      case (Inr ch)
      obtain r3 w3 where 3: "call_err e (Qos ch (PrefetchCount (cl_config c)) 0 False) w2 = (r3, w3)" by fastforce
      obtain r4 w4 where 4: "enableConfirms e ch (cl_config c) w3 = (r4, w4)" by fastforce
      obtain r5 w5 where 5: "setupTopology e ch (cl_config c) w4 = (r5, w5)" by fastforce
      have "length (w_calls w2) < length (w_calls w3)" using call_err_calls [OF 3] by simp
      moreover have "length (w_calls w3) \<le> length (w_calls w4)"
        using enableConfirms_keeps_open [OF 4] by (rule keeps_open_length)
      moreover have "length (w_calls w4) \<le> length (w_calls w5)"
        using keeps_open_length [OF setupTopology_keeps_open [of w4 e ch "cl_config c"]] 5 by simp
      ultimately show ?thesis
        using assms 1 2 3 4 5 conn Inr w1 w2
        by (cases r3; cases r4; cases r5) (auto simp: connect_def Let_def)
    qed
  qed
qed

section \<open>Progress of the handler\<close>

text \<open>
  A bound on the handler's steps until it waits again: four for every call the outage may still
  last, and the position within the current attempt.
\<close>

definition remaining :: "nat \<Rightarrow> rstate \<Rightarrow> nat" where
  "remaining N s =
     (let m = N - length (w_calls (rs_world s))
      in 4 * m + (case rs_pc s of
           Connecting \<Rightarrow> 1 | Retrying \<Rightarrow> 2 | Sleeping \<Rightarrow> 2 | Woken \<Rightarrow> 3
         | Connected r \<Rightarrow> (if r = None \<and> m = 0 then 0 else 3) | _ \<Rightarrow> 0))"

text \<open>The handler is in the middle of replacing the connection of an open client.\<close>

definition replacing :: "rstate \<Rightarrow> bool" where
  "replacing s \<longleftrightarrow> \<not> cl_closed (rs_client s) \<and> rs_pc s \<noteq> Waiting \<and> rs_pc s \<noteq> Exited \<and>
     (rs_pc s = Connected None \<longrightarrow> cl_conn (rs_client s) \<noteq> None)"

lemma handler_progress:
  assumes "available_from e N" "replacing s"
  shows "rs_pc (handler_step e s) = Waiting \<and> rs_pc s = Connected None \<or>
    replacing (handler_step e s) \<and> remaining N (handler_step e s) < remaining N s"
proof (cases "rs_pc s")
  case Connecting
  obtain r c w where c: "connect e (rs_client s) (rs_world s) = (r, c, w)" by (metis surj_pair)
  have open': "\<not> cl_closed (rs_client s)" using assms(2) by (simp add: replacing_def)
  have "length (w_calls (rs_world s)) < length (w_calls w)" using connect_grows [OF c open'] .
  moreover have "r = None" if "N \<le> length (w_calls (rs_world s))"
    using available_connect [OF assms(1) that open'] c by simp
  moreover have "cl_conn c \<noteq> None" if "r = None" using connect_None [of e "rs_client s" "rs_world s" c w] c that by auto
  moreover have "N - length (w_calls w) < N - length (w_calls (rs_world s))" if "r \<noteq> None"
    using calculation(1,2) that by (cases "N \<le> length (w_calls (rs_world s))") auto
  ultimately show ?thesis
    using Connecting c connect_closed [OF c] open'
    by (auto simp: handler_step_def replacing_def remaining_def Let_def)
next
  case (Connected r)
  show ?thesis
  proof (cases "r = None")
    case True
    then obtain conn where conn: "cl_conn (rs_client s) = Some conn" using assms(2) Connected by (auto simp: replacing_def)
    let ?c = "ConnIsClosed conn"
    have "answer e (w_calls (rs_world s)) ?c \<noteq> RBool True" if "N \<le> length (w_calls (rs_world s))"
      using assms(1) that by (auto simp: available_from_def)
    then show ?thesis
      using assms(2) Connected True conn
      by (auto simp: handler_step_def replacing_def remaining_def client_IsConnected_def call_def Let_def)
  qed (use assms(2) Connected in \<open>auto simp: handler_step_def replacing_def remaining_def Let_def\<close>)
qed (use assms(2) in \<open>auto simp: handler_step_def replacing_def remaining_def Let_def\<close>)

text \<open>What the other goroutines do meanwhile changes neither the handler nor the client.\<close>

definition same_client :: "rstate \<Rightarrow> rstate \<Rightarrow> bool" where
  "same_client s t \<longleftrightarrow> rs_pc t = rs_pc s \<and> rs_client t = rs_client s \<and> w_calls (rs_world t) = w_calls (rs_world s)"

lemma other_step:
  assumes "rstep e s l t" "l \<noteq> LHandler" "l \<noteq> LClose" "rs_pc s \<noteq> Waiting \<or> l \<noteq> LSend"
  shows "same_client s t"
  using assms
  by (cases rule: rstep.cases)
    (auto simp: same_client_def watcher_fires_def client_Reconnect_def send_signal_def signal_def Let_def split: option.splits nat.splits)

lemma same_client_replacing: "same_client s t \<Longrightarrow> replacing t = replacing s \<and> remaining N t = remaining N s"
  by (simp add: same_client_def replacing_def remaining_def)

lemma handler_label: "rstep e s LHandler t \<Longrightarrow> t = handler_step e s"
  by (cases rule: rstep.cases) auto

lemma replacing_ends:
  assumes "fair_run e l \<sigma>" "available_from e N" "replacing (\<sigma> i)"
  shows "\<exists>k \<ge> i. rs_pc (\<sigma> k) = Connected None \<and> rs_pc (\<sigma> (Suc k)) = Waiting \<and> l k = LHandler \<and>
    (\<forall>j. i \<le> j \<and> j \<le> k \<longrightarrow> replacing (\<sigma> j))"
  using assms(3)
proof (induction "remaining N (\<sigma> i)" arbitrary: i rule: less_induct)
  case less
  have step: "rstep e (\<sigma> j) (l j) (\<sigma> (Suc j))" "l j \<noteq> LClose" for j using assms(1) by (auto simp: fair_run_def)
  define h where "h = (LEAST j. i \<le> j \<and> l j = LHandler)"
  have "\<exists>j. i \<le> j \<and> l j = LHandler" using assms(1) by (auto simp: fair_run_def)
  then have h: "i \<le> h \<and> l h = LHandler" unfolding h_def by (rule LeastI_ex)
  have before: "l j \<noteq> LHandler" if "i \<le> j" "j < h" for j
    using that not_less_Least [of j "\<lambda>j. i \<le> j \<and> l j = LHandler"] by (auto simp: h_def)
  have idle: "replacing (\<sigma> j) \<and> remaining N (\<sigma> j) = remaining N (\<sigma> i)" if "i \<le> j" "j \<le> h" for j
    using that
  proof (induction j rule: dec_induct)
    case base
    then show ?case using less.prems by simp
  next
    case (step n)
    then have "replacing (\<sigma> n)" "remaining N (\<sigma> n) = remaining N (\<sigma> i)" by simp_all
    moreover have "same_client (\<sigma> n) (\<sigma> (Suc n))"
      using step.hyps step.prems before [of n] \<open>replacing (\<sigma> n)\<close> assms(1)
      by (intro other_step [of e _ "l n"]) (auto simp: fair_run_def replacing_def)
    ultimately show ?case using same_client_replacing by simp
  qed
  have next': "\<sigma> (Suc h) = handler_step e (\<sigma> h)" using step(1) [of h] h by (simp add: handler_label)
  from handler_progress [OF assms(2), of "\<sigma> h"] idle [of h] h next'
  consider "rs_pc (\<sigma> (Suc h)) = Waiting" "rs_pc (\<sigma> h) = Connected None"
    | "replacing (\<sigma> (Suc h))" "remaining N (\<sigma> (Suc h)) < remaining N (\<sigma> i)" by auto
  then show ?case
  proof cases
    case 1
    then show ?thesis using h idle by blast
  next
    case 2
    from less.hyps [OF 2(2,1)] obtain k where k: "k \<ge> Suc h" "rs_pc (\<sigma> k) = Connected None" "rs_pc (\<sigma> (Suc k)) = Waiting"
      "l k = LHandler" "\<And>j. Suc h \<le> j \<and> j \<le> k \<Longrightarrow> replacing (\<sigma> j)" by blast
    have "replacing (\<sigma> j)" if "i \<le> j" "j \<le> k" for j
      using that k(5) [of j] idle [of j] by (cases "j \<le> h") simp_all
    with k h show ?thesis by (intro exI [of _ k]) auto
  qed
qed

text \<open>The connection in use when the handler is about to wait was opened by an attempt of this run.\<close>

lemma connected_by_attempt:
  assumes "fair_run e l \<sigma>" "i \<le> k" "rs_pc (\<sigma> k) = Connected None" "rs_pc (\<sigma> i) \<noteq> Connected None"
    "\<forall>j. i \<le> j \<and> j \<le> k \<longrightarrow> replacing (\<sigma> j)"
  shows "\<exists>j \<ge> i. j < k \<and> l j = LHandler \<and> rs_pc (\<sigma> j) = Connecting \<and>
    fst (connect e (rs_client (\<sigma> j)) (rs_world (\<sigma> j))) = None \<and> rs_client (\<sigma> k) = rs_client (\<sigma> (Suc j))"
  using assms(2,3,5)
proof (induction k rule: dec_induct)
  case base
  then show ?case using assms(4) by simp
next
  case (step n)
  have s: "rstep e (\<sigma> n) (l n) (\<sigma> (Suc n))" "l n \<noteq> LClose" using assms(1) by (auto simp: fair_run_def)
  have repl: "replacing (\<sigma> n)" using step.prems(2) step.hyps by simp
  show ?case
  proof (cases "l n = LHandler")
    case True
    then have "\<sigma> (Suc n) = handler_step e (\<sigma> n)" using s(1) by (simp add: handler_label)
    then have "rs_pc (\<sigma> n) = Connecting" "fst (connect e (rs_client (\<sigma> n)) (rs_world (\<sigma> n))) = None"
      using step.prems(1) by (auto simp: handler_step_def Let_def split: pc.splits if_splits prod.splits)
    with True step.hyps show ?thesis by (intro exI [of _ n]) auto
  next
    case False
    then have "same_client (\<sigma> n) (\<sigma> (Suc n))" using s repl by (intro other_step [of e _ "l n"]) (auto simp: replacing_def)
    then have "rs_pc (\<sigma> n) = Connected None" "rs_client (\<sigma> (Suc n)) = rs_client (\<sigma> n)"
      using step.prems(1) by (simp_all add: same_client_def)
    with step.IH step.prems(2) show ?thesis by (auto intro: less_SucI)
  qed
qed

text \<open>A pending signal wakes a waiting handler.\<close>

lemma pending_signal_wakes:
  assumes "fair_run e l \<sigma>" "rs_pc (\<sigma> i) = Waiting" "0 < rs_signals (\<sigma> i)"
  shows "\<exists>k > i. rs_pc (\<sigma> k) = Woken \<and> rs_client (\<sigma> k) = rs_client (\<sigma> i)"
proof -
  have step: "rstep e (\<sigma> j) (l j) (\<sigma> (Suc j))" "l j \<noteq> LClose" for j using assms(1) by (auto simp: fair_run_def)
  define h where "h = (LEAST j. i \<le> j \<and> l j = LSend)"
  have "\<exists>j. i \<le> j \<and> l j = LSend" using assms(1) by (auto simp: fair_run_def)
  then have h: "i \<le> h \<and> l h = LSend" unfolding h_def by (rule LeastI_ex)
  have before: "l j \<noteq> LSend" if "i \<le> j" "j < h" for j
    using that not_less_Least [of j "\<lambda>j. i \<le> j \<and> l j = LSend"] by (auto simp: h_def)
  have "rs_pc (\<sigma> j) = Waiting \<and> rs_client (\<sigma> j) = rs_client (\<sigma> i) \<and> 0 < rs_signals (\<sigma> j)" if "i \<le> j" "j \<le> h" for j
    using that
  proof (induction j rule: dec_induct)
    case base
    then show ?case using assms(2,3) by simp
  next
    case (step n)
    then have IH: "rs_pc (\<sigma> n) = Waiting \<and> rs_client (\<sigma> n) = rs_client (\<sigma> i) \<and> 0 < rs_signals (\<sigma> n)" by simp
    have "rstep e (\<sigma> n) (l n) (\<sigma> (Suc n))" "l n \<noteq> LClose" "l n \<noteq> LSend"
      using assms(1) before [of n] step.hyps step.prems by (auto simp: fair_run_def)
    then show ?case
      by (cases rule: rstep.cases)
        (use IH in \<open>auto simp: watcher_fires_def client_Reconnect_def handler_step_def Let_def split: option.splits\<close>)
  qed
  from this [of h] h have w: "rs_pc (\<sigma> h) = Waiting" "rs_client (\<sigma> h) = rs_client (\<sigma> i)" "rs_signals (\<sigma> h) \<noteq> 0" by simp_all
  have "\<sigma> (Suc h) = send_signal (\<sigma> h)" using step(1) [of h] h by (auto elim: rstep.cases)
  with w h show ?thesis by (intro exI [of _ "Suc h"]) (simp add: send_signal_pc)
qed

section \<open>Properties\<close>

text \<open>
  C19. A lost connection is replaced. Take any fair run that starts with the handler of an open
  client waiting and a watcher reporting an unexpected close: the client is not closed, the
  handler and the senders of signals get their turn again and again, and anything else may
  happen in between. If the outage ends at some point, however long it lasted, then some attempt
  of the handler connects, the connection and the channel it opened are the ones the client uses
  and are guarded by a watcher of their own, and the handler is back at its receive.
\<close>

theorem lost_connection_replaced:
  assumes "fair_run e l \<sigma>" "available_from e N"
    and "rs_pc (\<sigma> 0) = Waiting" "\<not> cl_closed (rs_client (\<sigma> 0))" "l 0 = LFire conn0 ch0 (Some err)"
  shows "\<exists>j k conn ch. j < k \<and> l j = LHandler \<and> fst (connect e (rs_client (\<sigma> j)) (rs_world (\<sigma> j))) = None \<and>
    rs_watchers (\<sigma> (Suc j)) = (conn, ch) # rs_watchers (\<sigma> j) \<and> rs_client (\<sigma> k) = rs_client (\<sigma> (Suc j)) \<and>
    cl_conn (rs_client (\<sigma> k)) = Some conn \<and> GetChannel (rs_client (\<sigma> k)) = Inr ch \<and> rs_pc (\<sigma> k) = Waiting"
proof -
  have step: "rstep e (\<sigma> j) (l j) (\<sigma> (Suc j))" for j using assms(1) by (auto simp: fair_run_def)
  have "\<sigma> (Suc 0) = watcher_fires conn0 ch0 (Some err) (\<sigma> 0)"
    using step [of 0] assms(5) by (auto elim: rstep.cases)
  then have "rs_pc (\<sigma> (Suc 0)) = Waiting" "0 < rs_signals (\<sigma> (Suc 0))" "\<not> cl_closed (rs_client (\<sigma> (Suc 0)))"
    using assms(3,4) by (simp_all add: watcher_fires_def)
  then obtain i where i: "rs_pc (\<sigma> i) = Woken" "\<not> cl_closed (rs_client (\<sigma> i))"
    using pending_signal_wakes [OF assms(1)] by metis
  then have "replacing (\<sigma> i)" by (simp add: replacing_def)
  from replacing_ends [OF assms(1,2) this] obtain k where k: "k \<ge> i" "rs_pc (\<sigma> k) = Connected None"
    "rs_pc (\<sigma> (Suc k)) = Waiting" "l k = LHandler" "\<forall>j. i \<le> j \<and> j \<le> k \<longrightarrow> replacing (\<sigma> j)" by blast
  from connected_by_attempt [OF assms(1) k(1,2) _ k(5)] i(1) obtain j where j: "j < k" "l j = LHandler"
    "rs_pc (\<sigma> j) = Connecting" "fst (connect e (rs_client (\<sigma> j)) (rs_world (\<sigma> j))) = None"
    "rs_client (\<sigma> k) = rs_client (\<sigma> (Suc j))" by auto
  have sj: "\<sigma> (Suc j) = handler_step e (\<sigma> j)" and sk: "\<sigma> (Suc k) = handler_step e (\<sigma> k)"
    using step [of j] step [of k] j(2) k(4) by (simp_all add: handler_label)
  obtain c w where c: "connect e (rs_client (\<sigma> j)) (rs_world (\<sigma> j)) = (None, c, w)" using j(4) by (metis prod.collapse)
  from connect_None [OF c] obtain conn ch where cc: "c = (rs_client (\<sigma> j))\<lparr>cl_conn := Some conn, cl_channel := Some ch\<rparr>"
    "\<not> cl_closed (rs_client (\<sigma> j))" by blast
  have "rs_client (\<sigma> (Suc j)) = c" "rs_watchers (\<sigma> (Suc j)) = (conn, ch) # rs_watchers (\<sigma> j)"
    using sj j(3) c cc(1) by (simp_all add: handler_step_def)
  moreover have "rs_client (\<sigma> (Suc k)) = rs_client (\<sigma> k)"
    using sk k(2) by (auto simp: handler_step_def Let_def split: if_splits prod.splits)
  ultimately show ?thesis
    using j(1,2,4,5) k(3) cc by (intro exI [of _ j] exI [of _ "Suc k"] exI [of _ conn] exI [of _ ch]) (simp add: GetChannel_def)
qed

text \<open>A run with an outage of three calls: the close is reported, then senders and handler take turns.\<close>

definition outage_env :: env where
  "outage_env = plain_env\<lparr>answer := (\<lambda>cs c. if length cs < 3 then RErr ErrNoConnection else answer plain_env cs c)\<rparr>"

definition outage_label :: "nat \<Rightarrow> label" where
  "outage_label i = (if i = 0 then LFire 1 2 (Some ErrNoConnection) else if even i then LHandler else LSend)"

fun outage_run :: "nat \<Rightarrow> rstate" where
  "outage_run 0 = served"
| "outage_run (Suc i) =
     (if i = 0 then watcher_fires 1 2 (Some ErrNoConnection) served
      else if even i then handler_step outage_env (outage_run i) else send_signal (outage_run i))"

lemma outage_run_fair: "fair_run outage_env outage_label outage_run"
  unfolding fair_run_def
proof (intro conjI allI)
  fix i
  have "(1, 2) \<in> set (rs_watchers served)" by (simp add: served_def started_def fresh_client_def)
  then have "rstep outage_env served (LFire 1 2 (Some ErrNoConnection)) (watcher_fires 1 2 (Some ErrNoConnection) served)"
    by (rule rstep.fire)
  then show "rstep outage_env (outage_run i) (outage_label i) (outage_run (Suc i))"
    by (simp add: outage_label_def rstep.handler rstep.send)
  show "outage_label i \<noteq> LClose" by (simp add: outage_label_def)
  show "\<exists>j \<ge> i. outage_label j = LHandler" by (intro exI [of _ "2 * Suc i"]) (simp add: outage_label_def)
  show "\<exists>j \<ge> i. outage_label j = LSend" by (intro exI [of _ "2 * i + 1"]) (simp add: outage_label_def)
qed

theorem lost_connection_replaced_witness:
  "\<exists>k conn ch. cl_conn (rs_client (outage_run k)) = Some conn \<and> GetChannel (rs_client (outage_run k)) = Inr ch \<and>
     rs_pc (outage_run k) = Waiting \<and> 0 < k"
proof -
  have "available_from outage_env 3"
    by (auto simp: available_from_def outage_env_def plain_env_def split: amqp_call.splits)
  moreover have "rs_pc (outage_run 0) = Waiting" "\<not> cl_closed (rs_client (outage_run 0))"
    "outage_label 0 = LFire 1 2 (Some ErrNoConnection)"
    by (simp_all add: served_def started_def fresh_client_def outage_label_def)
  ultimately show ?thesis
    using lost_connection_replaced [OF outage_run_fair, of 3 1 2 ErrNoConnection] by (metis gr_zeroI not_less_zero)
qed

end
