(* ===== verification/Publisher.thy ===== *)
theory Publisher
  imports Client "HOL-Library.AList"
begin

text \<open>
  The publisher of \<open>internal/broker/publisher.go\<close>: the table of pending confirmations, the
  confirmation processor, the reset after a reconnect, \<open>Publish\<close> and \<open>PublishBatchPipeline\<close>.
  A result channel (\<open>make(chan bool, 1)\<close>) is its buffer and whether it is closed; closing or
  sending on a closed channel panics and sending on a full one blocks, so the operations
  return an \<open>exec\<close>. What other goroutines do while a call is between two of its critical
  sections is a list of background events, one per critical section of the processor, of
  another \<open>Publish\<close> or of a reset; the theorems quantify over all such lists. A call has such a
  list after it has taken its tag, after it has registered its entry and while it waits; from its
  entry, through \<open>ensureConfirmsSetup\<close>, to the taking of its tag it runs alone. The client is read at
  the entry and at each send; the further reads of the source, when a reset completes and when the
  channel is fetched, see the client of the entry.
\<close>

section \<open>Executions\<close>

datatype 'a exec = Returns 'a | Panics string | Blocks

fun exec_bind :: "'a exec \<Rightarrow> ('a \<Rightarrow> 'b exec) \<Rightarrow> 'b exec" where
  "exec_bind (Returns x) f = f x"
| "exec_bind (Panics m) f = Panics m"
| "exec_bind Blocks f = Blocks"

lemma exec_bind_Returns [simp]:
  "exec_bind m f = Returns y \<longleftrightarrow> (\<exists>x. m = Returns x \<and> f x = Returns y)"
  by (cases m) auto

fun exec_run :: "('e \<Rightarrow> 's \<Rightarrow> 's exec) \<Rightarrow> 'e list \<Rightarrow> 's \<Rightarrow> 's exec" where
  "exec_run f [] p = Returns p"
| "exec_run f (x # xs) p = exec_bind (f x p) (exec_run f xs)"

text \<open>
  Operations that, from a state satisfying an invariant, always return, in a state that
  satisfies it again: no interleaving of them panics or blocks.
\<close>

locale total_ops =
  fixes step :: "'e \<Rightarrow> 's \<Rightarrow> 's exec"
    and inv :: "'s \<Rightarrow> bool"
  assumes step_total: "inv s \<Longrightarrow> \<exists>s'. step x s = Returns s' \<and> inv s'"
begin

lemma run_total: "inv s \<Longrightarrow> \<exists>s'. exec_run step xs s = Returns s' \<and> inv s'"
proof (induction xs arbitrary: s)
  case Nil
  then show ?case by simp
next
  case (Cons x xs)
  then show ?case using step_total [of s x] by force
qed

lemma run_inv: "inv s \<Longrightarrow> exec_run step xs s = Returns s' \<Longrightarrow> inv s'"
  using run_total [of s xs] by auto

end

section \<open>Result channels\<close>

record rchan =
  rc_buf :: "bool list"
  rc_closed :: bool

record pub =
  pb_pending :: "(tag \<times> nat) list"
  pb_deliveryTag :: tag
  pb_chans :: "nat \<Rightarrow> rchan"
  pb_nchans :: nat
  pb_done :: nat
  pb_doneClosed :: "nat \<Rightarrow> bool"
  pb_ndone :: nat
  pb_started :: bool
  pb_channelID :: "nat option"
  pb_log :: "log_entry list"

definition make_chan :: "pub \<Rightarrow> nat \<times> pub" where
  "make_chan p = (pb_nchans p,
     p\<lparr>pb_nchans := Suc (pb_nchans p),
       pb_chans := (pb_chans p)(pb_nchans p := \<lparr>rc_buf = [], rc_closed = False\<rparr>)\<rparr>)"

definition send_chan :: "nat \<Rightarrow> bool \<Rightarrow> pub \<Rightarrow> pub exec" where
  "send_chan c v p =
     (if rc_closed (pb_chans p c) then Panics ''send on closed channel''
      else if rc_buf (pb_chans p c) \<noteq> [] then Blocks
      else Returns (p\<lparr>pb_chans := (pb_chans p)(c := (pb_chans p c)\<lparr>rc_buf := [v]\<rparr>)\<rparr>))"

definition close_chan :: "nat \<Rightarrow> pub \<Rightarrow> pub exec" where
  "close_chan c p =
     (if rc_closed (pb_chans p c) then Panics ''close of closed channel''
      else Returns (p\<lparr>pb_chans := (pb_chans p)(c := (pb_chans p c)\<lparr>rc_closed := True\<rparr>)\<rparr>))"

fun close_all :: "nat list \<Rightarrow> pub \<Rightarrow> pub exec" where
  "close_all [] p = Returns p"
| "close_all (c # cs) p = exec_bind (close_chan c p) (close_all cs)"

datatype received = Got bool | GotClosed | NotReady

definition recv_chan :: "nat \<Rightarrow> pub \<Rightarrow> received" where
  "recv_chan c p =
     (case rc_buf (pb_chans p c) of
        v # _ \<Rightarrow> Got v
      | [] \<Rightarrow> if rc_closed (pb_chans p c) then GotClosed else NotReady)"

section \<open>Critical sections\<close>

text \<open>
  Registering a message is two critical sections: the atomic increment of the delivery tag,
  and then, under the mutex, the table entry with a fresh result channel.
\<close>

definition nextTag :: "pub \<Rightarrow> tag \<times> pub" where
  "nextTag p = (pb_deliveryTag p + 1, p\<lparr>pb_deliveryTag := pb_deliveryTag p + 1\<rparr>)"

definition registerPending :: "tag \<Rightarrow> pub \<Rightarrow> nat \<times> pub" where
  "registerPending t p =
     (case make_chan p of (c, p1) \<Rightarrow> (c, p1\<lparr>pb_pending := AList.update t c (pb_pending p1)\<rparr>))"

definition deletePending :: "tag \<Rightarrow> pub \<Rightarrow> pub" where
  "deletePending t p = p\<lparr>pb_pending := AList.delete t (pb_pending p)\<rparr>"

text \<open>One confirmation read by \<open>processConfirmations\<close>, and the close of the confirmation stream.\<close>

definition processConfirmation :: "tag \<Rightarrow> bool \<Rightarrow> pub \<Rightarrow> pub exec" where
  "processConfirmation t ack p =
     (case map_of (pb_pending p) t of
        Some c \<Rightarrow> exec_bind (send_chan c ack p) (\<lambda>p1.
                  exec_bind (close_chan c p1) (\<lambda>p2. Returns (deletePending t p2)))
      | None \<Rightarrow> Returns (p\<lparr>pb_log := pb_log p @
          [\<lparr>log_level = LWarn,
            log_msg = ''Publisher: Received unexpected confirmation for delivery tag'',
            log_fields = [(''delivery_tag'', VUint64 t)]\<rparr>]\<rparr>))"

definition clearPending :: "pub \<Rightarrow> pub exec" where
  "clearPending p =
     exec_bind (close_all (map snd (pb_pending p)) p) (\<lambda>p1. Returns (p1\<lparr>pb_pending := []\<rparr>))"

text \<open>The locked part of \<open>ensureConfirmsSetup\<close> when the channel has changed.\<close>

definition confirmReset :: "nat option \<Rightarrow> pub \<Rightarrow> pub exec" where
  "confirmReset current p =
     (let p1 = (if pb_started p
                then p\<lparr>pb_done := pb_ndone p, pb_ndone := Suc (pb_ndone p), pb_started := False\<rparr>
                else p)
      in exec_bind (clearPending (p1\<lparr>pb_deliveryTag := 0\<rparr>))
           (\<lambda>p2. Returns (p2\<lparr>pb_channelID := current\<rparr>)))"

definition close_done :: "nat \<Rightarrow> pub \<Rightarrow> pub exec" where
  "close_done d p =
     (if pb_doneClosed p d then Panics ''close of closed channel''
      else Returns (p\<lparr>pb_doneClosed := (pb_doneClosed p)(d := True)\<rparr>))"

section \<open>Set-up, close and reset\<close>

definition setupConfirms :: "env \<Rightarrow> client \<Rightarrow> pub \<Rightarrow> world \<Rightarrow> pub \<times> world" where
  "setupConfirms e cl p w =
     (case cl_channel cl of
        None \<Rightarrow> (p, w)
      | Some ch \<Rightarrow>
          (p\<lparr>pb_started := True\<rparr>,
           log LDebug ''Publisher: High-performance confirms enabled'' []
             (snd (call e (NotifyPublish ch) w))))"

definition NewPublisher :: "env \<Rightarrow> client \<Rightarrow> world \<Rightarrow> pub \<times> world" where
  "NewPublisher e cl w =
     (let p = \<lparr>pb_pending = [], pb_deliveryTag = 0,
               pb_chans = (\<lambda>_. \<lparr>rc_buf = [], rc_closed = False\<rparr>), pb_nchans = 0,
               pb_done = 0, pb_doneClosed = (\<lambda>_. False), pb_ndone = 1, pb_started = False,
               pb_channelID = (if PublisherConfirms (cl_config cl) then cl_channel cl else None),
               pb_log = []\<rparr>
      in if PublisherConfirms (cl_config cl) then setupConfirms e cl p w else (p, w))"

definition ensureConfirmsSetup :: "env \<Rightarrow> client \<Rightarrow> pub \<Rightarrow> world \<Rightarrow> (pub \<times> world) exec" where
  "ensureConfirmsSetup e cl p w =
     (let current = cl_channel cl
      in if \<not> PublisherConfirms (cl_config cl) then Returns (p, w)
         else if current = pb_channelID p then Returns (p, w)
         else
           (let oldDone = pb_done p
            in exec_bind (confirmReset current p) (\<lambda>p1.
               exec_bind (close_done oldDone p1) (\<lambda>p2.
                 case current of
                   None \<Rightarrow> Returns (p2, w)
                 | Some ch \<Rightarrow>
                     Returns (p2\<lparr>pb_started := True\<rparr>,
                       log LDebug ''Publisher: Confirms re-initialized after reconnection'' []
                         (snd (call e (NotifyPublish ch) w)))))))"

definition publisher_Close :: "pub \<Rightarrow> pub exec" where
  "publisher_Close p =
     (if pb_started p
      then exec_bind (close_done (pb_done p) p) (\<lambda>p1. Returns (p1\<lparr>pb_started := False\<rparr>))
      else Returns p)"

section \<open>Background events\<close>

text \<open>
  What may happen to the publisher between two critical sections of a call: the processor
  routes a confirmation or sees its stream closed, another call takes a tag, stores an entry
  (for a tag it took at any earlier time) or removes one, or another call resets the table after a
  reconnect. A \<open>BgReset\<close> is the locked part of that call's reset; what it does after the unlock
  (closing the old \<open>done\<close> channel, a new stream and processor) is in \<open>Confirm_Processors\<close>.
\<close>

datatype bg_event =
    BgConfirm tag bool
  | BgConfirmsClosed
  | BgNextTag
  | BgStore tag
  | BgForget tag
  | BgReset "nat option"

fun bg_step :: "bg_event \<Rightarrow> pub \<Rightarrow> pub exec" where
  "bg_step (BgConfirm t ack) p = processConfirmation t ack p"
| "bg_step BgConfirmsClosed p = clearPending p"
| "bg_step BgNextTag p = Returns (snd (nextTag p))"
| "bg_step (BgStore t) p = Returns (snd (registerPending t p))"
| "bg_step (BgForget t) p = Returns (deletePending t p)"
| "bg_step (BgReset current) p = confirmReset current p"

abbreviation bg_run :: "bg_event list \<Rightarrow> pub \<Rightarrow> pub exec" where
  "bg_run \<equiv> exec_run bg_step"

section \<open>Publish\<close>

text \<open>Which case of the \<open>select\<close> runs; the timer fires in the end if the channel never gets ready.\<close>

datatype wake = WResult | WTimeout | WCtx goerror

definition await :: "nat \<Rightarrow> wake \<Rightarrow> pub \<Rightarrow> goerror option" where
  "await c wk p =
     (case wk of
        WResult \<Rightarrow> (case recv_chan c p of
                      Got ack \<Rightarrow> if ack then None else Some ErrPublishNotConfirmed
                    | GotClosed \<Rightarrow> Some ErrPublishConfirmTimeout
                    | NotReady \<Rightarrow> Some ErrPublishConfirmTimeout)
      | WTimeout \<Rightarrow> Some ErrPublishConfirmTimeout
      | WCtx x \<Rightarrow> Some x)"

text \<open>The log lines of the wait: a closed channel, a negative confirmation, a timeout.\<close>

definition await_log :: "string \<Rightarrow> string \<Rightarrow> tag \<Rightarrow> duration \<Rightarrow> nat \<Rightarrow> wake \<Rightarrow> pub \<Rightarrow> world \<Rightarrow> world" where
  "await_log exchange routingKey t timeout c wk p w =
     (let fields = [(''exchange'', VString exchange), (''routing_key'', VString routingKey)];
          tagged = fields @ [(''delivery_tag'', VUint64 t)];
          timed_out = log LError ''Publisher: Confirmation timeout''
            (tagged @ [(''timeout'', VDuration timeout)]) w
      in case wk of
           WResult \<Rightarrow> (case recv_chan c p of
                         Got ack \<Rightarrow>
                           if ack then w
                           else log LError ''Publisher: Message not confirmed (NACK)'' tagged w
                       | GotClosed \<Rightarrow> log LWarn ''Publisher: Confirmation channel closed'' fields w
                       | NotReady \<Rightarrow> timed_out)
         | WTimeout \<Rightarrow> timed_out
         | WCtx x \<Rightarrow> w)"

text \<open>
  Sending on the client's channel as it is at that moment; the method panics on a nil channel.
\<close>

definition channel_publish :: "env \<Rightarrow> client \<Rightarrow> string \<Rightarrow> string \<Rightarrow> publishing \<Rightarrow> world \<Rightarrow>
    (goerror option \<times> world) exec" where
  "channel_publish e cl exchange routingKey msg w =
     (case cl_channel cl of
        None \<Rightarrow> Panics ''nil pointer dereference''
      | Some ch \<Rightarrow>
          Returns (call_err e (PublishWithContext ch exchange routingKey False False msg
                     (map_snapshot (w_heap w) (p_Headers msg))) w))"

text \<open>
  \<open>Publish\<close>. The client may reconnect during the call: \<open>cl\<close> is the client as the call finds it,
  \<open>sc_client\<close> as it is when the message is sent. \<open>sc_pre\<close> happen between taking the delivery
  tag and storing the entry, \<open>sc_mid\<close> between that and sending the message, \<open>sc_wait\<close> between
  sending it and the end of the wait. The deferred cleanup runs on
  every return but the one after a positive confirmation.
\<close>

record publish_script =
  sc_client :: client
  sc_pre :: "bg_event list"
  sc_mid :: "bg_event list"
  sc_wait :: "bg_event list"
  sc_wake :: wake

definition Publish :: "env \<Rightarrow> client \<Rightarrow> publish_script \<Rightarrow> string \<Rightarrow> string \<Rightarrow> publishing \<Rightarrow>
    pub \<Rightarrow> world \<Rightarrow> (goerror option \<times> pub \<times> world) exec" where
  "Publish e cl sc exchange routingKey msg p w =
     exec_bind (ensureConfirmsSetup e cl p w) (\<lambda>(p0, w0).
       if cl_closed cl then Returns (Some ErrClientClosed, p0, w0)
       else if cl_channel cl = None then Returns (Some ErrNoChannel, p0, w0)
       else if \<not> PublisherConfirms (cl_config cl) then
         exec_bind (channel_publish e (sc_client sc) exchange routingKey msg w0) (\<lambda>(r, w1).
           case r of
             Some err \<Rightarrow> Returns (Some (NewPublishError exchange routingKey (Some err)), p0, w1)
           | None \<Rightarrow> Returns (None, p0, w1))
       else
         (let (t, pt) = nextTag p0
          in exec_bind (bg_run (sc_pre sc) pt) (\<lambda>pr.
             let (c, p1) = registerPending t pr in
             exec_bind (bg_run (sc_mid sc) p1) (\<lambda>p2.
             exec_bind (channel_publish e (sc_client sc) exchange routingKey msg w0) (\<lambda>(r, w1).
               case r of
                 Some err \<Rightarrow>
                   Returns (Some (NewPublishError exchange routingKey (Some err)), deletePending t p2, w1)
               | None \<Rightarrow>
                   exec_bind (bg_run (sc_wait sc) p2) (\<lambda>p3.
                     let x = await c (sc_wake sc) p3;
                         w2 = await_log exchange routingKey t (ConfirmTimeout (cl_config cl)) c
                                (sc_wake sc) p3 w1
                     in Returns (x, (if x = None then p3 else deletePending t p3), w2)))))))"

section \<open>Pipelined batches\<close>

record PublishMessage =
  pm_Exchange :: string
  pm_RoutingKey :: string
  pm_Message :: publishing

text \<open>The zero value of the struct, which \<open>make\<close> fills a slice with.\<close>

definition zero_PublishMessage :: PublishMessage where
  "zero_PublishMessage = \<lparr>pm_Exchange = [], pm_RoutingKey = [], pm_Message = zero_publishing\<rparr>"

text \<open>
  For message \<open>i\<close>: what happens before its tag is taken, before its entry is stored, between
  that and sending it, and while its confirmation is awaited; the client when it is sent; how its wait ends.
\<close>

record batch_script =
  bs_gap :: "nat \<Rightarrow> bg_event list"
  bs_pre :: "nat \<Rightarrow> bg_event list"
  bs_mid :: "nat \<Rightarrow> bg_event list"
  bs_client :: "nat \<Rightarrow> client"
  bs_wait :: "nat \<Rightarrow> bg_event list"
  bs_wake :: "nat \<Rightarrow> wake"

text \<open>The loop without confirms.\<close>

fun batch_plain :: "env \<Rightarrow> batch_script \<Rightarrow> nat \<Rightarrow> PublishMessage list \<Rightarrow> world \<Rightarrow>
    (goerror option list \<times> world) exec" where
  "batch_plain e sc i [] w = Returns ([], w)"
| "batch_plain e sc i (m # ms) w =
     exec_bind (channel_publish e (bs_client sc i) (pm_Exchange m) (pm_RoutingKey m) (pm_Message m) w)
       (\<lambda>(r, w1). exec_bind (batch_plain e sc (Suc i) ms w1) (\<lambda>(rs, w2).
          Returns (map_option (\<lambda>err. NewPublishError (pm_Exchange m) (pm_RoutingKey m) (Some err)) r # rs,
                   w2)))"

text \<open>The sending loop: the error slot, the delivery tag and the result channel of each message.\<close>

fun batch_send :: "env \<Rightarrow> batch_script \<Rightarrow> nat \<Rightarrow> PublishMessage list \<Rightarrow> pub \<Rightarrow> world \<Rightarrow>
    ((goerror option \<times> tag \<times> nat) list \<times> pub \<times> world) exec" where
  "batch_send e sc i [] p w = Returns ([], p, w)"
| "batch_send e sc i (m # ms) p w =
     exec_bind (bg_run (bs_gap sc i) p) (\<lambda>p0.
       case nextTag p0 of (t, pt) \<Rightarrow>
       exec_bind (bg_run (bs_pre sc i) pt) (\<lambda>pr.
       case registerPending t pr of (c, p1) \<Rightarrow>
       exec_bind (bg_run (bs_mid sc i) p1) (\<lambda>p2.
       exec_bind (channel_publish e (bs_client sc i) (pm_Exchange m) (pm_RoutingKey m) (pm_Message m) w)
         (\<lambda>(r, w1).
           case r of
             Some err \<Rightarrow>
               exec_bind (close_chan c (deletePending t p2)) (\<lambda>p3.
               exec_bind (batch_send e sc (Suc i) ms p3 w1) (\<lambda>(rs, p4, w2).
                 Returns ((Some (NewPublishError (pm_Exchange m) (pm_RoutingKey m) (Some err)), t, c) # rs,
                          p4, w2)))
           | None \<Rightarrow>
               exec_bind (batch_send e sc (Suc i) ms p2 w1) (\<lambda>(rs, p4, w2).
                 Returns ((None, t, c) # rs, p4, w2))))))"

definition timer_fired :: "nat \<Rightarrow> wake \<Rightarrow> pub \<Rightarrow> bool" where
  "timer_fired c wk p \<longleftrightarrow> wk = WTimeout \<or> (wk = WResult \<and> recv_chan c p = NotReady)"

text \<open>
  The waiting loop. A cancelled context returns at once, with the error slots as they are and
  the table entries of the remaining messages still in place.
\<close>

fun batch_wait :: "batch_script \<Rightarrow> nat \<Rightarrow> (goerror option \<times> tag \<times> nat) list \<Rightarrow> pub \<Rightarrow>
    (goerror option list \<times> goerror option \<times> pub) exec" where
  "batch_wait sc i [] p = Returns ([], None, p)"
| "batch_wait sc i ((Some x, t, c) # rs) p =
     exec_bind (batch_wait sc (Suc i) rs p) (\<lambda>(xs, fatal, p1). Returns (Some x # xs, fatal, p1))"
| "batch_wait sc i ((None, t, c) # rs) p =
     exec_bind (bg_run (bs_wait sc i) p) (\<lambda>p1.
       case bs_wake sc i of
         WCtx x \<Rightarrow> Returns (None # map fst rs, Some x, p1)
       | _ \<Rightarrow>
           exec_bind (batch_wait sc (Suc i) rs
               (if timer_fired c (bs_wake sc i) p1 then deletePending t p1 else p1))
             (\<lambda>(xs, fatal, p2). Returns (await c (bs_wake sc i) p1 # xs, fatal, p2)))"

definition PublishBatchPipeline :: "env \<Rightarrow> client \<Rightarrow> batch_script \<Rightarrow> PublishMessage list \<Rightarrow>
    pub \<Rightarrow> world \<Rightarrow> ((goerror option list \<times> goerror option) \<times> pub \<times> world) exec" where
  "PublishBatchPipeline e cl sc messages p w =
     (if messages = [] then Returns (([], None), p, w)
      else exec_bind (ensureConfirmsSetup e cl p w) (\<lambda>(p0, w0).
        if cl_closed cl then Returns (([], Some ErrClientClosed), p0, w0)
        else if cl_channel cl = None then Returns (([], Some ErrNoChannel), p0, w0)
        else if \<not> PublisherConfirms (cl_config cl) then
          exec_bind (batch_plain e sc 0 messages w0) (\<lambda>(xs, w1). Returns ((xs, None), p0, w1))
        else
          exec_bind (batch_send e sc 0 messages p0 w0) (\<lambda>(rs, p1, w1).
          exec_bind (batch_wait sc 0 rs p1) (\<lambda>(xs, fatal, p2). Returns ((xs, fatal), p2, w1)))))"

section \<open>The table invariant\<close>

text \<open>
  Every pending entry has its own channel, open and empty. So the processor can always send
  to it without blocking and close it without panicking, while it holds the mutex.
\<close>

abbreviation pending_chans :: "pub \<Rightarrow> nat set" where
  "pending_chans p \<equiv> snd ` set (pb_pending p)"

definition chan_open :: "pub \<Rightarrow> nat \<Rightarrow> bool" where
  "chan_open p c \<longleftrightarrow> c < pb_nchans p \<and> pb_chans p c = \<lparr>rc_buf = [], rc_closed = False\<rparr>"

definition pub_inv :: "pub \<Rightarrow> bool" where
  "pub_inv p \<longleftrightarrow> distinct (map fst (pb_pending p)) \<and> distinct (map snd (pb_pending p)) \<and>
     (\<forall>c \<in> pending_chans p. chan_open p c)"

lemma snd_update_subset: "snd ` set (AList.update k v al) \<subseteq> insert v (snd ` set al)"
  by (induction al) auto

lemma distinct_snd_update:
  "distinct (map snd al) \<Longrightarrow> v \<notin> snd ` set al \<Longrightarrow> distinct (map snd (AList.update k v al))"
proof (induction al)
  case Nil
  then show ?case by simp
next
  case (Cons a al)
  then show ?case using snd_update_subset [of k v al] by (cases a) auto
qed

lemma set_delete: "set (AList.delete t al) = {x \<in> set al. fst x \<noteq> t}"
  by (auto simp: AList.delete_eq)

lemma distinct_delete_snd: "distinct (map snd al) \<Longrightarrow> distinct (map snd (AList.delete t al))"
  by (induction al) (auto simp: AList.delete_eq)

lemma set_update_sub: "x \<in> set (AList.update k v al) \<Longrightarrow> x = (k, v) \<or> x \<in> set al"
  by (induction al) (auto split: if_splits)

lemma set_update_subset: "set (AList.update k v al) \<subseteq> insert (k, v) (set al)"
  using set_update_sub by fast

lemma registerPending_simps:
  assumes "registerPending t p = (c, p1)"
  shows "c = pb_nchans p" "pb_nchans p1 = Suc (pb_nchans p)"
    "pb_pending p1 = AList.update t c (pb_pending p)"
    "pb_chans p1 = (pb_chans p)(c := \<lparr>rc_buf = [], rc_closed = False\<rparr>)"
    "pb_deliveryTag p1 = pb_deliveryTag p"
  using assms by (auto simp: registerPending_def make_chan_def)

lemma pub_inv_fresh: "pub_inv p \<Longrightarrow> pb_nchans p \<notin> pending_chans p"
  by (auto simp: pub_inv_def chan_open_def)

lemma registerPending_inv [inv_intros]:
  assumes "pub_inv p" "registerPending t p = (c, p1)"
  shows "pub_inv p1"
proof -
  note r = registerPending_simps [OF assms(2)]
  have fresh: "c \<notin> pending_chans p"
    using pub_inv_fresh [OF assms(1)] r(1) by simp
  have "chan_open p1 d" if "d \<in> pending_chans p1" for d
  proof (cases "d = c")
    case True
    then show ?thesis by (simp add: chan_open_def r)
  next
    case False
    then have "d \<in> pending_chans p"
      using that snd_update_subset [of t c "pb_pending p"] unfolding r(3) by blast
    then have "chan_open p d" using assms(1) unfolding pub_inv_def by blast
    with False show ?thesis by (simp add: chan_open_def r)
  qed
  moreover have "distinct (map fst (pb_pending p1))" "distinct (map snd (pb_pending p1))"
    using assms(1) fresh by (simp_all add: pub_inv_def r(3) distinct_update distinct_snd_update)
  ultimately show ?thesis by (simp add: pub_inv_def)
qed

lemma deletePending_inv [inv_intros]: "pub_inv p \<Longrightarrow> pub_inv (deletePending t p)"
  by (auto simp: pub_inv_def deletePending_def set_delete chan_open_def distinct_delete
      distinct_delete_snd)

lemma nextTag_inv [inv_intros]: "pub_inv p \<Longrightarrow> pub_inv (snd (nextTag p))"
  by (simp add: pub_inv_def nextTag_def chan_open_def)

text \<open>The processor's critical sections in closed form: they return, whatever they find.\<close>

lemma processConfirmation_hit:
  assumes "pub_inv p" "map_of (pb_pending p) t = Some c"
  shows "processConfirmation t ack p =
    Returns (p\<lparr>pb_chans := (pb_chans p)(c := \<lparr>rc_buf = [ack], rc_closed = True\<rparr>),
               pb_pending := AList.delete t (pb_pending p)\<rparr>)"
proof -
  have "(t, c) \<in> set (pb_pending p)" using assms(2) by (rule map_of_SomeD)
  then have "chan_open p c" using assms(1) by (force simp: pub_inv_def)
  then show ?thesis
    by (simp add: processConfirmation_def assms(2) send_chan_def close_chan_def deletePending_def
        chan_open_def)
qed

lemma close_all_open:
  "distinct cs \<Longrightarrow> \<forall>c \<in> set cs. \<not> rc_closed (pb_chans p c) \<Longrightarrow>
   close_all cs p = Returns (p\<lparr>pb_chans := (\<lambda>c. if c \<in> set cs then (pb_chans p c)\<lparr>rc_closed := True\<rparr>
                                             else pb_chans p c)\<rparr>)"
proof (induction cs arbitrary: p)
  case Nil
  then show ?case by simp
next
  case (Cons c cs)
  let ?p = "p\<lparr>pb_chans := (pb_chans p)(c := (pb_chans p c)\<lparr>rc_closed := True\<rparr>)\<rparr>"
  have "close_all cs ?p = Returns (?p\<lparr>pb_chans := (\<lambda>d. if d \<in> set cs
      then (pb_chans ?p d)\<lparr>rc_closed := True\<rparr> else pb_chans ?p d)\<rparr>)"
    using Cons.prems by (intro Cons.IH) auto
  moreover have "(\<lambda>d. if d \<in> set cs then (pb_chans ?p d)\<lparr>rc_closed := True\<rparr> else pb_chans ?p d) =
      (\<lambda>d. if d \<in> set (c # cs) then (pb_chans p d)\<lparr>rc_closed := True\<rparr> else pb_chans p d)"
    using Cons.prems by (auto simp: fun_eq_iff)
  ultimately show ?case using Cons.prems by (simp add: close_chan_def)
qed

lemma clearPending_eq:
  assumes "pub_inv p"
  shows "clearPending p =
    Returns (p\<lparr>pb_chans := (\<lambda>c. if c \<in> pending_chans p then (pb_chans p c)\<lparr>rc_closed := True\<rparr>
                                else pb_chans p c),
               pb_pending := []\<rparr>)"
proof -
  have "\<forall>c \<in> set (map snd (pb_pending p)). \<not> rc_closed (pb_chans p c)"
    using assms by (simp add: pub_inv_def chan_open_def)
  then show ?thesis
    using assms by (simp add: clearPending_def close_all_open pub_inv_def)
qed

lemma confirmReset_eq:
  assumes "pub_inv p"
  shows "\<exists>d n s. confirmReset current p =
    Returns (p\<lparr>pb_chans := (\<lambda>c. if c \<in> pending_chans p then (pb_chans p c)\<lparr>rc_closed := True\<rparr>
                                else pb_chans p c),
               pb_pending := [], pb_deliveryTag := 0, pb_done := d, pb_ndone := n, pb_started := s,
               pb_channelID := current\<rparr>)"
proof -
  have "p = p\<lparr>pb_done := pb_done p, pb_ndone := pb_ndone p, pb_started := pb_started p\<rparr>"
    by (cases p) simp
  then obtain d n s where
    p1: "(if pb_started p
          then p\<lparr>pb_done := pb_ndone p, pb_ndone := Suc (pb_ndone p), pb_started := False\<rparr>
          else p) = p\<lparr>pb_done := d, pb_ndone := n, pb_started := s\<rparr>"
    by (cases "pb_started p") (metis (no_types), metis (no_types))
  let ?q = "p\<lparr>pb_done := d, pb_ndone := n, pb_started := s, pb_deliveryTag := 0\<rparr>"
  have "pub_inv ?q" using assms by (simp add: pub_inv_def chan_open_def)
  then have "confirmReset current p =
    Returns (p\<lparr>pb_chans := (\<lambda>c. if c \<in> pending_chans p then (pb_chans p c)\<lparr>rc_closed := True\<rparr>
                                else pb_chans p c),
               pb_pending := [], pb_deliveryTag := 0, pb_done := d, pb_ndone := n, pb_started := s,
               pb_channelID := current\<rparr>)"
    unfolding confirmReset_def p1 
    by (cases p) (simp add: clearPending_eq fun_eq_iff cong: if_cong)
  then show ?thesis by blast
qed

lemma processConfirmation_inv:
  assumes "pub_inv p"
  shows "\<exists>p'. processConfirmation t v p = Returns p' \<and> pub_inv p'"
proof (cases "map_of (pb_pending p) t")
  case None
  then show ?thesis using assms by (simp add: processConfirmation_def pub_inv_def chan_open_def)
next
  case (Some d)
  have mem: "(t, d) \<in> set (pb_pending p)" using Some by (rule map_of_SomeD)
  have "d \<noteq> d'" if "(k, d') \<in> set (pb_pending p)" "k \<noteq> t" for k d'
  proof -
    have "inj_on snd (set (pb_pending p))" using assms by (simp add: pub_inv_def distinct_map)
    from inj_onD [OF this, of "(t, d)" "(k, d')"] mem that show ?thesis by auto
  qed
  then show ?thesis
    using assms processConfirmation_hit [OF assms Some, of v]
    by (auto simp: pub_inv_def set_delete chan_open_def distinct_delete distinct_delete_snd)
qed

lemma bg_step_inv:
  assumes "pub_inv p"
  shows "\<exists>p'. bg_step x p = Returns p' \<and> pub_inv p'"
proof (cases x)
  case (BgConfirm t v)
  then show ?thesis using processConfirmation_inv [OF assms] by simp
next
  case BgConfirmsClosed
  then show ?thesis using clearPending_eq [OF assms] by (simp add: pub_inv_def)
next
  case BgNextTag
  then show ?thesis using nextTag_inv [OF assms] by simp
next
  case (BgStore t)
  then show ?thesis using registerPending_inv [OF assms, of t] by (cases "registerPending t p") simp
next
  case (BgForget t)
  then show ?thesis using deletePending_inv [OF assms] by simp
next
  case (BgReset k)
  then show ?thesis using confirmReset_eq [OF assms, of k] by (auto simp: pub_inv_def)
qed

interpretation bg_table: total_ops bg_step pub_inv
  by unfold_locales (rule bg_step_inv)

section \<open>Who may touch a result channel\<close>

text \<open>
  \<open>c\<close> is the result channel of a call that registered tag \<open>t\<close>: no other entry leads to it.
  Only a confirmation of \<open>t\<close> can put a value into it.
\<close>

definition owned :: "tag \<Rightarrow> nat \<Rightarrow> pub \<Rightarrow> bool" where
  "owned t c p \<longleftrightarrow> pub_inv p \<and> c < pb_nchans p \<and> (\<forall>t'. (t', c) \<in> set (pb_pending p) \<longrightarrow> t' = t)"

text \<open>
  What one background event does, seen from channel \<open>c\<close>: it keeps ownership, and either the
  channel is unchanged, or it got the answer of \<open>t\<close>, or it was closed without one.
\<close>

definition chan_step :: "tag \<Rightarrow> nat \<Rightarrow> bg_event \<Rightarrow> pub \<Rightarrow> pub \<Rightarrow> bool" where
  "chan_step t c x p p' \<longleftrightarrow>
     (pb_chans p' c = pb_chans p c \<and> (c \<notin> pending_chans p \<longrightarrow> c \<notin> pending_chans p')) \<or>
     (c \<in> pending_chans p \<and> c \<notin> pending_chans p' \<and>
       ((\<exists>v. x = BgConfirm t v \<and> pb_chans p' c = \<lparr>rc_buf = [v], rc_closed = True\<rparr>) \<or>
        ((x = BgConfirmsClosed \<or> (\<exists>k. x = BgReset k)) \<and>
          pb_chans p' c = \<lparr>rc_buf = [], rc_closed = True\<rparr>)))"

lemma owned_confirm:
  assumes "owned t c p"
  shows "\<exists>p'. processConfirmation k v p = Returns p' \<and> owned t c p' \<and> chan_step t c (BgConfirm k v) p p'"
proof (cases "map_of (pb_pending p) k")
  case None
  then show ?thesis
    using assms
    by (simp add: processConfirmation_def owned_def chan_step_def pub_inv_def chan_open_def)
next
  case (Some d)
  have inv: "pub_inv p" using assms by (simp add: owned_def)
  have mem: "(k, d) \<in> set (pb_pending p)" using Some by (rule map_of_SomeD)
  let ?p = "p\<lparr>pb_chans := (pb_chans p)(d := \<lparr>rc_buf = [v], rc_closed = True\<rparr>),
              pb_pending := AList.delete k (pb_pending p)\<rparr>"
  have other: "d \<noteq> d'" if "(k', d') \<in> set (pb_pending p)" "k' \<noteq> k" for k' d'
  proof -
    have "inj_on snd (set (pb_pending p))" using inv by (simp add: pub_inv_def distinct_map)
    from inj_onD [OF this, of "(k, d)" "(k', d')"] mem that show ?thesis by auto
  qed
  have "pub_inv ?p"
    using processConfirmation_inv [OF inv, of k v] processConfirmation_hit [OF inv Some, of v] by simp
  then have "owned t c ?p" using assms by (auto simp: owned_def set_delete)
  moreover have "chan_step t c (BgConfirm k v) p ?p"
  proof (cases "d = c")
    case True
    then have "k = t" using assms mem by (auto simp: owned_def)
    moreover have "c \<in> pending_chans p" using mem True by force
    moreover have "c \<notin> pending_chans ?p" using other [of _ c] True by (fastforce simp: set_delete)
    ultimately show ?thesis using True by (simp add: chan_step_def)
  next
    case False
    moreover have "c \<notin> pending_chans p \<Longrightarrow> c \<notin> pending_chans ?p" by (auto simp: set_delete)
    ultimately show ?thesis by (simp add: chan_step_def)
  qed
  ultimately show ?thesis using processConfirmation_hit [OF inv Some, of v] by blast
qed

lemma owned_clear:
  assumes "owned t c p" "q = p\<lparr>pb_chans := (\<lambda>c. if c \<in> pending_chans p then (pb_chans p c)\<lparr>rc_closed := True\<rparr>
      else pb_chans p c), pb_pending := [], pb_deliveryTag := g, pb_done := d, pb_ndone := n,
      pb_started := s, pb_channelID := i\<rparr>"
    "x = BgConfirmsClosed \<or> (\<exists>k. x = BgReset k)"
  shows "owned t c q \<and> chan_step t c x p q"
proof -
  have "c \<in> pending_chans p \<Longrightarrow> chan_open p c"
    using assms(1) unfolding owned_def pub_inv_def by blast
  with assms show ?thesis
    by (auto simp: owned_def pub_inv_def chan_step_def chan_open_def)
qed

lemma owned_step:
  assumes "owned t c p"
  shows "\<exists>p'. bg_step x p = Returns p' \<and> owned t c p' \<and> chan_step t c x p p'"
proof (cases x)
  case (BgConfirm k v)
  then show ?thesis using owned_confirm [OF assms] by simp
next
  case BgConfirmsClosed
  have "pub_inv p" using assms by (simp add: owned_def)
  from clearPending_eq [OF this] show ?thesis
    using owned_clear [OF assms, where g = "pb_deliveryTag p" and d = "pb_done p" and x = x
        and n = "pb_ndone p" and s = "pb_started p" and i = "pb_channelID p"] BgConfirmsClosed
    by simp
next
  case (BgReset k)
  have "pub_inv p" using assms by (simp add: owned_def)
  from confirmReset_eq [OF this, of k] show ?thesis
    using owned_clear [OF assms, where g = 0 and i = k and x = x] BgReset by auto
next
  case BgNextTag
  then show ?thesis
    using assms by (simp add: owned_def chan_step_def nextTag_def pub_inv_def chan_open_def)
next
  case (BgForget k)
  then show ?thesis
    using assms deletePending_inv [of p k]
    by (auto simp: owned_def chan_step_def deletePending_def set_delete)
next
  case (BgStore k)
  obtain d p1 where r: "registerPending k p = (d, p1)" by fastforce
  note rs = registerPending_simps [OF r]
  have c: "c < pb_nchans p" "c \<noteq> d" using assms by (simp_all add: owned_def rs(1))
  have mem: "(t', c) \<in> set (pb_pending p)" if "(t', c) \<in> set (pb_pending p1)" for t'
    using set_update_sub [of "(t', c)" k d "pb_pending p"] that c(2) by (simp add: rs(3))
  have "owned t c p1"
    using assms registerPending_inv [OF _ r] mem c(1) by (auto simp: owned_def rs(2))
  moreover have "chan_step t c x p p1"
    using c(2) mem by (force simp: chan_step_def rs(4))
  ultimately show ?thesis using BgStore r by simp
qed

interpretation bg_owned: total_ops bg_step "owned t c" for t c
  by unfold_locales (use owned_step in blast)

text \<open>Once its entry is gone, nothing touches the channel any more.\<close>

definition settled :: "tag \<Rightarrow> nat \<Rightarrow> rchan \<Rightarrow> pub \<Rightarrow> bool" where
  "settled t c ch p \<longleftrightarrow> owned t c p \<and> c \<notin> pending_chans p \<and> pb_chans p c = ch"

interpretation bg_settled: total_ops bg_step "settled t c ch" for t c ch
proof
  fix s x assume "settled t c ch s"
  then have *: "owned t c s" "c \<notin> pending_chans s" "pb_chans s c = ch" by (simp_all add: settled_def)
  from owned_step [OF *(1)] obtain s' where
    "bg_step x s = Returns s'" "owned t c s'" "chan_step t c x s s'" by blast
  with * show "\<exists>s'. bg_step x s = Returns s' \<and> settled t c ch s'"
    unfolding settled_def chan_step_def by auto
qed

text \<open>
  Along a run of background events: a value found in the channel afterwards was put there by a
  confirmation of the call's own tag, and the entry is gone.
\<close>

lemma run_buffer:
  assumes "owned t c p" "bg_run xs p = Returns p'"
    "recv_chan c p' = Got v" "chan_open p c"
  shows "BgConfirm t v \<in> set xs \<and> c \<notin> pending_chans p'"
  using assms
proof (induction xs arbitrary: p)
  case Nil
  then show ?case by (simp add: chan_open_def recv_chan_def)
next
  case (Cons x xs)
  obtain p1 where 1: "bg_step x p = Returns p1" "owned t c p1" "chan_step t c x p p1"
    using owned_step [OF Cons.prems(1)] by blast
  have run: "bg_run xs p1 = Returns p'" using Cons.prems(2) 1(1) by simp
  show ?case
  proof (cases "chan_open p1 c")
    case True
    then show ?thesis using Cons.IH [OF 1(2) run Cons.prems(3)] by simp
  next
    case False
    then have now: "c \<notin> pending_chans p1"
      "(\<exists>w. x = BgConfirm t w \<and> rc_buf (pb_chans p1 c) = [w]) \<or> rc_buf (pb_chans p1 c) = []"
      using 1(2,3) Cons.prems(4) by (auto simp: chan_step_def chan_open_def owned_def)
    then have "settled t c (pb_chans p1 c) p1" using 1(2) by (simp add: settled_def)
    then have "settled t c (pb_chans p1 c) p'" by (rule bg_settled.run_inv [OF _ run])
    then show ?thesis using now Cons.prems(3) by (auto simp: settled_def recv_chan_def split: if_splits)
  qed
qed

text \<open>Events that leave the entry of \<open>t\<close> alone, and the delivery of its confirmation after them.\<close>

fun quiet :: "tag \<Rightarrow> bg_event \<Rightarrow> bool" where
  "quiet t (BgConfirm k v) = (k \<noteq> t)"
| "quiet t BgConfirmsClosed = False"
| "quiet t BgNextTag = True"
| "quiet t (BgStore k) = (k \<noteq> t)"
| "quiet t (BgForget k) = (k \<noteq> t)"
| "quiet t (BgReset k) = False"

lemma quiet_step:
  assumes "pub_inv p" "quiet t x" "bg_step x p = Returns p'"
  shows "map_of (pb_pending p') t = map_of (pb_pending p) t"
proof (cases x)
  case (BgConfirm k v)
  show ?thesis
  proof (cases "map_of (pb_pending p) k")
    case None
    then show ?thesis using assms BgConfirm by (auto simp: processConfirmation_def)
  next
    case (Some c)
    then have "pb_pending p' = AList.delete k (pb_pending p)"
      using assms(3) BgConfirm processConfirmation_hit [OF assms(1) Some, of v] by auto
    then show ?thesis using assms(2) BgConfirm by simp
  qed
next
  case (BgStore k)
  obtain d p1 where r: "registerPending k p = (d, p1)" by fastforce
  then have "p' = p1" using assms(3) BgStore by simp
  then show ?thesis
    using assms(2) BgStore registerPending_simps(3) [OF r] by (simp add: update_conv')
qed (use assms in \<open>auto simp: nextTag_def deletePending_def delete_conv'\<close>)

lemma quiet_run:
  assumes "pub_inv p" "list_all (quiet t) xs" "bg_run xs p = Returns p'"
  shows "map_of (pb_pending p') t = map_of (pb_pending p) t"
  using assms
proof (induction xs arbitrary: p)
  case Nil
  then show ?case by simp
next
  case (Cons x xs)
  obtain p1 where "bg_step x p = Returns p1" "pub_inv p1" using bg_step_inv [OF Cons.prems(1)] by blast
  with Cons show ?case using quiet_step [OF Cons.prems(1), of t x p1] by simp
qed

lemma run_append: "bg_run (xs @ ys) p = exec_bind (bg_run xs p) (bg_run ys)"
proof (induction xs arbitrary: p)
  case (Cons x xs)
  then show ?case by (cases "bg_step x p") simp_all
qed simp

lemma run_delivers:
  assumes "owned t c p" "map_of (pb_pending p) t = Some c" "list_all (quiet t) xs"
    "bg_run (xs @ BgConfirm t v # ys) p = Returns p'"
  shows "recv_chan c p' = Got v"
proof -
  from assms(4) obtain p1 p2 where
    r: "bg_run xs p = Returns p1" "processConfirmation t v p1 = Returns p2" "bg_run ys p2 = Returns p'"
    by (auto simp: run_append)
  have o1: "owned t c p1" using bg_owned.run_inv [OF assms(1) r(1)] .
  then have inv1: "pub_inv p1" by (simp add: owned_def)
  have m1: "map_of (pb_pending p1) t = Some c"
    using quiet_run [OF _ assms(3) r(1)] assms(1,2) by (simp add: owned_def)
  obtain p3 where p3: "processConfirmation t v p1 = Returns p3" "owned t c p3"
    "chan_step t c (BgConfirm t v) p1 p3"
    using owned_confirm [OF o1] by blast
  have "pb_chans p2 c = \<lparr>rc_buf = [v], rc_closed = True\<rparr>"
    using processConfirmation_hit [OF inv1 m1, of v] r(2) by auto
  moreover have "pb_chans p1 c = \<lparr>rc_buf = [], rc_closed = False\<rparr>"
    using inv1 map_of_SomeD [OF m1] by (force simp: pub_inv_def chan_open_def)
  ultimately have "settled t c \<lparr>rc_buf = [v], rc_closed = True\<rparr> p2"
    using p3 r(2) by (auto simp: settled_def chan_step_def)
  from bg_settled.run_inv [OF this r(3)] show ?thesis by (simp add: settled_def recv_chan_def)
qed

section \<open>What a call of Publish does\<close>

lemma setup_inv:
  assumes "pub_inv p" "ensureConfirmsSetup e cl p w = Returns (p0, w0)"
  shows "pub_inv p0 \<and> set (pb_pending p0) \<subseteq> set (pb_pending p) \<and> w_heap w0 = w_heap w"
  using assms(2) confirmReset_eq [OF assms(1), of "cl_channel cl"] assms(1)
  by (auto simp: ensureConfirmsSetup_def close_done_def Let_def pub_inv_def chan_open_def call_def
      split: if_splits option.splits)

lemma registered_owned:
  assumes "pub_inv p" "registerPending t p = (c, p1)"
  shows "owned t c p1" "chan_open p1 c" "map_of (pb_pending p1) t = Some c"
proof -
  note r = registerPending_simps [OF assms(2)]
  have "t' = t" if "(t', c) \<in> set (pb_pending p1)" for t'
    using set_update_sub [of "(t', c)" t c "pb_pending p"] that pub_inv_fresh [OF assms(1)]
    by (force simp: r)
  then show "owned t c p1"
    using registerPending_inv [OF assms] by (auto simp: owned_def r)
  show "chan_open p1 c" by (simp add: chan_open_def r)
  show "map_of (pb_pending p1) t = Some c" by (simp add: r update_conv')
qed

text \<open>The stages of a call with confirms, once the client is open and has a channel.\<close>

lemma Publish_stages:
  assumes "Publish e cl sc ex rk msg p w = Returns (x, p', w')" "pub_inv p"
    "PublisherConfirms (cl_config cl)" "\<not> cl_closed cl" "cl_channel cl \<noteq> None"
  obtains p0 w0 t pr c p1 p2 ch r w1 where
    "ensureConfirmsSetup e cl p w = Returns (p0, w0)" "t = pb_deliveryTag p0 + 1"
    "bg_run (sc_pre sc) (snd (nextTag p0)) = Returns pr" "pub_inv pr"
    "registerPending t pr = (c, p1)" "bg_run (sc_mid sc) p1 = Returns p2"
    "cl_channel (sc_client sc) = Some ch"
    "call_err e (PublishWithContext ch ex rk False False msg
       (map_snapshot (w_heap w0) (p_Headers msg))) w0 = (r, w1)"
    "\<And>err. r = Some err \<Longrightarrow> x = Some (NewPublishError ex rk (Some err)) \<and> p' = deletePending t p2"
    "r = None \<Longrightarrow> \<exists>p3. bg_run (sc_wait sc) p2 = Returns p3 \<and> x = await c (sc_wake sc) p3 \<and>
       p' = (if x = None then p3 else deletePending t p3) \<and> w_calls w' = w_calls w1"
    "w_calls w' = w_calls w1"
proof -
  have calls: "w_calls (await_log ex rk t d c wk q v) = w_calls v" for t d c wk q v
    by (auto simp: await_log_def Let_def split: wake.splits received.splits)
  from assms(1) obtain p0 w0 where 0: "ensureConfirmsSetup e cl p w = Returns (p0, w0)"
    by (auto simp: Publish_def)
  obtain t pt where t: "nextTag p0 = (t, pt)" by fastforce
  from assms 0 t obtain pr where pr: "bg_run (sc_pre sc) pt = Returns pr"
    by (auto simp: Publish_def)
  have "pub_inv pt" using setup_inv [OF assms(2) 0] nextTag_inv [of p0] t by simp
  then have inv: "pub_inv pr" by (rule bg_table.run_inv [OF _ pr])
  obtain c p1 where c: "registerPending t pr = (c, p1)" by fastforce
  from assms 0 t pr c obtain p2 ch r w1 where 2: "bg_run (sc_mid sc) p1 = Returns p2"
    "cl_channel (sc_client sc) = Some ch"
    "call_err e (PublishWithContext ch ex rk False False msg
       (map_snapshot (w_heap w0) (p_Headers msg))) w0 = (r, w1)"
    by (auto simp: Publish_def channel_publish_def split: option.splits prod.splits)
  have rest: "(\<forall>err. r = Some err \<longrightarrow> x = Some (NewPublishError ex rk (Some err)) \<and> p' = deletePending t p2) \<and>
    (r = None \<longrightarrow> (\<exists>p3. bg_run (sc_wait sc) p2 = Returns p3 \<and> x = await c (sc_wake sc) p3 \<and>
       p' = (if x = None then p3 else deletePending t p3) \<and> w_calls w' = w_calls w1)) \<and> w_calls w' = w_calls w1"
    using assms 0 t pr c 2
    by (cases r) (auto simp: Publish_def channel_publish_def Let_def calls)
  have "t = pb_deliveryTag p0 + 1" "pt = snd (nextTag p0)" using t by (auto simp: nextTag_def)
  with that 0 pr inv c 2 rest show ?thesis by blast
qed

lemma await_None: "await c wk p = None \<longleftrightarrow> wk = WResult \<and> recv_chan c p = Got True"
  by (auto simp: await_def split: wake.splits received.splits)

lemma await_WResult: "recv_chan c p = Got v \<Longrightarrow>
   await c WResult p = (if v then None else Some ErrPublishNotConfirmed)"
  by (simp add: await_def)

lemma Publish_entry_checks:
  "Publish e cl sc ex rk msg p w = Returns (None, p', w') \<Longrightarrow> \<not> cl_closed cl \<and> cl_channel cl \<noteq> None"
  by (auto simp: Publish_def split: if_splits)

text \<open>Events of the processor, of resets and of cleanups only shrink the table.\<close>

fun no_store :: "bg_event \<Rightarrow> bool" where
  "no_store (BgStore t) = False"
| "no_store _ = True"

lemma no_store_step:
  assumes "pub_inv p" "no_store x" "bg_step x p = Returns p'"
  shows "set (pb_pending p') \<subseteq> set (pb_pending p)"
proof (cases x)
  case (BgConfirm k v)
  show ?thesis
  proof (cases "map_of (pb_pending p) k")
    case None
    then show ?thesis using assms BgConfirm by (auto simp: processConfirmation_def)
  next
    case (Some c)
    then have "pb_pending p' = AList.delete k (pb_pending p)"
      using assms(3) BgConfirm processConfirmation_hit [OF assms(1) Some, of v] by auto
    then show ?thesis by (auto simp: set_delete)
  qed
next
  case (BgReset k)
  then show ?thesis using assms(3) confirmReset_eq [OF assms(1), of k] by auto
next
  case BgConfirmsClosed
  then show ?thesis using assms(3) clearPending_eq [OF assms(1)] by auto
qed (use assms in \<open>auto simp: nextTag_def deletePending_def set_delete\<close>)

lemma no_store_run:
  assumes "pub_inv p" "list_all no_store xs" "bg_run xs p = Returns p'"
  shows "set (pb_pending p') \<subseteq> set (pb_pending p)"
  using assms
proof (induction xs arbitrary: p)
  case Nil
  then show ?case by simp
next
  case (Cons x xs)
  obtain p1 where "bg_step x p = Returns p1" "pub_inv p1" using bg_step_inv [OF Cons.prems(1)] by blast
  with Cons show ?case using no_store_step [OF Cons.prems(1), of x p1] by fastforce
qed

lemma cleaned_up:
  assumes "owned t c p1" "chan_open p1 c" "bg_run ys p1 = Returns q"
    "set (pb_pending p1) \<subseteq> insert (t, c) old" "list_all no_store ys"
    "p' = deletePending t q \<or> p' = q \<and> recv_chan c q = Got True"
  shows "pub_inv p' \<and> set (pb_pending p') \<subseteq> old"
proof -
  have q: "owned t c q" "set (pb_pending q) \<subseteq> set (pb_pending p1)"
    using bg_owned.run_inv [OF assms(1,3)] no_store_run [OF _ assms(5,3)] assms(1)
    by (simp_all add: owned_def)
  have "c \<notin> pending_chans q" if "recv_chan c q = Got True"
    using run_buffer [OF assms(1,3) that assms(2)] by simp
  then have gone: "(t, c) \<notin> set (pb_pending q)" if "recv_chan c q = Got True"
    using that by force
  show ?thesis
  proof (cases "p' = deletePending t q")
    case True
    then have "pub_inv p'" "set (pb_pending p') \<subseteq> {x \<in> set (pb_pending q). fst x \<noteq> t}"
      using q(1) deletePending_inv by (simp_all add: owned_def deletePending_def set_delete)
    moreover have "{x \<in> set (pb_pending q). fst x \<noteq> t} \<subseteq> old" using q(2) assms(4) by fastforce
    ultimately show ?thesis by blast
  next
    case False
    then have "p' = q" "(t, c) \<notin> set (pb_pending q)" using assms(6) gone by auto
    with q assms(4) show ?thesis unfolding owned_def by blast
  qed
qed

section \<open>What a pipelined batch does\<close>

text \<open>
  A result channel seen over the whole batch: only its own tag's entry leads to it, and a
  value in it is the answer of a confirmation among the events \<open>E\<close>.
\<close>

definition tracked :: "tag \<Rightarrow> nat \<Rightarrow> bg_event set \<Rightarrow> pub \<Rightarrow> bool" where
  "tracked t c E p \<longleftrightarrow> owned t c p \<and> (\<forall>v. recv_chan c p = Got v \<longrightarrow> BgConfirm t v \<in> E)"

lemma recv_chan_cong: "pb_chans q c = pb_chans p c \<Longrightarrow> recv_chan c q = recv_chan c p"
  by (simp add: recv_chan_def)

lemma tracked_step:
  assumes "tracked t c E p" "bg_step x p = Returns p'" "x \<in> E \<or> (\<forall>k v. x \<noteq> BgConfirm k v)"
  shows "tracked t c E p'"
proof -
  have "owned t c p" using assms(1) by (simp add: tracked_def)
  from owned_step [OF this, of x] assms(2) have o: "owned t c p'" "chan_step t c x p p'" by auto
  have "BgConfirm t v \<in> E" if "recv_chan c p' = Got v" for v
  proof (cases "pb_chans p' c = pb_chans p c")
    case True
    then show ?thesis using assms(1) that recv_chan_cong [OF True] by (simp add: tracked_def)
  next
    case False
    then show ?thesis
      using o(2) assms(3) that by (auto simp: chan_step_def recv_chan_def)
  qed
  with o(1) show ?thesis by (simp add: tracked_def)
qed

lemma tracked_run:
  "tracked t c E p \<Longrightarrow> bg_run xs p = Returns p' \<Longrightarrow> set xs \<subseteq> E \<Longrightarrow> tracked t c E p'"
  by (induction xs arbitrary: p) (auto intro: tracked_step)

lemmas tracked_nextTag = tracked_step [where x = BgNextTag, simplified]
  and tracked_register = tracked_step [where x = "BgStore k" for k, simplified]
  and tracked_delete = tracked_step [where x = "BgForget k" for k, simplified]

lemma tracked_close:
  assumes "tracked t c E p" "close_chan d p = Returns p'" "d \<notin> pending_chans p"
  shows "tracked t c E p'"
proof -
  have p': "p' = p\<lparr>pb_chans := (pb_chans p)(d := (pb_chans p d)\<lparr>rc_closed := True\<rparr>)\<rparr>"
    using assms(2) by (simp add: close_chan_def split: if_splits)
  have "chan_open p' a" if "a \<in> pending_chans p" "chan_open p a" for a
    using that assms(3) by (auto simp: p' chan_open_def)
  then have "owned t c p'" using assms(1) by (auto simp: tracked_def owned_def pub_inv_def p')
  moreover have "recv_chan c p' = Got v \<Longrightarrow> recv_chan c p = Got v" for v
    by (auto simp: p' recv_chan_def split: list.splits if_splits)
  ultimately show ?thesis using assms(1) by (auto simp: tracked_def)
qed

lemma registered_tracked:
  assumes "pub_inv p" "registerPending t p = (c, p1)"
  shows "tracked t c E p1"
  using registered_owned [OF assms] by (simp add: tracked_def recv_chan_def chan_open_def)

definition later_events :: "batch_script \<Rightarrow> nat \<Rightarrow> bg_event set" where
  "later_events sc i = (\<Union>j \<in> {i..}. set (bs_gap sc j) \<union> set (bs_pre sc j) \<union> set (bs_mid sc j)) \<union>
     (\<Union>j. set (bs_wait sc j))"

lemma later_events_mono: "i \<le> j \<Longrightarrow> later_events sc j \<subseteq> later_events sc i"
  by (fastforce simp: later_events_def)

lemma later_events_sub:
  "set (bs_gap sc i) \<subseteq> later_events sc i" "set (bs_pre sc i) \<subseteq> later_events sc i"
  "set (bs_mid sc i) \<subseteq> later_events sc i" "set (bs_wait sc j) \<subseteq> later_events sc i"
  by (auto simp: later_events_def)

text \<open>One message of the sending loop.\<close>

lemma batch_send_Cons:
  assumes "batch_send e sc i (m # ms) p w = Returns (rs, p', w')" "pub_inv p"
  obtains x t c p3 w1 rs' where "rs = (x, t, c) # rs'"
    "batch_send e sc (Suc i) ms p3 w1 = Returns (rs', p', w')" "pub_inv p3"
    "\<And>t' c' E. tracked t' c' E p \<Longrightarrow> later_events sc i \<subseteq> E \<Longrightarrow> tracked t' c' E p3"
    "x = None \<Longrightarrow> tracked t c (later_events sc i) p3"
proof -
  from assms(1) obtain p0 where p0: "bg_run (bs_gap sc i) p = Returns p0" by auto
  obtain t pt where t: "nextTag p0 = (t, pt)" by fastforce
  from assms(1) p0 t obtain pr where pr: "bg_run (bs_pre sc i) pt = Returns pr" by auto
  obtain c p1 where c: "registerPending t pr = (c, p1)" by fastforce
  from assms(1) p0 t pr c obtain p2 r w1 where p2: "bg_run (bs_mid sc i) p1 = Returns p2"
    "channel_publish e (bs_client sc i) (pm_Exchange m) (pm_RoutingKey m) (pm_Message m) w = Returns (r, w1)"
    by (auto split: prod.splits)
  have "pub_inv p0" by (rule bg_table.run_inv [OF assms(2) p0])
  then have "pub_inv pt" using nextTag_inv [of p0] t by simp
  then have inv: "pub_inv pr" by (rule bg_table.run_inv [OF _ pr])
  have keep: "tracked t' c' E p2" if "tracked t' c' E p" "later_events sc i \<subseteq> E" for t' c' E
  proof -
    note sub = later_events_sub [of sc i, THEN subset_trans, OF that(2)]
    have "tracked t' c' E p0" by (rule tracked_run [OF that(1) p0 sub(1)])
    then have "tracked t' c' E pt" using tracked_nextTag [of _ _ _ p0] t by simp
    then have "tracked t' c' E pr" by (rule tracked_run [OF _ pr sub(2)])
    then have "tracked t' c' E p1" using tracked_register [of _ _ _ pr t] c by simp
    then show ?thesis by (rule tracked_run [OF _ p2(1) sub(3)])
  qed
  have own: "tracked t c (later_events sc i) p2"
    by (rule tracked_run [OF registered_tracked [OF inv c] p2(1) later_events_sub(3)])
  show ?thesis
  proof (cases r)
    case None
    then obtain rs' where rs: "rs = (None, t, c) # rs'"
      "batch_send e sc (Suc i) ms p2 w1 = Returns (rs', p', w')"
      using assms(1) p0 t pr c p2 by auto
    have "pub_inv p2" using own by (simp add: tracked_def owned_def)
    show ?thesis by (rule that [OF rs \<open>pub_inv p2\<close> keep own])
  next
    case (Some err)
    then obtain p3 rs' where p3: "close_chan c (deletePending t p2) = Returns p3"
      "batch_send e sc (Suc i) ms p3 w1 = Returns (rs', p', w')"
      "rs = (Some (NewPublishError (pm_Exchange m) (pm_RoutingKey m) (Some err)), t, c) # rs'"
      using assms(1) p0 t pr c p2 by auto
    have "c \<notin> pending_chans (deletePending t p2)"
      using own by (auto simp: tracked_def owned_def deletePending_def set_delete)
    then have cl: "tracked t' c' E p3" if "tracked t' c' E p2" for t' c' E
      using tracked_close [OF tracked_delete [OF that, of t] p3(1)] by simp
    from cl [OF own] have "pub_inv p3" by (simp add: tracked_def owned_def)
    with that [OF p3(3,2)] cl keep show ?thesis by simp
  qed
qed

lemma batch_send_tracks:
  assumes "batch_send e sc i ms p w = Returns (rs, p', w')" "pub_inv p"
  shows "length rs = length ms \<and> pub_inv p' \<and>
    (\<forall>t c E. tracked t c E p \<longrightarrow> later_events sc i \<subseteq> E \<longrightarrow> tracked t c E p') \<and>
    (\<forall>k < length ms. \<forall>t c. rs ! k = (None, t, c) \<longrightarrow> tracked t c (later_events sc (i + k)) p')"
  using assms
proof (induction ms arbitrary: i p w rs)
  case Nil
  then show ?case by auto
next
  case (Cons m ms)
  show ?case
  proof (rule batch_send_Cons [OF Cons.prems])
    fix x t c p3 w1 rs'
    assume st: "rs = (x, t, c) # rs'" "batch_send e sc (Suc i) ms p3 w1 = Returns (rs', p', w')" "pub_inv p3"
      "\<And>t' c' E. tracked t' c' E p \<Longrightarrow> later_events sc i \<subseteq> E \<Longrightarrow> tracked t' c' E p3"
      "x = None \<Longrightarrow> tracked t c (later_events sc i) p3"
    note ih = Cons.IH [OF st(2,3)]
    have sub: "later_events sc (Suc i) \<subseteq> later_events sc i" by (simp add: later_events_mono)
    have keep: "tracked t' c' E p'" if "tracked t' c' E p3" "later_events sc i \<subseteq> E" for t' c' E
      using ih that(1) subset_trans [OF sub that(2)] by blast
    have "tracked t' c' (later_events sc (i + k)) p'"
      if "k < length (m # ms)" "rs ! k = (None, t', c')" for k t' c'
    proof (cases k)
      case 0
      then show ?thesis using that(2) st(1,5) keep by simp
    next
      case (Suc j)
      then show ?thesis using that st(1) ih by simp
    qed
    then show ?thesis using ih st(1,4) keep by simp
  qed
qed

text \<open>The waiting loop, when the context is not cancelled.\<close>

lemma batch_wait_tracks:
  assumes "batch_wait sc i rs p = Returns (xs, None, p')"
    "\<forall>k < length rs. \<forall>t c. rs ! k = (None, t, c) \<longrightarrow> (\<exists>j. E k = later_events sc j) \<and> tracked t c (E k) p"
  shows "length xs = length rs \<and>
    (\<forall>k < length rs. xs ! k = None \<longrightarrow>
      (\<exists>t c. rs ! k = (None, t, c) \<and> BgConfirm t True \<in> E k))"
  using assms
proof (induction rs arbitrary: i p xs E)
  case Nil
  then show ?case by auto
next
  case (Cons r rs)
  obtain x t c where r: "r = (x, t, c)" by (cases r)
  show ?case
  proof (cases x)
    case (Some err)
    with Cons.prems(1) r obtain ys where ys: "xs = Some err # ys" "batch_wait sc (Suc i) rs p = Returns (ys, None, p')"
      by auto
    have "length ys = length rs \<and> (\<forall>k < length rs. ys ! k = None \<longrightarrow>
        (\<exists>t c. rs ! k = (None, t, c) \<and> BgConfirm t True \<in> E (Suc k)))"
      using Cons.prems(2) by (intro Cons.IH [OF ys(2)]) fastforce
    then show ?thesis using ys(1) r Some by (auto simp: nth_Cons split: nat.splits)
  next
    case None
    with Cons.prems(1) r obtain p1 ys where
      p1: "bg_run (bs_wait sc i) p = Returns p1" "xs = await c (bs_wake sc i) p1 # ys"
      "batch_wait sc (Suc i) rs (if timer_fired c (bs_wake sc i) p1 then deletePending t p1 else p1)
         = Returns (ys, None, p')"
      by (cases "bs_wake sc i") auto
    have keep: "tracked t' c' (E k) p1" if "k < length (r # rs)" "(r # rs) ! k = (None, t', c')" for k t' c'
      using Cons.prems(2) that tracked_run [OF _ p1(1)] later_events_sub(4) by metis
    have "length ys = length rs \<and> (\<forall>k < length rs. ys ! k = None \<longrightarrow>
        (\<exists>t c. rs ! k = (None, t, c) \<and> BgConfirm t True \<in> E (Suc k)))"
      using Cons.prems(2) keep tracked_delete by (intro Cons.IH [OF p1(3)]) fastforce
    moreover have "BgConfirm t True \<in> E 0" if "await c (bs_wake sc i) p1 = None"
      using keep [of 0 t c] r None that by (auto simp: tracked_def await_None)
    ultimately show ?thesis using p1(2) r None by (auto simp: nth_Cons split: nat.splits)
  qed
qed

lemma Publish_acked:
  assumes "pub_inv p" "PublisherConfirms (cl_config cl)"
    "Publish e cl sc ex rk msg p w = Returns (None, p', w')"
  shows "\<exists>p0 w0 ch. ensureConfirmsSetup e cl p w = Returns (p0, w0) \<and>
    cl_channel (sc_client sc) = Some ch \<and>
    w_calls w' = w_calls w0 @ [PublishWithContext ch ex rk False False msg
      (map_snapshot (w_heap w0) (p_Headers msg))] \<and>
    sc_wake sc = WResult \<and>
    BgConfirm (pb_deliveryTag p0 + 1) True \<in> set (sc_mid sc @ sc_wait sc)"
proof -
  have "\<not> cl_closed cl" "cl_channel cl \<noteq> None"
    using Publish_entry_checks [OF assms(3)] by simp_all
  from Publish_stages [OF assms(3,1,2) this] obtain p0 w0 t pr c p1 p2 ch r w1 where
    st: "ensureConfirmsSetup e cl p w = Returns (p0, w0)" "t = pb_deliveryTag p0 + 1" "pub_inv pr"
    "registerPending t pr = (c, p1)" "bg_run (sc_mid sc) p1 = Returns p2"
    "cl_channel (sc_client sc) = Some ch"
    "call_err e (PublishWithContext ch ex rk False False msg
       (map_snapshot (w_heap w0) (p_Headers msg))) w0 = (r, w1)"
    "\<And>err. r = Some err \<Longrightarrow> None = Some (NewPublishError ex rk (Some err))"
    "r = None \<Longrightarrow> \<exists>p3. bg_run (sc_wait sc) p2 = Returns p3 \<and> None = await c (sc_wake sc) p3 \<and>
       w_calls w' = w_calls w1"
    by (metis (no_types, lifting))
  have "r = None" using st(8) by (cases r) auto
  with st(9) obtain p3 where p3: "bg_run (sc_wait sc) p2 = Returns p3" "await c (sc_wake sc) p3 = None"
    "w_calls w' = w_calls w1" by auto
  have "bg_run (sc_mid sc @ sc_wait sc) p1 = Returns p3" using st(5) p3(1) by (simp add: run_append)
  then have "BgConfirm t True \<in> set (sc_mid sc @ sc_wait sc)"
    using run_buffer [OF registered_owned(1) [OF st(3,4)]] registered_owned(2) [OF st(3,4)]
      p3(2) await_None by blast
  then show ?thesis
    using st p3 await_None call_err_calls [OF st(7)] by auto
qed

section \<open>Properties\<close>

definition idle_pub :: pub where
  "idle_pub = \<lparr>pb_pending = [], pb_deliveryTag = 0, pb_chans = (\<lambda>_. \<lparr>rc_buf = [], rc_closed = False\<rparr>),
     pb_nchans = 0, pb_done = 0, pb_doneClosed = (\<lambda>_. False), pb_ndone = 1, pb_started = True,
     pb_channelID = Some 8, pb_log = []\<rparr>"

definition confirm_client :: client where
  "confirm_client = \<lparr>cl_config = DefaultConfig\<lparr>PublisherConfirms := True\<rparr>, cl_conn = Some 7,
     cl_channel = Some 8, cl_closed = False\<rparr>"

lemma idle_pub_inv: "pub_inv idle_pub"
  by (simp add: pub_inv_def idle_pub_def)

lemma idle_setup: "ensureConfirmsSetup e confirm_client idle_pub w = Returns (idle_pub, w)"
  by (simp add: ensureConfirmsSetup_def confirm_client_def idle_pub_def)

text \<open>
  C12. The confirmation table is safe under every interleaving. From a table whose entries have
  their own open, empty result channels, any sequence of confirmations (expected, repeated or
  unknown), stream closes, registrations, cleanups and resets runs to its end: the processor
  never blocks on a full result channel or panics on a closed one while it holds the mutex,
  and the table is in order again.
\<close>

theorem confirmation_table_safe:
  assumes "pub_inv p"
  shows "\<exists>p'. bg_run xs p = Returns p' \<and> pub_inv p'"
  using assms by (rule bg_table.run_total)

theorem confirmation_table_safe_witness:
  "\<exists>p'. bg_run [BgStore 1, BgConfirm 1 True, BgConfirm 1 True, BgReset None] idle_pub = Returns p' \<and> pub_inv p'"
  using confirmation_table_safe [OF idle_pub_inv] by blast

text \<open>
  C3. \<open>Publish\<close> never reports success falsely. With confirms on, if it returns nil then the
  message was handed to the channel, and after its entry was stored the processor received a
  positive confirmation for exactly the delivery tag this call had taken, whatever the other
  goroutines did meanwhile.
\<close>

theorem publish_success_was_acked:
  assumes "pub_inv p" "PublisherConfirms (cl_config cl)"
    "Publish e cl sc ex rk msg p w = Returns (None, p', w')"
  shows "\<exists>p0 w0 ch. ensureConfirmsSetup e cl p w = Returns (p0, w0) \<and>
    cl_channel (sc_client sc) = Some ch \<and>
    w_calls w' = w_calls w0 @ [PublishWithContext ch ex rk False False msg
      (map_snapshot (w_heap w0) (p_Headers msg))] \<and>
    sc_wake sc = WResult \<and>
    BgConfirm (pb_deliveryTag p0 + 1) True \<in> set (sc_mid sc @ sc_wait sc)"
  using assms by (rule Publish_acked)

theorem publish_success_was_acked_witness:
  "\<exists>p' w'. Publish plain_env confirm_client
     \<lparr>sc_client = confirm_client, sc_pre = [], sc_mid = [], sc_wait = [BgConfirm 1 True], sc_wake = WResult\<rparr>
     ''orders'' ''k'' zero_publishing idle_pub empty_world = Returns (None, p', w') \<and> length (w_calls w') = 1"
proof -
  let ?sc = "\<lparr>sc_client = confirm_client, sc_pre = [], sc_mid = [], sc_wait = [BgConfirm 1 True], sc_wake = WResult\<rparr>"
  obtain p' w' where r: "Publish plain_env confirm_client ?sc ''orders'' ''k'' zero_publishing idle_pub empty_world
      = Returns (None, p', w')"
    unfolding Publish_def idle_setup
    by (simp add: confirm_client_def channel_publish_def call_err_eq plain_env_def nextTag_def idle_pub_def
        registerPending_def make_chan_def processConfirmation_def send_chan_def close_chan_def Let_def
        await_def recv_chan_def deletePending_def)
  have "PublisherConfirms (cl_config confirm_client)" by (simp add: confirm_client_def)
  from publish_success_was_acked [OF idle_pub_inv this r] have "length (w_calls w') = 1"
    by (auto simp: idle_setup empty_world_def)
  with r show ?thesis by blast
qed

text \<open>
  C14. A routed confirmation reaches its caller. If the send succeeds and, before anything closes
  the stream, resets the table or reuses the tag, a confirmation of the call's tag arrives,
  then \<open>Publish\<close> returns, with nil for a positive confirmation and \<open>ErrPublishNotConfirmed\<close> for
  a negative one, no matter how many other messages are registered, confirmed or cleaned up
  around it and what happens after the confirmation.
\<close>

theorem publish_confirmation_delivered:
  assumes "pub_inv p" "PublisherConfirms (cl_config cl)" "\<not> cl_closed cl" "cl_channel cl \<noteq> None"
    "ensureConfirmsSetup e cl p w = Returns (p0, w0)" "cl_channel (sc_client sc) = Some ch"
    "fst (call_err e (PublishWithContext ch ex rk False False msg
       (map_snapshot (w_heap w0) (p_Headers msg))) w0) = None"
    "sc_mid sc @ sc_wait sc = xs @ BgConfirm (pb_deliveryTag p0 + 1) v # ys"
    "list_all (quiet (pb_deliveryTag p0 + 1)) xs" "sc_wake sc = WResult"
  shows "\<exists>p' w'. Publish e cl sc ex rk msg p w =
    Returns (if v then None else Some ErrPublishNotConfirmed, p', w')"
proof -
  let ?t = "pb_deliveryTag p0 + 1"
  have inv0: "pub_inv p0" using setup_inv [OF assms(1,5)] by simp
  obtain pr where pr: "bg_run (sc_pre sc) (snd (nextTag p0)) = Returns pr" "pub_inv pr"
    using bg_table.run_total [OF nextTag_inv [OF inv0]] by blast
  obtain c p1 where c: "registerPending ?t pr = (c, p1)" by fastforce
  note reg = registered_owned [OF pr(2) c]
  obtain p2 where p2: "bg_run (sc_mid sc) p1 = Returns p2" "owned ?t c p2"
    using bg_owned.run_total [OF reg(1)] by blast
  obtain p3 where p3: "bg_run (sc_wait sc) p2 = Returns p3"
    using bg_owned.run_total [OF p2(2)] by blast
  have "bg_run (xs @ BgConfirm ?t v # ys) p1 = Returns p3"
    unfolding assms(8) [symmetric] using p2(1) p3 by (simp add: run_append)
  then have "recv_chan c p3 = Got v" by (rule run_delivers [OF reg(1,3) assms(9)])
  then have aw: "await c (sc_wake sc) p3 = (if v then None else Some ErrPublishNotConfirmed)"
    using assms(10) by (simp add: await_WResult)
  obtain pt where tag: "nextTag p0 = (?t, pt)" by (simp add: nextTag_def)
  obtain w1 where w1: "call_err e (PublishWithContext ch ex rk False False msg
       (map_snapshot (w_heap w0) (p_Headers msg))) w0 = (None, w1)"
    using assms(7) by (metis prod.collapse)
  show ?thesis
    using assms(2-6) pr(1) tag c p2(1) p3 aw w1 by (simp add: Publish_def channel_publish_def Let_def)
qed

theorem publish_confirmation_delivered_witness:
  "\<exists>p' w'. Publish plain_env confirm_client
     \<lparr>sc_client = confirm_client, sc_pre = [BgNextTag], sc_mid = [BgStore 2],
       sc_wait = [BgConfirm 2 True, BgConfirm 1 False, BgReset None], sc_wake = WResult\<rparr>
     ''orders'' ''k'' zero_publishing idle_pub empty_world = Returns (Some ErrPublishNotConfirmed, p', w')"
  using publish_confirmation_delivered [OF idle_pub_inv _ _ _ idle_setup, where v = False and xs = "[BgStore 2, BgConfirm 2 True]" and ys = "[BgReset None]" and ch = 8
      and sc = "\<lparr>sc_client = confirm_client, sc_pre = [BgNextTag], sc_mid = [BgStore 2],
       sc_wait = [BgConfirm 2 True, BgConfirm 1 False, BgReset None], sc_wake = WResult\<rparr>"]
  by (simp add: confirm_client_def idle_pub_def plain_env_def call_err_eq)

text \<open>
  C16. \<open>Publish\<close> cleans up after itself. Whatever it returns (nil, a send error, a negative
  confirmation, a timeout or the context's error), the table is in order, and unless another
  call stored an entry meanwhile it holds no entry that was not there before.
\<close>

theorem publish_leaves_no_entry:
  assumes "pub_inv p" "PublisherConfirms (cl_config cl)"
    "Publish e cl sc ex rk msg p w = Returns (x, p', w')"
    "list_all no_store (sc_pre sc @ sc_mid sc @ sc_wait sc)"
  shows "pub_inv p' \<and> set (pb_pending p') \<subseteq> set (pb_pending p)"
proof (cases "cl_closed cl \<or> cl_channel cl = None")
  case True
  then have "ensureConfirmsSetup e cl p w = Returns (p', w')"
    using assms(3) by (auto simp: Publish_def split: if_splits)
  from setup_inv [OF assms(1) this] show ?thesis by simp
next
  case False
  then have entry: "\<not> cl_closed cl" "cl_channel cl \<noteq> None" by simp_all
  obtain p0 w0 t pr c p1 p2 ch r w1 where
    st: "ensureConfirmsSetup e cl p w = Returns (p0, w0)" "t = pb_deliveryTag p0 + 1"
    "bg_run (sc_pre sc) (snd (nextTag p0)) = Returns pr" "pub_inv pr"
    "registerPending t pr = (c, p1)" "bg_run (sc_mid sc) p1 = Returns p2"
    "cl_channel (sc_client sc) = Some ch"
    "call_err e (PublishWithContext ch ex rk False False msg
       (map_snapshot (w_heap w0) (p_Headers msg))) w0 = (r, w1)"
    "\<And>err. r = Some err \<Longrightarrow> x = Some (NewPublishError ex rk (Some err)) \<and> p' = deletePending t p2"
    "r = None \<Longrightarrow> \<exists>p3. bg_run (sc_wait sc) p2 = Returns p3 \<and> x = await c (sc_wake sc) p3 \<and>
       p' = (if x = None then p3 else deletePending t p3) \<and> w_calls w' = w_calls w1"
    by (rule Publish_stages [OF assms(3,1,2) entry]) (rule that, assumption+)
  note reg = registered_owned [OF st(4,5)]
  have p0: "pub_inv p0" "set (pb_pending p0) \<subseteq> set (pb_pending p)"
    using setup_inv [OF assms(1) st(1)] by simp_all
  have "set (pb_pending pr) \<subseteq> set (pb_pending (snd (nextTag p0)))"
    using no_store_run [OF nextTag_inv [OF p0(1)] _ st(3)] assms(4) by simp
  then have sub: "set (pb_pending pr) \<subseteq> set (pb_pending p)" using p0(2) by (simp add: nextTag_def)
  have p1: "set (pb_pending p1) \<subseteq> insert (t, c) (set (pb_pending p))"
    unfolding registerPending_simps(3) [OF st(5)]
    by (rule subset_trans [OF set_update_subset insert_mono [OF sub]])
  show ?thesis
  proof (cases r)
    case None
    then obtain p3 where p3: "bg_run (sc_wait sc) p2 = Returns p3" "x = await c (sc_wake sc) p3"
      "p' = (if x = None then p3 else deletePending t p3)" using st(10) by blast
    have run: "bg_run (sc_mid sc @ sc_wait sc) p1 = Returns p3" using st(6) p3(1) by (simp add: run_append)
    have "p' = deletePending t p3 \<or> p' = p3 \<and> recv_chan c p3 = Got True"
      using p3(2,3) await_None [of c "sc_wake sc" p3] by (cases "x = None") simp_all
    then show ?thesis using cleaned_up [OF reg(1,2) run p1] assms(4) by simp
  next
    case (Some err)
    then show ?thesis using cleaned_up [OF reg(1,2) st(6) p1] st(9) assms(4) by simp
  qed
qed

definition quiet_script :: "bg_event list \<Rightarrow> publish_script" where
  "quiet_script xs = \<lparr>sc_client = confirm_client, sc_pre = [], sc_mid = [], sc_wait = xs, sc_wake = WResult\<rparr>"

theorem publish_leaves_no_entry_witness:
  "\<exists>x p' w'. Publish plain_env confirm_client (quiet_script []) ''orders'' ''k'' zero_publishing
     idle_pub empty_world = Returns (x, p', w') \<and> pb_pending p' = []"
proof -
  obtain x p' w' where r: "Publish plain_env confirm_client (quiet_script []) ''orders'' ''k''
      zero_publishing idle_pub empty_world = Returns (x, p', w')"
    unfolding Publish_def idle_setup
    by (simp add: quiet_script_def confirm_client_def channel_publish_def
        call_err_eq plain_env_def Let_def nextTag_def registerPending_def make_chan_def)
  have "PublisherConfirms (cl_config confirm_client)" by (simp add: confirm_client_def)
  from publish_leaves_no_entry [OF idle_pub_inv this r] have "pb_pending p' = []"
    by (simp add: quiet_script_def idle_pub_def)
  with r show ?thesis by blast
qed

text \<open>
  Publishing on a closed publisher can panic. If the client reconnected since the last
  publish and the publisher is then closed, the next \<open>Publish\<close> closes the same \<open>done\<close> channel
  a second time in \<open>ensureConfirmsSetup\<close>, before it looks whether the client is closed, so the
  caller gets a panic where \<open>ErrClientClosed\<close> is meant.
\<close>

theorem publish_after_close_panics:
  assumes "pub_inv p" "pb_started p" "\<not> pb_doneClosed p (pb_done p)"
    "PublisherConfirms (cl_config cl)" "cl_channel cl \<noteq> pb_channelID p"
  shows "\<exists>p1. publisher_Close p = Returns p1 \<and>
    Publish e cl sc ex rk msg p1 w = Panics ''close of closed channel''"
proof -
  let ?p1 = "p\<lparr>pb_doneClosed := (pb_doneClosed p)(pb_done p := True), pb_started := False\<rparr>"
  have close: "publisher_Close p = Returns ?p1"
    using assms by (simp add: publisher_Close_def close_done_def)
  have "pub_inv ?p1" using assms(1) by (simp add: pub_inv_def chan_open_def)
  then have "confirmReset (cl_channel cl) ?p1 = Returns q \<Longrightarrow> pb_doneClosed q (pb_done p)" for q
    using confirmReset_eq [of ?p1 "cl_channel cl"] by auto
  moreover obtain q where "confirmReset (cl_channel cl) ?p1 = Returns q"
    using confirmReset_eq [OF \<open>pub_inv ?p1\<close>] by blast
  ultimately have "ensureConfirmsSetup e cl ?p1 w = Panics ''close of closed channel''"
    using assms(4,5) by (simp add: ensureConfirmsSetup_def Let_def close_done_def)
  with close show ?thesis by (simp add: Publish_def)
qed

theorem publish_after_close_panics_witness:
  "\<exists>p1. publisher_Close idle_pub = Returns p1 \<and>
    Publish plain_env (confirm_client\<lparr>cl_channel := Some 9, cl_closed := True\<rparr>) (quiet_script [])
      ''orders'' ''k'' zero_publishing p1 empty_world = Panics ''close of closed channel''"
  using publish_after_close_panics [OF idle_pub_inv, where cl = "confirm_client\<lparr>cl_channel := Some 9, cl_closed := True\<rparr>"]
  by (simp add: idle_pub_def confirm_client_def)

text \<open>
  A failed send shifts the tags for good. The delivery tag is taken before the send and is
  not given back, while the broker numbers only the messages it received. So after one failed
  send the next message has tag \<open>n + 2\<close> here and \<open>n + 1\<close> at the broker: its positive confirmation
  is taken for an unexpected one, and \<open>Publish\<close> reports \<open>ErrPublishConfirmTimeout\<close> although the
  message was sent and confirmed.
\<close>

theorem failed_send_shifts_tags:
  assumes "pub_inv p" "PublisherConfirms (cl_config cl)" "\<not> cl_closed cl"
    "cl_channel cl = Some ch" "pb_channelID p = Some ch" "pb_pending p = []"
    "fst (call_err e (PublishWithContext ch ex rk False False msg
       (map_snapshot (w_heap w) (p_Headers msg))) w) = Some err"
    "sc1 = \<lparr>sc_client = cl, sc_pre = [], sc_mid = [], sc_wait = [], sc_wake = WResult\<rparr>"
    "sc2 = \<lparr>sc_client = cl, sc_pre = [], sc_mid = [],
            sc_wait = [BgConfirm (pb_deliveryTag p + 1) True], sc_wake = WResult\<rparr>"
    "\<And>cs. answer e cs (PublishWithContext ch ex' rk' False False msg' None) = ROk" "p_Headers msg' = None"
  shows "\<exists>p1 w1 p2 w2. Publish e cl sc1 ex rk msg p w =
      Returns (Some (NewPublishError ex rk (Some err)), p1, w1) \<and>
    Publish e cl sc2 ex' rk' msg' p1 w1 = Returns (Some ErrPublishConfirmTimeout, p2, w2)"
proof -
  let ?c1 = "PublishWithContext ch ex rk False False msg (map_snapshot (w_heap w) (p_Headers msg))"
  obtain w1 where w1: "call_err e ?c1 w = (Some err, w1)" using assms(7) by (metis prod.collapse)
  define p1 where "p1 = deletePending (pb_deliveryTag p + 1)
    (snd (registerPending (pb_deliveryTag p + 1) (snd (nextTag p))))"
  have p1: "pb_pending p1 = []" "pb_deliveryTag p1 = pb_deliveryTag p + 1" "pb_channelID p1 = Some ch"
    using assms(5,6) by (auto simp: p1_def deletePending_def registerPending_def make_chan_def nextTag_def)
  have 1: "Publish e cl sc1 ex rk msg p w = Returns (Some (NewPublishError ex rk (Some err)), p1, w1)"
    using assms(2-5,8) w1
    by (auto simp: Publish_def ensureConfirmsSetup_def channel_publish_def p1_def nextTag_def
        split: prod.splits)
  have "\<exists>p2 w2. Publish e cl sc2 ex' rk' msg' p1 w1 = Returns (Some ErrPublishConfirmTimeout, p2, w2)"
    using assms(2-4,9-11) p1
    by (simp add: Publish_def ensureConfirmsSetup_def channel_publish_def call_err_eq nextTag_def
        registerPending_def make_chan_def processConfirmation_def await_def recv_chan_def Let_def)
  with 1 show ?thesis by blast
qed

definition flaky_env :: env where
  "flaky_env = \<lparr>clock = int, uuid = (\<lambda>n. ''uuid-'' @ show_nat n),
     answer = (\<lambda>cs c. case c of PublishWithContext ch x k md im m h \<Rightarrow>
       if x = ''gone'' then RErr ErrNoConnection else ROk | _ \<Rightarrow> ROk),
     marshal_leaf = plain_leaf, json_error = (\<lambda>_. ''json'')\<rparr>"

theorem failed_send_shifts_tags_witness:
  "\<exists>p1 w1 p2 w2.
    Publish flaky_env confirm_client (quiet_script []) ''gone'' ''k'' zero_publishing idle_pub empty_world =
      Returns (Some (NewPublishError ''gone'' ''k'' (Some ErrNoConnection)), p1, w1) \<and>
    Publish flaky_env confirm_client (quiet_script [BgConfirm 1 True]) ''orders'' ''k'' zero_publishing p1 w1 =
      Returns (Some ErrPublishConfirmTimeout, p2, w2)"
  using failed_send_shifts_tags [OF idle_pub_inv, where cl = confirm_client and ch = 8 and ex = "''gone''"
      and rk = "''k''" and e = flaky_env and err = ErrNoConnection and ex' = "''orders''"
      and rk' = "''k''" and msg = zero_publishing and w = empty_world and msg' = zero_publishing]
  by (simp add: confirm_client_def idle_pub_def quiet_script_def flaky_env_def call_err_eq zero_publishing_def)

text \<open>
  C15. A pipelined batch reports per message, and truthfully. With confirms on, when
  \<open>PublishBatchPipeline\<close> returns without a fatal error on a non-empty batch, the slice has one
  slot per message, and a nil slot means that this message was sent and that a positive
  confirmation arrived for the tag registered for it, from the time it was registered on.
\<close>

theorem batch_success_was_acked:
  assumes "pub_inv p" "PublisherConfirms (cl_config cl)" "messages \<noteq> []"
    "PublishBatchPipeline e cl sc messages p w = Returns ((xs, None), p', w')"
  shows "\<exists>p0 w0 rs p1 w1. ensureConfirmsSetup e cl p w = Returns (p0, w0) \<and>
    batch_send e sc 0 messages p0 w0 = Returns (rs, p1, w1) \<and>
    length rs = length messages \<and> length xs = length messages \<and>
    (\<forall>k < length messages. xs ! k = None \<longrightarrow>
      (\<exists>t c. rs ! k = (None, t, c) \<and> BgConfirm t True \<in> later_events sc k))"
proof -
  from assms obtain p0 w0 rs p1 where
    st: "ensureConfirmsSetup e cl p w = Returns (p0, w0)"
    "batch_send e sc 0 messages p0 w0 = Returns (rs, p1, w')"
    "batch_wait sc 0 rs p1 = Returns (xs, None, p')"
    by (auto simp: PublishBatchPipeline_def split: if_splits)
  have "pub_inv p0" using setup_inv [OF assms(1) st(1)] by simp
  from batch_send_tracks [OF st(2) this] have len: "length rs = length messages"
    and tr: "\<forall>k < length rs. \<forall>t c. rs ! k = (None, t, c) \<longrightarrow>
      (\<exists>j. later_events sc k = later_events sc j) \<and> tracked t c (later_events sc k) p1"
    by auto
  from batch_wait_tracks [OF st(3) tr] len st(1,2) show ?thesis by auto
qed

definition quiet_batch :: "(nat \<Rightarrow> bg_event list) \<Rightarrow> (nat \<Rightarrow> bg_event list) \<Rightarrow> batch_script" where
  "quiet_batch mid wait = \<lparr>bs_gap = (\<lambda>_. []), bs_pre = (\<lambda>_. []), bs_mid = mid,
     bs_client = (\<lambda>_. confirm_client), bs_wait = wait, bs_wake = (\<lambda>_. WResult)\<rparr>"

lemmas batch_run_simps = nextTag_def registerPending_def make_chan_def channel_publish_def call_err_eq
  processConfirmation_def send_chan_def close_chan_def deletePending_def await_def recv_chan_def
  timer_fired_def

theorem batch_success_was_acked_witness:
  "\<exists>p' w'. PublishBatchPipeline plain_env confirm_client
      (quiet_batch (\<lambda>_. []) (\<lambda>i. if i = 0 then [BgConfirm 2 True, BgConfirm 1 False] else []))
      [zero_PublishMessage, zero_PublishMessage] idle_pub empty_world =
    Returns (([Some ErrPublishNotConfirmed, None], None), p', w') \<and>
    length (w_calls w') = 2"
proof -
  let ?sc = "quiet_batch (\<lambda>_. []) (\<lambda>i. if i = 0 then [BgConfirm 2 True, BgConfirm 1 False] else [])"
  let ?ms = "[zero_PublishMessage, zero_PublishMessage]"
  obtain p' w' where r: "PublishBatchPipeline plain_env confirm_client ?sc ?ms idle_pub empty_world =
      Returns (([Some ErrPublishNotConfirmed, None], None), p', w')" "length (w_calls w') = 2"
    unfolding PublishBatchPipeline_def idle_setup
    by (simp add: quiet_batch_def confirm_client_def plain_env_def idle_pub_def batch_run_simps empty_world_def)
  have "PublisherConfirms (cl_config confirm_client)" by (simp add: confirm_client_def)
  from batch_success_was_acked [OF idle_pub_inv this _ r(1)] r show ?thesis by blast
qed

text \<open>
  C31. A lost connection can crash a batch. If the confirmation stream is closed after a message
  was registered and before its send fails, the processor has already closed the message's
  result channel, and the cleanup of the failed send closes it again: the batch panics
  instead of reporting the failed message.
\<close>

theorem batch_lost_connection_panics:
  assumes "pub_inv p" "PublisherConfirms (cl_config cl)" "\<not> cl_closed cl" "cl_channel cl \<noteq> None"
    "ensureConfirmsSetup e cl p w = Returns (p0, w0)"
    "bs_gap sc 0 = []" "bs_mid sc 0 = xs @ [BgConfirmsClosed]" "list_all (quiet (pb_deliveryTag p0 + 1)) xs"
    "channel_publish e (bs_client sc 0) (pm_Exchange m) (pm_RoutingKey m) (pm_Message m) w0 =
       Returns (Some err, w1)"
  shows "PublishBatchPipeline e cl sc (m # ms) p w = Panics ''close of closed channel''"
proof -
  let ?t = "pb_deliveryTag p0 + 1"
  obtain pt where tag: "nextTag p0 = (?t, pt)" by (simp add: nextTag_def)
  have "pub_inv p0" using setup_inv [OF assms(1,5)] by simp
  then have "pub_inv pt" using nextTag_inv [of p0] tag by simp
  then obtain pr where pr: "bg_run (bs_pre sc 0) pt = Returns pr" "pub_inv pr"
    using bg_table.run_total by blast
  obtain c p1 where c: "registerPending ?t pr = (c, p1)" by fastforce
  note reg = registered_owned [OF pr(2) c]
  obtain q where q: "bg_run xs p1 = Returns q" "owned ?t c q"
    using bg_owned.run_total [OF reg(1)] by blast
  have inv: "pub_inv p1" "pub_inv q" using reg(1) q(2) by (simp_all add: owned_def)
  have "map_of (pb_pending q) ?t = Some c" using quiet_run [OF inv(1) assms(8) q(1)] reg(3) by simp
  then have "c \<in> pending_chans q" using map_of_SomeD by force
  then obtain p2 where p2: "clearPending q = Returns p2" "rc_closed (pb_chans p2 c)"
    using clearPending_eq [OF inv(2)] by simp
  have "bg_run (bs_mid sc 0) p1 = Returns p2" using assms(7) q(1) p2(1) by (simp add: run_append)
  moreover have "close_chan c (deletePending ?t p2) = Panics ''close of closed channel''"
    using p2(2) by (simp add: close_chan_def deletePending_def)
  ultimately show ?thesis
    using assms(2-6,9) tag pr(1) c by (simp add: PublishBatchPipeline_def)
qed

theorem batch_lost_connection_panics_witness:
  "PublishBatchPipeline flaky_env confirm_client (quiet_batch (\<lambda>_. [BgConfirmsClosed]) (\<lambda>_. []))
     [zero_PublishMessage\<lparr>pm_Exchange := ''gone''\<rparr>] idle_pub empty_world = Panics ''close of closed channel''"
  using batch_lost_connection_panics [OF idle_pub_inv _ _ _ idle_setup, where e = flaky_env
      and m = "zero_PublishMessage\<lparr>pm_Exchange := ''gone''\<rparr>" and xs = "[]" and err = ErrNoConnection]
  by (simp add: quiet_batch_def confirm_client_def flaky_env_def channel_publish_def call_err_eq
      zero_PublishMessage_def)

end
