(* ===== verification/Confirm_Processors.thy ===== *)
theory Confirm_Processors
  imports Publisher
begin

text \<open>
  The goroutines of \<open>processConfirmations\<close> in \<open>internal/broker/publisher.go\<close>, one for each time
  \<open>setupConfirms\<close> or a reset starts one. A processor evaluates \<open>p.confirms\<close> and \<open>p.done\<close> each time it
  enters its \<open>select\<close> and then waits on those two channels, whatever the fields become; what it
  receives it handles in a critical section. A reset is three steps of the caller of
  \<open>ensureConfirmsSetup\<close>: the locked part, closing the old \<open>done\<close> channel, and, after its sleep,
  replacing \<open>p.confirms\<close> and starting another processor. The steps interleave freely with each
  other, with the broker and with other calls on the publisher.
\<close>

section \<open>State\<close>

datatype proc =
    Top
  | Selecting nat nat
  | Routing tag bool
  | Clearing
  | ProcExited

datatype caller =
    Calling "nat option"
  | Locked nat "nat option"
  | Stopped
  | Ready

text \<open>\<open>cp_streams\<close> are the buffered confirmations of each stream \<open>NotifyPublish\<close> was given.\<close>

record procs =
  cp_pub :: pub
  cp_confirms :: nat
  cp_next :: nat
  cp_streams :: "nat \<Rightarrow> (tag \<times> bool) list"
  cp_closed :: "nat \<Rightarrow> bool"
  cp_procs :: "proc list"
  cp_callers :: "caller list"

definition procs_init :: "pub \<Rightarrow> caller list \<Rightarrow> procs" where
  "procs_init p cs =
     \<lparr>cp_pub = p, cp_confirms = 0, cp_next = 1, cp_streams = (\<lambda>_. []), cp_closed = (\<lambda>_. False),
      cp_procs = [Top], cp_callers = cs\<rparr>"

section \<open>Steps\<close>

text \<open>What a processor does next, the choice of the \<open>select\<close> being made by \<open>pick_done\<close>.\<close>

definition proc_step :: "bool \<Rightarrow> nat \<Rightarrow> procs \<Rightarrow> procs exec" where
  "proc_step pick_done i s =
     (case cp_procs s ! i of
        Top \<Rightarrow> Returns (s\<lparr>cp_procs := (cp_procs s)[i := Selecting (cp_confirms s) (pb_done (cp_pub s))]\<rparr>)
      | Selecting c d \<Rightarrow>
          (if pick_done then
             (if pb_doneClosed (cp_pub s) d then Returns (s\<lparr>cp_procs := (cp_procs s)[i := ProcExited]\<rparr>) else Blocks)
           else case cp_streams s c of
                  (t, ack) # rest \<Rightarrow>
                    Returns (s\<lparr>cp_streams := (cp_streams s)(c := rest), cp_procs := (cp_procs s)[i := Routing t ack]\<rparr>)
                | [] \<Rightarrow> if cp_closed s c then Returns (s\<lparr>cp_procs := (cp_procs s)[i := Clearing]\<rparr>) else Blocks)
      | Routing t ack \<Rightarrow>
          exec_bind (processConfirmation t ack (cp_pub s)) (\<lambda>p.
            Returns (s\<lparr>cp_pub := p, cp_procs := (cp_procs s)[i := Top]\<rparr>))
      | Clearing \<Rightarrow>
          exec_bind (clearPending (cp_pub s)) (\<lambda>p.
            Returns (s\<lparr>cp_pub := p, cp_procs := (cp_procs s)[i := ProcExited]\<rparr>))
      | ProcExited \<Rightarrow> Blocks)"

text \<open>
  The next step of a caller of \<open>ensureConfirmsSetup\<close>; \<open>channel\<close> says whether the client has a
  channel when the caller looks again after its sleep.
\<close>

definition caller_step :: "bool \<Rightarrow> nat \<Rightarrow> procs \<Rightarrow> procs exec" where
  "caller_step channel j s =
     (case cp_callers s ! j of
        Calling current \<Rightarrow>
          (if current = pb_channelID (cp_pub s) then Returns (s\<lparr>cp_callers := (cp_callers s)[j := Ready]\<rparr>)
           else exec_bind (confirmReset current (cp_pub s)) (\<lambda>p.
                  Returns (s\<lparr>cp_pub := p, cp_callers := (cp_callers s)[j := Locked (pb_done (cp_pub s)) current]\<rparr>)))
      | Locked oldDone current \<Rightarrow>
          exec_bind (close_done oldDone (cp_pub s)) (\<lambda>p.
            Returns (s\<lparr>cp_pub := p, cp_callers := (cp_callers s)[j := Stopped]\<rparr>))
      | Stopped \<Rightarrow>
          Returns (if channel
            then s\<lparr>cp_confirms := cp_next s, cp_next := Suc (cp_next s),
                   cp_pub := (cp_pub s)\<lparr>pb_started := True\<rparr>,
                   cp_procs := cp_procs s @ [Top], cp_callers := (cp_callers s)[j := Ready]\<rparr>
            else s\<lparr>cp_callers := (cp_callers s)[j := Ready]\<rparr>)
      | Ready \<Rightarrow> Blocks)"

inductive procs_step :: "procs \<Rightarrow> procs \<Rightarrow> bool" where
  processor: "i < length (cp_procs s) \<Longrightarrow> proc_step b i s = Returns t \<Longrightarrow> procs_step s t"
| resetter: "j < length (cp_callers s) \<Longrightarrow> caller_step ch j s = Returns t \<Longrightarrow> procs_step s t"
| new_caller: "procs_step s (s\<lparr>cp_callers := cp_callers s @ [Calling k]\<rparr>)"
| take_tag: "procs_step s (s\<lparr>cp_pub := snd (nextTag (cp_pub s))\<rparr>)"
| register: "procs_step s (s\<lparr>cp_pub := snd (registerPending t (cp_pub s))\<rparr>)"
| forget: "procs_step s (s\<lparr>cp_pub := deletePending t (cp_pub s)\<rparr>)"
| confirmed: "\<not> cp_closed s c \<Longrightarrow> procs_step s (s\<lparr>cp_streams := (cp_streams s)(c := cp_streams s c @ [(t, ack)])\<rparr>)"
| stream_closed: "procs_step s (s\<lparr>cp_closed := (cp_closed s)(c := True)\<rparr>)"
| closing: "publisher_Close (cp_pub s) = Returns p \<Longrightarrow> procs_step s (s\<lparr>cp_pub := p\<rparr>)"

section \<open>The table under any number of processors\<close>

text \<open>Every step acts on the table like one background event of the publisher, or not at all.\<close>

lemma pub_inv_done [simp]:
  "pub_inv (p\<lparr>pb_doneClosed := f\<rparr>) = pub_inv p" "pub_inv (p\<lparr>pb_started := b\<rparr>) = pub_inv p"
  by (simp_all add: pub_inv_def chan_open_def)

lemma close_done_inv: "close_done d p = Returns p' \<Longrightarrow> pub_inv p' = pub_inv p"
  by (auto simp: close_done_def split: if_splits)

lemma bg_keeps: "pub_inv p \<Longrightarrow> bg_step ev p = Returns p' \<Longrightarrow> pub_inv p'"
  using bg_table.run_inv [of p "[ev]"] by simp

lemma processConfirmation_keeps: "pub_inv p \<Longrightarrow> processConfirmation t ack p = Returns p' \<Longrightarrow> pub_inv p'"
  by (erule bg_keeps [of p "BgConfirm t ack"]) simp

lemma clearPending_keeps: "pub_inv p \<Longrightarrow> clearPending p = Returns p' \<Longrightarrow> pub_inv p'"
  by (erule bg_keeps [of p BgConfirmsClosed]) simp

lemma confirmReset_keeps: "pub_inv p \<Longrightarrow> confirmReset k p = Returns p' \<Longrightarrow> pub_inv p'"
  by (erule bg_keeps [of p "BgReset k"]) simp

lemma proc_step_inv:
  assumes "proc_step b i s = Returns t" "pub_inv (cp_pub s)"
  shows "pub_inv (cp_pub t)"
proof (cases "cp_procs s ! i")
  case (Routing tg ack)
  with assms obtain p where "processConfirmation tg ack (cp_pub s) = Returns p" "cp_pub t = p"
    by (auto simp: proc_step_def)
  with assms(2) processConfirmation_keeps show ?thesis by blast
next
  case Clearing
  with assms obtain p where "clearPending (cp_pub s) = Returns p" "cp_pub t = p" by (auto simp: proc_step_def)
  with assms(2) clearPending_keeps show ?thesis by blast
qed (use assms in \<open>auto simp: proc_step_def split: if_splits list.splits\<close>)

lemma caller_step_inv:
  assumes "caller_step b j s = Returns t" "pub_inv (cp_pub s)"
  shows "pub_inv (cp_pub t)"
proof (cases "cp_callers s ! j")
  case (Calling k)
  then consider "cp_pub t = cp_pub s" | p where "confirmReset k (cp_pub s) = Returns p" "cp_pub t = p"
    using assms(1) by (auto simp: caller_step_def split: if_splits)
  then show ?thesis using assms(2) confirmReset_keeps by cases auto
next
  case (Locked d k)
  with assms obtain p where "close_done d (cp_pub s) = Returns p" "cp_pub t = p" by (auto simp: caller_step_def)
  with assms(2) close_done_inv show ?thesis by blast
qed (use assms in \<open>auto simp: caller_step_def split: if_splits\<close>)

lemma procs_step_pub_inv: "procs_step s t \<Longrightarrow> pub_inv (cp_pub s) \<Longrightarrow> pub_inv (cp_pub t)"
proof (induction rule: procs_step.induct)
  case (take_tag s)
  then show ?case using bg_keeps [of _ BgNextTag] by simp
next
  case (register s t)
  then show ?case using bg_keeps [of _ "BgStore t"] by simp
next
  case (forget s t)
  then show ?case using bg_keeps [of _ "BgForget t"] by simp
next
  case (closing s p)
  then show ?case by (auto simp: publisher_Close_def split: if_splits dest: close_done_inv)
qed (auto dest: proc_step_inv caller_step_inv)

section \<open>Who can still stop a processor\<close>

text \<open>The \<open>done\<close> channels that are closed, current, or about to be closed by a reset in progress.\<close>

definition covered :: "procs \<Rightarrow> nat \<Rightarrow> bool" where
  "covered s d \<longleftrightarrow> pb_doneClosed (cp_pub s) d \<or> d = pb_done (cp_pub s) \<or>
     (\<exists>k. Locked d k \<in> set (cp_callers s))"

definition none_leaked :: "procs \<Rightarrow> bool" where
  "none_leaked s \<longleftrightarrow> (\<forall>c d. Selecting c d \<in> set (cp_procs s) \<longrightarrow> covered s d)"

lemma none_leaked_mono:
  "none_leaked s \<Longrightarrow> (\<And>d. covered s d \<Longrightarrow> covered t d) \<Longrightarrow>
   (\<And>c d. Selecting c d \<in> set (cp_procs t) \<Longrightarrow> Selecting c d \<in> set (cp_procs s) \<or> covered t d) \<Longrightarrow> none_leaked t"
  unfolding none_leaked_def by blast

lemma processConfirmation_done:
  "processConfirmation t ack p = Returns p' \<Longrightarrow> pb_done p' = pb_done p \<and> pb_doneClosed p' = pb_doneClosed p"
  by (auto simp: processConfirmation_def send_chan_def close_chan_def deletePending_def split: option.splits if_splits)

lemma close_all_done:
  "close_all cs p = Returns p' \<Longrightarrow>
   pb_done p' = pb_done p \<and> pb_doneClosed p' = pb_doneClosed p"
proof (induction cs arbitrary: p)
  case (Cons c cs)
  then obtain q where "close_chan c p = Returns q" "close_all cs q = Returns p'" by auto
  with Cons.IH [of q] show ?case by (auto simp: close_chan_def split: if_splits)
qed simp

lemma clearPending_done:
  "clearPending p = Returns p' \<Longrightarrow> pb_done p' = pb_done p \<and> pb_doneClosed p' = pb_doneClosed p"
  by (auto simp: clearPending_def dest: close_all_done)

lemma confirmReset_done: "confirmReset k p = Returns p' \<Longrightarrow> pb_doneClosed p' = pb_doneClosed p"
  by (auto simp: confirmReset_def Let_def dest!: clearPending_done split: if_splits)

lemma close_done_done: "close_done d p = Returns p' \<Longrightarrow>
   pb_done p' = pb_done p \<and> pb_doneClosed p' = (pb_doneClosed p)(d := True)"
  by (auto simp: close_done_def split: if_splits)

lemma Close_done: "publisher_Close p = Returns p' \<Longrightarrow>
   pb_done p' = pb_done p \<and> (\<forall>d. pb_doneClosed p d \<longrightarrow> pb_doneClosed p' d)"
  by (auto simp: publisher_Close_def split: if_splits dest: close_done_done)

lemma set_update_cases: "x \<in> set (xs[i := y]) \<Longrightarrow> x \<in> set xs \<or> x = y"
  by (metis insertE set_update_subset_insert subsetD)

lemma proc_step_leak:
  assumes "proc_step b i s = Returns t" "none_leaked s"
  shows "none_leaked t"
proof -
  have same: "covered s d = covered t d" for d
    using assms(1) by (auto simp: proc_step_def covered_def split: proc.splits if_splits list.splits
        dest!: processConfirmation_done clearPending_done)
  have "Selecting c d \<in> set (cp_procs s) \<or> covered t d" if "Selecting c d \<in> set (cp_procs t)" for c d
    using that assms(1) by (cases "cp_procs s ! i")
      (auto simp: proc_step_def covered_def dest!: set_update_cases split: if_splits list.splits)
  then show ?thesis using none_leaked_mono [OF assms(2)] same by blast
qed

lemma caller_step_leak:
  assumes "caller_step ch j s = Returns t" "none_leaked s" "j < length (cp_callers s)"
  shows "none_leaked t"
proof (rule none_leaked_mono [OF assms(2)])
  have upd: "Locked d k \<in> set ((cp_callers s)[j := c])" if "Locked d k \<in> set (cp_callers s)" "cp_callers s ! j \<noteq> Locked d k"
    for d k c using that by (metis in_set_conv_nth length_list_update nth_list_update_neq)
  show "covered t d" if d: "covered s d" for d
  proof (cases "cp_callers s ! j")
    case (Calling k)
    show ?thesis
    proof (cases "k = pb_channelID (cp_pub s)")
      case True
      then show ?thesis using assms(1) Calling d upd by (fastforce simp: caller_step_def covered_def)
    next
      case False
      then obtain p where p: "confirmReset k (cp_pub s) = Returns p" "cp_pub t = p"
        "cp_callers t = (cp_callers s)[j := Locked (pb_done (cp_pub s)) k]"
        using assms(1) Calling by (auto simp: caller_step_def)
      have "Locked (pb_done (cp_pub s)) k \<in> set (cp_callers t)"
        using assms(3) by (simp add: p(3) set_update_memI)
      with d show ?thesis using Calling upd confirmReset_done [OF p(1)] by (auto simp: covered_def p(2,3))
    qed
  next
    case (Locked od k)
    then obtain p where p: "close_done od (cp_pub s) = Returns p" "cp_pub t = p" "cp_callers t = (cp_callers s)[j := Stopped]"
      using assms(1) by (auto simp: caller_step_def)
    with d Locked upd close_done_done [OF p(1)] show ?thesis by (auto simp: covered_def)
  next
    case Stopped
    then show ?thesis using assms(1) d upd by (fastforce simp: caller_step_def covered_def split: if_splits)
  next
    case Ready
    then show ?thesis using assms(1) by (simp add: caller_step_def)
  qed
  show "Selecting c d \<in> set (cp_procs s) \<or> covered t d" if "Selecting c d \<in> set (cp_procs t)" for c d
    using that assms(1) by (cases "cp_callers s ! j") (auto simp: caller_step_def split: if_splits)
qed

lemma none_leaked_step: "procs_step s t \<Longrightarrow> none_leaked s \<Longrightarrow> none_leaked t"
proof (induction rule: procs_step.induct)
  case (processor i s b t)
  from processor(2,3) show ?case by (rule proc_step_leak)
next
  case (resetter j s ch t)
  from resetter(2,3,1) show ?case by (rule caller_step_leak)
next
  case (closing s p)
  then show ?case by (elim none_leaked_mono) (auto simp: covered_def dest: Close_done)
next
  case (register s t)
  then show ?case
    by (elim none_leaked_mono) (auto simp: covered_def registerPending_def make_chan_def)
qed (auto elim!: none_leaked_mono simp: covered_def nextTag_def deletePending_def)

definition procs_inv :: "procs \<Rightarrow> bool" where
  "procs_inv s \<longleftrightarrow> pub_inv (cp_pub s) \<and> none_leaked s"

interpretation confirms: invariant_system "\<lambda>s. \<exists>p cs. s = procs_init p cs \<and> pub_inv p" procs_step procs_inv
proof
  show "procs_inv s" if "\<exists>p cs. s = procs_init p cs \<and> pub_inv p" for s
    using that by (auto simp: procs_inv_def none_leaked_def procs_init_def)
qed (auto simp: procs_inv_def intro: none_leaked_step procs_step_pub_inv)

section \<open>Properties\<close>

text \<open>
  C13. Any number of confirmation processors is harmless to the table and none is lost for good.
  However resets, processors, confirmations and calls interleave, a processor inside its
  critical section always leaves it without blocking or panicking, so it never keeps the
  mutex, even while a second processor serves the same stream; and every processor waiting in
  its \<open>select\<close> waits on a \<open>done\<close> channel that is closed, is the current one, or is the one a reset in
  progress is about to close.
\<close>

theorem confirm_processors_safe:
  assumes "reach (\<lambda>s. \<exists>p cs. s = procs_init p cs \<and> pub_inv p) procs_step s" "i < length (cp_procs s)"
  shows "case cp_procs s ! i of
      Routing t ack \<Rightarrow> (\<exists>s'. proc_step b i s = Returns s' \<and> cp_procs s' ! i = Top)
    | Clearing \<Rightarrow> (\<exists>s'. proc_step b i s = Returns s' \<and> cp_procs s' ! i = ProcExited \<and> pb_pending (cp_pub s') = [])
    | Selecting c d \<Rightarrow> pb_doneClosed (cp_pub s) d \<or> d = pb_done (cp_pub s) \<or> (\<exists>k. Locked d k \<in> set (cp_callers s))
    | Top \<Rightarrow> True
    | ProcExited \<Rightarrow> True"
proof -
  have inv: "pub_inv (cp_pub s)" "none_leaked s" using confirms.reach_inv [OF assms(1)] by (simp_all add: procs_inv_def)
  show ?thesis
  proof (cases "cp_procs s ! i")
    case (Selecting c d)
    then have "covered s d" using inv(2) assms(2) unfolding none_leaked_def by (metis nth_mem)
    with Selecting show ?thesis by (simp add: covered_def)
  next
    case (Routing t ack)
    then show ?thesis
      using processConfirmation_inv [OF inv(1), of t ack] assms(2) by (auto simp: proc_step_def)
  next
    case Clearing
    then show ?thesis using clearPending_eq [OF inv(1)] assms(2) by (auto simp: proc_step_def)
  qed simp_all
qed

text \<open>A publisher on channel 1 whose processor has received a confirmation it has not yet routed.\<close>

definition busy_start :: pub where
  "busy_start = idle_pub\<lparr>pb_started := True, pb_channelID := Some 1\<rparr>"

definition busy :: "caller list \<Rightarrow> procs" where
  "busy cs = (procs_init busy_start cs)\<lparr>cp_procs := [Routing 5 True]\<rparr>"

lemma busy_channel: "pb_channelID busy_start \<noteq> Some 2"
  by (simp add: busy_start_def)

lemma busy_start_inv: "pub_inv busy_start"
  by (simp add: busy_start_def idle_pub_def pub_inv_def)

lemma reach_busy: "reach (\<lambda>s. \<exists>p cs. s = procs_init p cs \<and> pub_inv p) procs_step (busy cs)"
proof -
  let ?R = "reach (\<lambda>s. \<exists>p cs. s = procs_init p cs \<and> pub_inv p) procs_step"
  let ?s0 = "procs_init busy_start cs"
  let ?s1 = "?s0\<lparr>cp_procs := [Selecting 0 (pb_done busy_start)]\<rparr>"
  let ?s2 = "?s1\<lparr>cp_streams := (cp_streams ?s1)(0 := cp_streams ?s1 0 @ [(5, True)])\<rparr>"
  have 0: "?R ?s0" using busy_start_inv by (intro reach_init) blast
  have "procs_step ?s0 ?s1" by (rule processor [of 0 _ False]) (simp_all add: procs_init_def proc_step_def)
  with 0 have 1: "?R ?s1" by (rule reach_step)
  have "procs_step ?s1 ?s2" by (rule confirmed) (simp add: procs_init_def)
  with 1 have 2: "?R ?s2" by (rule reach_step)
  have "procs_step ?s2 (busy cs)"
    by (rule processor [of 0 _ False]) (simp_all add: procs_init_def proc_step_def busy_def fun_eq_iff)
  with 2 show ?thesis by (rule reach_step)
qed

theorem confirm_processors_safe_witness:
  "\<exists>s'. proc_step False 0 (busy []) = Returns s' \<and> cp_procs s' ! 0 = Top"
proof -
  have len: "0 < length (cp_procs (busy []))" "cp_procs (busy []) ! 0 = Routing 5 True"
    by (simp_all add: busy_def procs_init_def)
  show ?thesis using confirm_processors_safe [OF reach_busy len(1), of False] len(2) by simp
qed

text \<open>What the locked part of a reset leaves behind.\<close>

lemma confirmReset_result:
  assumes "pub_inv p"
  obtains p' where "confirmReset k p = Returns p'" "pub_inv p'" "pb_pending p' = []" "pb_channelID p' = k" "\<not> pb_started p'"
    "pb_done p' = (if pb_started p then pb_ndone p else pb_done p)" "pb_doneClosed p' = pb_doneClosed p"
proof -
  let ?q = "(if pb_started p then p\<lparr>pb_done := pb_ndone p, pb_ndone := Suc (pb_ndone p), pb_started := False\<rparr>
    else p)\<lparr>pb_deliveryTag := 0\<rparr>"
  have "pub_inv ?q" using assms by (simp add: pub_inv_def chan_open_def)
  note clr = clearPending_eq [OF this]
  then have r: "confirmReset k p = Returns (?q\<lparr>pb_chans := (\<lambda>c. if c \<in> pending_chans ?q then (pb_chans ?q c)\<lparr>rc_closed := True\<rparr>
      else pb_chans ?q c), pb_pending := [], pb_channelID := k\<rparr>)"
    by (simp add: confirmReset_def Let_def)
  show thesis by (rule that [OF r]) (simp_all add: pub_inv_def)
qed

lemma processConfirmation_empty:
  "pb_pending p = [] \<Longrightarrow> \<exists>l. processConfirmation t ack p = Returns (p\<lparr>pb_log := l\<rparr>)"
  by (auto simp: processConfirmation_def)

lemma pub_inv_log [simp]: "pub_inv (p\<lparr>pb_log := l\<rparr>) = pub_inv p"
  by (simp add: pub_inv_def chan_open_def)

lemma await_unlogged: "await c WResult (p\<lparr>pb_log := l\<rparr>) = await c WResult p"
  by (simp add: await_def recv_chan_def)

lemma cleared_entry:
  assumes "pub_inv p" "map_of (pb_pending p) t = Some c"
  obtains q where "clearPending p = Returns q" "pb_pending q = []" "pb_channelID q = pb_channelID p"
    "await c WResult q = Some ErrPublishConfirmTimeout"
proof -
  have "c \<in> pending_chans p" using map_of_SomeD [OF assms(2)] by force
  moreover have "chan_open p c" using assms(1) map_of_SomeD [OF assms(2)] by (force simp: pub_inv_def)
  ultimately show thesis
    by (intro that [OF clearPending_eq [OF assms(1)]]) (simp_all add: await_def recv_chan_def chan_open_def)
qed

text \<open>A processor that waits on a stream other than the current one clears the entries of the current one.\<close>

lemma stale_select_clears:
  assumes "pub_inv (cp_pub u)" "i < length (cp_procs u)" "cp_procs u ! i = Selecting c0 d" "cp_streams u c0 = []"
    "pb_channelID (cp_pub u) = k" "cp_confirms u \<noteq> c0" "\<not> cp_closed u (cp_confirms u)"
  shows "let (c, p) = registerPending t (cp_pub u); s6 = u\<lparr>cp_pub := p, cp_closed := (cp_closed u)(c0 := True)\<rparr>
    in \<exists>s7 s8. proc_step False i s6 = Returns s7 \<and> proc_step False i s7 = Returns s8 \<and>
      map_of (pb_pending p) t = Some c \<and> \<not> cp_closed s8 (cp_confirms s8) \<and> pb_channelID (cp_pub s8) = k \<and>
      pb_pending (cp_pub s8) = [] \<and> await c WResult (cp_pub s8) = Some ErrPublishConfirmTimeout \<and>
      (\<forall>ack. \<exists>q. processConfirmation t ack (cp_pub s8) = Returns q \<and> await c WResult q = Some ErrPublishConfirmTimeout)"
proof -
  obtain c p where r: "registerPending t (cp_pub u) = (c, p)" by fastforce
  have inv: "pub_inv p" "map_of (pb_pending p) t = Some c" "pb_channelID p = k"
    using registerPending_inv [OF assms(1) r] r assms(5) by (auto simp: registerPending_def make_chan_def update_conv)
  obtain q where q: "clearPending p = Returns q" "pb_pending q = []" "pb_channelID q = k"
    "await c WResult q = Some ErrPublishConfirmTimeout"
    using cleared_entry [OF inv(1,2)] inv(3) by metis
  let ?s6 = "u\<lparr>cp_pub := p, cp_closed := (cp_closed u)(c0 := True)\<rparr>"
  let ?s7 = "?s6\<lparr>cp_procs := (cp_procs u)[i := Clearing]\<rparr>"
  let ?s8 = "?s7\<lparr>cp_pub := q, cp_procs := (cp_procs u)[i := ProcExited]\<rparr>"
  have "proc_step False i ?s6 = Returns ?s7" using assms(3,4) by (simp add: proc_step_def)
  moreover have "proc_step False i ?s7 = Returns ?s8" using assms(2) q(1) by (simp add: proc_step_def)
  moreover have "\<exists>v. processConfirmation t ack q = Returns v \<and> await c WResult v = Some ErrPublishConfirmTimeout" for ack
    using processConfirmation_empty [OF q(2), of t ack] q(4) await_unlogged by auto
  ultimately show ?thesis
    using r inv(2) q(2-4) assms(6,7) by (auto simp: Let_def intro!: exI [of _ ?s7] exI [of _ ?s8])
qed

text \<open>
  C34. A processor that a reset finds busy can wipe out messages of the new channel. Let a caller
  reset the publisher for a new channel while a processor is routing a confirmation of the old
  stream. The locked part of the reset replaces \<open>p.done\<close> and gives the table to the new channel,
  but \<open>p.confirms\<close> still names the old stream; the processor finishes, comes back to its \<open>select\<close> in
  that window and so waits on the old stream with the new \<open>done\<close> channel. The caller closes the old
  \<open>done\<close> channel, which does not stop this processor, and completes the reset with a new stream.
  Now any message registered for the new channel is lost to its caller when the old stream closes:
  the processor clears the whole table, although the new stream is open and its confirmation is
  still to come. The caller gets a timeout, and the confirmation, when it arrives, finds no entry.
\<close>

theorem stale_processor_clears_new_entries:
  assumes "pub_inv (cp_pub s)" "pb_started (cp_pub s)" "Some k \<noteq> pb_channelID (cp_pub s)"
    and "\<not> pb_doneClosed (cp_pub s) (pb_done (cp_pub s))" "\<not> pb_doneClosed (cp_pub s) (pb_ndone (cp_pub s))"
      "pb_done (cp_pub s) \<noteq> pb_ndone (cp_pub s)"
    and "i < length (cp_procs s)" "cp_procs s ! i = Routing tg ack0"
    and "j < length (cp_callers s)" "cp_callers s ! j = Calling (Some k)"
    and "cp_streams s (cp_confirms s) = []" "cp_confirms s \<noteq> cp_next s" "\<not> cp_closed s (cp_next s)"
  shows "\<exists>s1 s2 s3 s4 s5. caller_step True j s = Returns s1 \<and> proc_step False i s1 = Returns s2 \<and>
    proc_step False i s2 = Returns s3 \<and> caller_step True j s3 = Returns s4 \<and> caller_step True j s4 = Returns s5 \<and>
    cp_callers s5 ! j = Ready \<and> pb_channelID (cp_pub s5) = Some k \<and>
    cp_confirms s5 = cp_next s \<and> \<not> cp_closed s5 (cp_confirms s5) \<and>
    cp_procs s5 ! i = Selecting (cp_confirms s) (pb_done (cp_pub s5)) \<and> \<not> pb_doneClosed (cp_pub s5) (pb_done (cp_pub s5)) \<and>
    (\<forall>t. let (c, p) = registerPending t (cp_pub s5);
           s6 = s5\<lparr>cp_pub := p, cp_closed := (cp_closed s5)(cp_confirms s := True)\<rparr>
         in \<exists>s7 s8. proc_step False i s6 = Returns s7 \<and> proc_step False i s7 = Returns s8 \<and>
           map_of (pb_pending p) t = Some c \<and> \<not> cp_closed s8 (cp_confirms s8) \<and> pb_channelID (cp_pub s8) = Some k \<and>
           pb_pending (cp_pub s8) = [] \<and> await c WResult (cp_pub s8) = Some ErrPublishConfirmTimeout \<and>
           (\<forall>ack. \<exists>q. processConfirmation t ack (cp_pub s8) = Returns q \<and>
              await c WResult q = Some ErrPublishConfirmTimeout))"
proof -
  let ?p = "cp_pub s"
  obtain p1 where p1: "confirmReset (Some k) ?p = Returns p1" "pub_inv p1" "pb_pending p1 = []" "pb_channelID p1 = Some k"
    "pb_done p1 = pb_ndone ?p" "pb_doneClosed p1 = pb_doneClosed ?p"
    using confirmReset_result [OF assms(1), of "Some k"] assms(2) by metis
  define s1 where "s1 = s\<lparr>cp_pub := p1, cp_callers := (cp_callers s)[j := Locked (pb_done ?p) (Some k)]\<rparr>"
  have 1: "caller_step True j s = Returns s1" using assms(3,10) p1(1) by (simp add: caller_step_def s1_def)
  obtain l where l: "processConfirmation tg ack0 p1 = Returns (p1\<lparr>pb_log := l\<rparr>)" using processConfirmation_empty [OF p1(3)] by blast
  define p2 where "p2 = p1\<lparr>pb_log := l\<rparr>"
  define s2 where "s2 = s1\<lparr>cp_pub := p2, cp_procs := (cp_procs s)[i := Top]\<rparr>"
  have 2: "proc_step False i s1 = Returns s2" using assms(8) l by (simp add: proc_step_def s1_def s2_def p2_def)
  define s3 where "s3 = s2\<lparr>cp_procs := (cp_procs s)[i := Selecting (cp_confirms s) (pb_ndone ?p)]\<rparr>"
  have 3: "proc_step False i s2 = Returns s3" using assms(7) p1(5) by (simp add: proc_step_def s1_def s2_def s3_def p2_def)
  define p4 where "p4 = p2\<lparr>pb_doneClosed := (pb_doneClosed ?p)(pb_done ?p := True)\<rparr>"
  define s4 where "s4 = s3\<lparr>cp_pub := p4, cp_callers := (cp_callers s)[j := Stopped]\<rparr>"
  have 4: "caller_step True j s3 = Returns s4"
    using assms(4,9) p1(6) by (simp add: caller_step_def close_done_def s1_def s2_def s3_def s4_def p2_def p4_def)
  define p5 where "p5 = p4\<lparr>pb_started := True\<rparr>"
  define s5 where "s5 = s4\<lparr>cp_confirms := cp_next s, cp_next := Suc (cp_next s), cp_pub := p5,
    cp_procs := cp_procs s3 @ [Top], cp_callers := (cp_callers s)[j := Ready]\<rparr>"
  have 5: "caller_step True j s4 = Returns s5"
    using assms(9) by (simp add: caller_step_def s1_def s2_def s3_def s4_def s5_def p5_def)
  have inv5: "pub_inv p5" "pb_channelID p5 = Some k" "pb_done p5 = pb_ndone ?p"
    using p1 by (simp_all add: p2_def p4_def p5_def)
  have s5: "cp_pub s5 = p5" "cp_procs s5 ! i = Selecting (cp_confirms s) (pb_ndone ?p)" "i < length (cp_procs s5)"
    "cp_streams s5 = cp_streams s" "cp_closed s5 = cp_closed s" "cp_confirms s5 = cp_next s" "cp_callers s5 ! j = Ready"
    using assms(7,9) by (simp_all add: s1_def s2_def s3_def s4_def s5_def nth_append)
  have stale: "cp_streams s5 (cp_confirms s) = []" "pb_channelID (cp_pub s5) = Some k" "cp_confirms s5 \<noteq> cp_confirms s"
    "\<not> cp_closed s5 (cp_confirms s5)" "pub_inv (cp_pub s5)"
    using s5 inv5 assms(11-13) by simp_all
  note stale_select_clears [OF stale(5) s5(3,2) stale(1-4)]
  with 1 2 3 4 5 inv5 s5 assms(5,6,13) show ?thesis
    by (intro exI [of _ s1] exI [of _ s2] exI [of _ s3] exI [of _ s4] exI [of _ s5])
      (simp add: p2_def p4_def p5_def p1(6))
qed

theorem stale_processor_clears_new_entries_witness:
  "\<exists>s s5. reach (\<lambda>s. \<exists>p cs. s = procs_init p cs \<and> pub_inv p) procs_step s \<and>
     exec_bind (caller_step True 0 s) (\<lambda>s1. exec_bind (proc_step False 0 s1) (\<lambda>s2. exec_bind (proc_step False 0 s2) (\<lambda>s3.
       exec_bind (caller_step True 0 s3) (caller_step True 0)))) = Returns s5 \<and>
     cp_procs s5 ! 0 = Selecting (cp_confirms s) (pb_done (cp_pub s5)) \<and> cp_confirms s5 \<noteq> cp_confirms s"
proof -
  let ?s = "busy [Calling (Some 2)]"
  have s: "pub_inv (cp_pub ?s)" "pb_started (cp_pub ?s)" "Some 2 \<noteq> pb_channelID (cp_pub ?s)"
    "\<not> pb_doneClosed (cp_pub ?s) (pb_done (cp_pub ?s))" "\<not> pb_doneClosed (cp_pub ?s) (pb_ndone (cp_pub ?s))"
    "pb_done (cp_pub ?s) \<noteq> pb_ndone (cp_pub ?s)" "0 < length (cp_procs ?s)" "cp_procs ?s ! 0 = Routing 5 True"
    "0 < length (cp_callers ?s)" "cp_callers ?s ! 0 = Calling (Some 2)" "cp_streams ?s (cp_confirms ?s) = []"
    "cp_confirms ?s \<noteq> cp_next ?s" "\<not> cp_closed ?s (cp_next ?s)"
    by (simp_all add: busy_def procs_init_def busy_start_def idle_pub_def pub_inv_def)
  from stale_processor_clears_new_entries [OF s] obtain s1 s2 s3 s4 s5 where
    "caller_step True 0 ?s = Returns s1" "proc_step False 0 s1 = Returns s2" "proc_step False 0 s2 = Returns s3"
    "caller_step True 0 s3 = Returns s4" "caller_step True 0 s4 = Returns s5" "cp_confirms s5 = cp_next ?s"
    "cp_procs s5 ! 0 = Selecting (cp_confirms ?s) (pb_done (cp_pub s5))" by blast
  with s(12) show ?thesis using reach_busy [of "[Calling (Some 2)]"] by (intro exI [of _ ?s] exI [of _ s5]) simp
qed

text \<open>
  C35. Overlapping resets ruin the publisher. If a second caller with yet another channel runs the locked
  part of its reset before the first has restarted the confirmations, \<open>p.started\<close> is false and \<open>p.done\<close>
  is not replaced again: both callers complete, but the second has closed the channel that is still
  \<open>p.done\<close>. From then on every processor may stop at its next \<open>select\<close>, \<open>Close\<close> panics, and so does the
  next call that finds a new channel.
\<close>

theorem overlapping_resets_panic:
  assumes "pub_inv (cp_pub s)" "pb_started (cp_pub s)" "k1 \<noteq> pb_channelID (cp_pub s)" "k2 \<noteq> k1"
    and "\<not> pb_doneClosed (cp_pub s) (pb_done (cp_pub s))" "\<not> pb_doneClosed (cp_pub s) (pb_ndone (cp_pub s))"
      "pb_done (cp_pub s) \<noteq> pb_ndone (cp_pub s)"
    and "i < length (cp_callers s)" "cp_callers s ! i = Calling k1" "j < length (cp_callers s)" "cp_callers s ! j = Calling k2" "i \<noteq> j"
  shows "\<exists>s1 s2 s3 s4 s5 s6. caller_step True i s = Returns s1 \<and> caller_step True j s1 = Returns s2 \<and>
    caller_step True i s2 = Returns s3 \<and> caller_step True i s3 = Returns s4 \<and>
    caller_step True j s4 = Returns s5 \<and> caller_step True j s5 = Returns s6 \<and>
    cp_callers s6 ! i = Ready \<and> cp_callers s6 ! j = Ready \<and> pb_channelID (cp_pub s6) = k2 \<and>
    pb_doneClosed (cp_pub s6) (pb_done (cp_pub s6)) \<and>
    publisher_Close (cp_pub s6) = Panics ''close of closed channel'' \<and>
    (\<forall>n k3. n < length (cp_callers s6) \<and> cp_callers s6 ! n = Calling k3 \<and> k3 \<noteq> k2 \<longrightarrow>
       (\<exists>s7. caller_step True n s6 = Returns s7 \<and> caller_step True n s7 = Panics ''close of closed channel''))"
proof -
  let ?p = "cp_pub s"
  obtain p1 where p1: "confirmReset k1 ?p = Returns p1" "pub_inv p1" "pb_channelID p1 = k1" "\<not> pb_started p1"
    "pb_done p1 = pb_ndone ?p" "pb_doneClosed p1 = pb_doneClosed ?p"
    using confirmReset_result [OF assms(1), of k1] assms(2) by metis
  define s1 where "s1 = s\<lparr>cp_pub := p1, cp_callers := (cp_callers s)[i := Locked (pb_done ?p) k1]\<rparr>"
  have 1: "caller_step True i s = Returns s1" using assms(3,9) p1(1) by (simp add: caller_step_def s1_def)
  obtain p2 where p2: "confirmReset k2 p1 = Returns p2" "pub_inv p2" "pb_channelID p2 = k2"
    "pb_done p2 = pb_ndone ?p" "pb_doneClosed p2 = pb_doneClosed ?p"
    using confirmReset_result [OF p1(2), of k2] p1(4-6) by metis
  define s2 where "s2 = s1\<lparr>cp_pub := p2, cp_callers := (cp_callers s1)[j := Locked (pb_ndone ?p) k2]\<rparr>"
  have 2: "caller_step True j s1 = Returns s2"
    using assms(4,10-12) p1(3,5) p2(1) by (simp add: caller_step_def s1_def s2_def)
  define p3 where "p3 = p2\<lparr>pb_doneClosed := (pb_doneClosed ?p)(pb_done ?p := True)\<rparr>"
  define s3 where "s3 = s2\<lparr>cp_pub := p3, cp_callers := (cp_callers s2)[i := Stopped]\<rparr>"
  have 3: "caller_step True i s2 = Returns s3"
    using assms(5,8,12) p2(5) by (simp add: caller_step_def close_done_def s1_def s2_def s3_def p3_def)
  define s4 where "s4 = s3\<lparr>cp_confirms := cp_next s, cp_next := Suc (cp_next s), cp_pub := p3\<lparr>pb_started := True\<rparr>,
    cp_procs := cp_procs s @ [Top], cp_callers := (cp_callers s3)[i := Ready]\<rparr>"
  have 4: "caller_step True i s3 = Returns s4"
    using assms(8,12) by (simp add: caller_step_def s1_def s2_def s3_def s4_def)
  define p5 where "p5 = p3\<lparr>pb_started := True, pb_doneClosed := (pb_doneClosed ?p)(pb_done ?p := True, pb_ndone ?p := True)\<rparr>"
  define s5 where "s5 = s4\<lparr>cp_pub := p5, cp_callers := (cp_callers s4)[j := Stopped]\<rparr>"
  have 5: "caller_step True j s4 = Returns s5"
    using assms(6,7,10,12) by (simp add: caller_step_def close_done_def s1_def s2_def s3_def s4_def s5_def p3_def p5_def)
  define s6 where "s6 = s5\<lparr>cp_confirms := Suc (cp_next s), cp_next := Suc (Suc (cp_next s)), cp_pub := p5\<lparr>pb_started := True\<rparr>,
    cp_procs := cp_procs s4 @ [Top], cp_callers := (cp_callers s5)[j := Ready]\<rparr>"
  have 6: "caller_step True j s5 = Returns s6"
    using assms(10) by (simp add: caller_step_def s1_def s2_def s3_def s4_def s5_def s6_def)
  have p6: "pub_inv (cp_pub s6)" "pb_channelID (cp_pub s6) = k2" "pb_started (cp_pub s6)"
    "pb_doneClosed (cp_pub s6) (pb_done (cp_pub s6))"
    using p2 by (simp_all add: s6_def p5_def p3_def)
  have next': "\<exists>s7. caller_step True n s6 = Returns s7 \<and> caller_step True n s7 = Panics ''close of closed channel''"
    if n: "n < length (cp_callers s6)" "cp_callers s6 ! n = Calling k3" "k3 \<noteq> k2" for n k3
  proof -
    obtain p7 where p7: "confirmReset k3 (cp_pub s6) = Returns p7" "pb_doneClosed p7 = pb_doneClosed (cp_pub s6)"
      using confirmReset_result [OF p6(1), of k3] by metis
    let ?s7 = "s6\<lparr>cp_pub := p7, cp_callers := (cp_callers s6)[n := Locked (pb_done (cp_pub s6)) k3]\<rparr>"
    have "caller_step True n s6 = Returns ?s7" using n(2,3) p6(2) p7(1) by (simp add: caller_step_def)
    moreover have "caller_step True n ?s7 = Panics ''close of closed channel''"
      using n(1) p6(4) p7(2) by (simp add: caller_step_def close_done_def)
    ultimately show ?thesis by blast
  qed
  have "cp_callers s6 ! i = Ready" "cp_callers s6 ! j = Ready"
    using assms(8,10,12) by (simp_all add: s1_def s2_def s3_def s4_def s5_def s6_def)
  moreover have "publisher_Close (cp_pub s6) = Panics ''close of closed channel''"
    using p6(3,4) by (simp add: publisher_Close_def close_done_def)
  ultimately show ?thesis using 1 2 3 4 5 6 p6(2,4) next' by blast
qed

theorem overlapping_resets_panic_witness:
  "\<exists>s6. publisher_Close (cp_pub s6) = Panics ''close of closed channel'' \<and>
     exec_bind (caller_step True 0 (busy [Calling (Some 2), Calling (Some 3)])) (\<lambda>s1. exec_bind (caller_step True 1 s1) (\<lambda>s2.
       exec_bind (caller_step True 0 s2) (\<lambda>s3. exec_bind (caller_step True 0 s3) (\<lambda>s4.
         exec_bind (caller_step True 1 s4) (caller_step True 1))))) = Returns s6"
proof -
  let ?s = "busy [Calling (Some 2), Calling (Some 3)]"
  have s: "pub_inv (cp_pub ?s)" "pb_started (cp_pub ?s)" "Some 2 \<noteq> pb_channelID (cp_pub ?s)" "Some 3 \<noteq> Some (2 :: nat)"
    "\<not> pb_doneClosed (cp_pub ?s) (pb_done (cp_pub ?s))" "\<not> pb_doneClosed (cp_pub ?s) (pb_ndone (cp_pub ?s))"
    "pb_done (cp_pub ?s) \<noteq> pb_ndone (cp_pub ?s)" "0 < length (cp_callers ?s)" "cp_callers ?s ! 0 = Calling (Some 2)"
    "1 < length (cp_callers ?s)" "cp_callers ?s ! 1 = Calling (Some 3)" "0 \<noteq> (1 :: nat)"
    by (simp_all add: busy_def procs_init_def busy_start_def idle_pub_def pub_inv_def)
  from overlapping_resets_panic [OF s] obtain s1 s2 s3 s4 s5 s6 where
    "caller_step True 0 ?s = Returns s1" "caller_step True 1 s1 = Returns s2" "caller_step True 0 s2 = Returns s3"
    "caller_step True 0 s3 = Returns s4" "caller_step True 1 s4 = Returns s5" "caller_step True 1 s5 = Returns s6"
    "publisher_Close (cp_pub s6) = Panics ''close of closed channel''" by blast
  then show ?thesis by (intro exI [of _ s6]) simp
qed

end
