(* ===== verification/Router.thy ===== *)
theory Router
  imports Amqp Json
begin

text \<open>
  The package \<open>router\<close>: the handler table, the message context with its header accessors and
  retry count, acknowledgement, and the view of a dead-lettered message. Header maps live in
  the store, so the accessors read it. A handler is user code: a function of the context it
  is given and the world, which returns its error, the context as it leaves it and the world.
\<close>

section \<open>Message contexts\<close>

definition CountHeader :: string where
  "CountHeader = ''x-retry-count''"

record MessageContext =
  mc_Delivery :: delivery

definition GetType :: "MessageContext \<Rightarrow> string" where
  "GetType c =
     (case unmarshal_type (d_Body (mc_Delivery c)) of None \<Rightarrow> [] | Some t \<Rightarrow> t)"

text \<open>
  \<open>BindJSON\<close> into an empty \<open>map[string]any\<close>: whether it succeeds, and the map. Other targets are
  types of the caller.
\<close>

definition BindJSON :: "MessageContext \<Rightarrow> bool \<times> gvalue" where
  "BindJSON c = unmarshal_map (d_Body (mc_Delivery c))"

definition GetHeader :: "heap \<Rightarrow> MessageContext \<Rightarrow> string \<Rightarrow> gvalue" where
  "GetHeader h c key =
     (case d_Headers (mc_Delivery c) of
        None \<Rightarrow> VNil
      | Some a \<Rightarrow> (case hp_map h a key of None \<Rightarrow> VNil | Some v \<Rightarrow> v))"

fun retry_count_of :: "gvalue \<Rightarrow> int" where
  "retry_count_of (VInt n) = n"
| "retry_count_of (VInt32 n) = n"
| "retry_count_of (VInt64 n) = n"
| "retry_count_of (VFloat64 f) = float64_to_int f"
| "retry_count_of _ = 0"

definition GetRetryCount :: "heap \<Rightarrow> MessageContext \<Rightarrow> int" where
  "GetRetryCount h c =
     (case d_Headers (mc_Delivery c) of
        None \<Rightarrow> 0
      | Some a \<Rightarrow> (case hp_map h a CountHeader of None \<Rightarrow> 0 | Some v \<Rightarrow> retry_count_of v))"

definition GetTraceID :: "heap \<Rightarrow> MessageContext \<Rightarrow> string" where
  "GetTraceID h c = (case as_string (GetHeader h c ''trace_id'') of None \<Rightarrow> [] | Some t \<Rightarrow> t)"

definition mc_Body :: "MessageContext \<Rightarrow> string" where
  "mc_Body c = d_Body (mc_Delivery c)"

definition mc_Ack :: "env \<Rightarrow> MessageContext \<Rightarrow> world \<Rightarrow> goerror option \<times> world" where
  "mc_Ack e c w = call_err e (AckCall (d_DeliveryTag (mc_Delivery c)) False) w"

definition mc_Nack :: "env \<Rightarrow> MessageContext \<Rightarrow> bool \<Rightarrow> world \<Rightarrow> goerror option \<times> world" where
  "mc_Nack e c requeue w = call_err e (NackCall (d_DeliveryTag (mc_Delivery c)) False requeue) w"

section \<open>The handler table\<close>

type_synonym handler = "MessageContext \<Rightarrow> world \<Rightarrow> goerror option \<times> MessageContext \<times> world"

text \<open>A registered handler may be the nil interface, which is \<^term>\<open>None\<close>.\<close>

record Router =
  rt_handlers :: "string \<rightharpoonup> handler option"

definition NewRouter :: Router where
  "NewRouter = \<lparr>rt_handlers = Map.empty\<rparr>"

definition Handle :: "string \<Rightarrow> handler option \<Rightarrow> Router \<Rightarrow> Router" where
  "Handle eventType svc r = r\<lparr>rt_handlers := (rt_handlers r)(eventType \<mapsto> svc)\<rparr>"

definition GetHandler :: "Router \<Rightarrow> string \<Rightarrow> handler option" where
  "GetHandler r eventType = (case rt_handlers r eventType of None \<Rightarrow> None | Some svc \<Rightarrow> svc)"

text \<open>
  The contract between a handler table and the consumer that asks it: a registration answers
  for its own event type and for no other, and the latest one wins.
\<close>

locale handler_table =
  fixes empty_table :: "'r"
    and register :: "string \<Rightarrow> 'h option \<Rightarrow> 'r \<Rightarrow> 'r"
    and lookup :: "'r \<Rightarrow> string \<Rightarrow> 'h option"
  assumes lookup_empty: "lookup empty_table t = None"
    and lookup_register: "lookup (register t svc r) t' = (if t' = t then svc else lookup r t')"
begin

text \<open>Registering a list of handlers in order, from an empty table.\<close>

lemma lookup_fold_register:
  "lookup (fold (\<lambda>(t, svc). register t svc) regs r) t =
     (case map_of (rev regs) t of None \<Rightarrow> lookup r t | Some svc \<Rightarrow> svc)"
  by (induction regs arbitrary: r) (auto simp: lookup_register map_add_def split: option.splits)

lemma register_commute:
  "t \<noteq> t' \<Longrightarrow> lookup (register t svc (register t' svc' r)) = lookup (register t' svc' (register t svc r))"
  by (rule ext) (simp add: lookup_register)

end

interpretation rt: handler_table NewRouter Handle GetHandler
  by unfold_locales (simp_all add: NewRouter_def Handle_def GetHandler_def)

section \<open>Dead-lettered messages\<close>

record DLQMessage =
  dm_Context :: MessageContext
  OriginalQueue :: string
  OriginalExchange :: string
  OriginalRoutingKey :: string
  RetryCount :: int
  DeathReason :: string
  DeathCount :: int
  FirstDeathTimestamp :: int

text \<open>The type assertions on the first \<open>x-death\<close> entry, each leaving its default when it fails.\<close>

definition death_string :: "gtable \<Rightarrow> string \<Rightarrow> string" where
  "death_string t key =
     (case t key of None \<Rightarrow> [] | Some v \<Rightarrow> (case as_string v of None \<Rightarrow> [] | Some s \<Rightarrow> s))"

definition death_routing_key :: "gtable \<Rightarrow> string" where
  "death_routing_key t =
     (case t ''routing-keys'' of
        Some (VArray (rk # _)) \<Rightarrow> (case as_string rk of None \<Rightarrow> [] | Some s \<Rightarrow> s)
      | _ \<Rightarrow> [])"

definition death_count :: "gtable \<Rightarrow> int" where
  "death_count t =
     (case t ''count'' of Some (VInt64 n) \<Rightarrow> n | Some (VInt32 n) \<Rightarrow> n | _ \<Rightarrow> 0)"

definition death_time :: "gtable \<Rightarrow> int" where
  "death_time t = (case t ''time'' of Some (VTime ts) \<Rightarrow> time_Unix ts | _ \<Rightarrow> 0)"

definition NewDLQMessage :: "heap \<Rightarrow> MessageContext \<Rightarrow> DLQMessage" where
  "NewDLQMessage h c =
     (let m = \<lparr>dm_Context = c, OriginalQueue = [], OriginalExchange = [], OriginalRoutingKey = [],
               RetryCount = GetRetryCount h c, DeathReason = [], DeathCount = 0,
               FirstDeathTimestamp = 0\<rparr>
      in case map_get h (d_Headers (mc_Delivery c)) ''x-death'' of
           Some (VArray (first # _)) \<Rightarrow>
             (case as_table first of
                None \<Rightarrow> m
              | Some t \<Rightarrow>
                  m\<lparr>OriginalQueue := death_string t ''queue'',
                    OriginalExchange := death_string t ''exchange'',
                    OriginalRoutingKey := death_routing_key t,
                    DeathReason := death_string t ''reason'',
                    DeathCount := death_count t,
                    FirstDeathTimestamp := death_time t\<rparr>)
         | _ \<Rightarrow> m)"

definition DLQ_ShouldRetry :: "DLQMessage \<Rightarrow> int \<Rightarrow> bool" where
  "DLQ_ShouldRetry d maxRetries = (RetryCount d < maxRetries)"

definition GetDeathInfo :: "DLQMessage \<Rightarrow> string" where
  "GetDeathInfo d =
     ''DLQ Message: queue='' @ OriginalQueue d @ '', exchange='' @ OriginalExchange d
     @ '', routing_key='' @ OriginalRoutingKey d @ '', reason='' @ DeathReason d
     @ '', retry_count='' @ show_int (RetryCount d) @ '', death_count='' @ show_int (DeathCount d)"

definition ResetRetryCount :: "DLQMessage \<Rightarrow> DLQMessage" where
  "ResetRetryCount d = d\<lparr>RetryCount := 0\<rparr>"

definition GetOriginalDestination :: "heap \<Rightarrow> DLQMessage \<Rightarrow> string" where
  "GetOriginalDestination h d =
     (if OriginalQueue d \<noteq> [] then OriginalQueue d
      else (case map_get h (d_Headers (mc_Delivery (dm_Context d))) ''x-first-death-queue'' of
              None \<Rightarrow> []
            | Some v \<Rightarrow> (case as_string v of None \<Rightarrow> [] | Some q \<Rightarrow> q)))"

end
