(* ===== verification/Consumer.thy ===== *)
theory Consumer
  imports Publisher Router Circuit_Breaker
begin

text \<open>
  The retry handler of \<open>internal/broker/retry.go\<close> and the consumer of
  \<open>internal/broker/consumer.go\<close>: what one worker does with one delivery, from the trace id to
  the acknowledgement, and sequences of deliveries. The user's handlers are the functions in
  the router. The script of an iteration says how its \<open>Publish\<close> interleaves with the rest of
  the publisher and which breaker operations other workers perform while the handler runs.
\<close>

section \<open>Retry\<close>

record retry_handler =
  rh_maxRetries :: int

definition NewHandler :: "int \<Rightarrow> retry_handler" where
  "NewHandler maxRetries = \<lparr>rh_maxRetries = maxRetries\<rparr>"

definition ShouldRetry :: "heap \<Rightarrow> retry_handler \<Rightarrow> delivery \<Rightarrow> bool \<times> int" where
  "ShouldRetry h rh d =
     (let retryCount = GetRetryCount h \<lparr>mc_Delivery = d\<rparr>
      in if retryCount \<ge> rh_maxRetries rh then (False, retryCount) else (True, retryCount))"

text \<open>The map a nil-or-not header reference is written through, allocating it when nil.\<close>

definition header_map :: "mapref \<Rightarrow> heap \<Rightarrow> nat \<times> heap" where
  "header_map r h = (case r of Some a \<Rightarrow> (a, h) | None \<Rightarrow> make_map Map.empty h)"

definition retry_message :: "delivery \<Rightarrow> nat \<Rightarrow> time \<Rightarrow> publishing" where
  "retry_message d a now =
     \<lparr>p_Headers = Some a, p_ContentType = d_ContentType d, p_DeliveryMode = Persistent,
      p_Priority = d_Priority d, p_CorrelationId = d_CorrelationId d, p_ReplyTo = d_ReplyTo d,
      p_Expiration = d_Expiration d, p_MessageId = d_MessageId d, p_Timestamp = now,
      p_Type = d_Type d, p_UserId = d_UserId d, p_AppId = d_AppId d, p_Body = d_Body d\<rparr>"

definition Retry :: "env \<Rightarrow> client \<Rightarrow> publish_script \<Rightarrow> retry_handler \<Rightarrow> delivery \<Rightarrow> pub \<Rightarrow> world \<Rightarrow>
    (goerror option \<times> pub \<times> world) exec" where
  "Retry e cl sc rh d p w =
     (case ShouldRetry (w_heap w) rh d of (shouldRetry, retryCount) \<Rightarrow>
        if \<not> shouldRetry then Returns (Some ErrMaxRetriesExceeded, p, w)
        else
          (let retryCount' = inc64 retryCount;
               (a, h1) = header_map (d_Headers d) (w_heap w);
               w1 = w\<lparr>w_heap := map_put a CountHeader (VInt retryCount') h1\<rparr>;
               (now, w2) = time_Now e w1
           in Publish e cl sc (d_Exchange d) (d_RoutingKey d) (retry_message d a now) p w2))"

section \<open>The consumer\<close>

record consumer =
  cs_client :: client
  cs_pub :: pub
  cs_router :: Router
  cs_breaker :: "breaker option"

definition NewConsumer :: "env \<Rightarrow> client \<Rightarrow> pub \<Rightarrow> Router \<Rightarrow> world \<Rightarrow> consumer \<times> world" where
  "NewConsumer e cl p r w =
     (let cfg = cl_config cl
      in if CircuitBreakerEnabled cfg
         then (case time_Now e w of (now, w1) \<Rightarrow>
                 (\<lparr>cs_client = cl, cs_pub = p, cs_router = r,
                   cs_breaker = Some (cb_New
                     \<lparr>MaxFailures = CircuitBreakerMaxFailures cfg,
                      ResetTimeout = CircuitBreakerResetTimeout cfg,
                      HalfOpenMaxRequests = CircuitBreakerHalfOpenRequests cfg,
                      OnStateChange = True\<rparr> now)\<rparr>, w1))
         else (\<lparr>cs_client = cl, cs_pub = p, cs_router = r, cs_breaker = None\<rparr>, w))"

text \<open>\<open>Consume\<close> itself: the checks, the subscription, and the ids of the workers it starts.\<close>

definition Consume :: "env \<Rightarrow> consumer \<Rightarrow> string \<Rightarrow> int \<Rightarrow> world \<Rightarrow> (goerror + int list) \<times> world" where
  "Consume e cs queue workers w =
     (if cl_closed (cs_client cs) then (Inl ErrClientClosed, w)
      else case cl_channel (cs_client cs) of
             None \<Rightarrow> (Inl ErrNoChannel, w)
           | Some ch \<Rightarrow>
               (case call_err e (Amqp.Consume ch queue [] False False False False None) w of
                  (Some err, w1) \<Rightarrow> (Inl (NewConsumeError queue (Some err)), w1)
                | (None, w1) \<Rightarrow> (Inr [0..workers - 1], w1)))"

record worker_script =
  ws_publish :: publish_script
  ws_others :: "cb_op list"

text \<open>The trace id of a delivery; a missing one is generated and written to its header map.\<close>

definition trace_delivery :: "env \<Rightarrow> delivery \<Rightarrow> world \<Rightarrow> string \<times> delivery \<times> world" where
  "trace_delivery e d w =
     (case map_get (w_heap w) (d_Headers d) ''trace_id'' of
        Some (VString t) \<Rightarrow> (t, d, w)
      | _ \<Rightarrow>
          (let (a, h1) = header_map (d_Headers d) (w_heap w);
               (t, w1) = uuid_New e (w\<lparr>w_heap := h1\<rparr>)
           in (t, d\<lparr>d_Headers := Some a\<rparr>, w1\<lparr>w_heap := map_put a ''trace_id'' (VString t) h1\<rparr>)))"

text \<open>What a worker logs of a delivery: the error of decoding its body, then the decoded body.\<close>

definition log_received :: "env \<Rightarrow> int \<Rightarrow> string \<Rightarrow> delivery \<Rightarrow> world \<Rightarrow> world" where
  "log_received e workerID traceID d w =
     (case unmarshal_map (d_Body d) of (ok, bodyJSON) \<Rightarrow>
        (let w1 = (if ok then w
                   else log LError ''Consumer Worker: Failed to unmarshal event body''
                          [(''worker_id'', VInt workerID), (''error'', VString (json_error e (d_Body d))),
                           (''trace_id'', VString traceID)] w)
         in log LDebug ''Consumer Worker: Received event''
              [(''worker_id'', VInt workerID), (''trace_id'', VString traceID),
               (''event_type'', VString (d_Type d)), (''event'', bodyJSON)] w1))"

definition allow_delivery :: "env \<Rightarrow> breaker option \<Rightarrow> world \<Rightarrow> bool \<times> breaker option \<times> world" where
  "allow_delivery e cb w =
     (case cb of
        None \<Rightarrow> (True, None, w)
      | Some b \<Rightarrow>
          (let (now, w1) = time_Now e w; (now', w2) = time_Now e w1;
               (ok, b1) = AllowRequest now now' b
           in (ok, Some b1, w2)))"

definition record_failure :: "env \<Rightarrow> breaker option \<Rightarrow> world \<Rightarrow> breaker option \<times> world" where
  "record_failure e cb w =
     (case cb of
        None \<Rightarrow> (None, w)
      | Some b \<Rightarrow>
          (let (now, w1) = time_Now e w; (now', w2) = time_Now e w1
           in (Some (RecordFailure now now' b), w2)))"

definition record_success :: "env \<Rightarrow> breaker option \<Rightarrow> world \<Rightarrow> breaker option \<times> world" where
  "record_success e cb w =
     (case cb of
        None \<Rightarrow> (None, w)
      | Some b \<Rightarrow> (case time_Now e w of (now, w1) \<Rightarrow> (Some (RecordSuccess now b), w1)))"

text \<open>What follows a handler's error: the log line, the breaker, the retry and its outcome.\<close>

definition log_handler_error :: "int \<Rightarrow> MessageContext \<Rightarrow> goerror \<Rightarrow> world \<Rightarrow> world" where
  "log_handler_error workerID mc err w =
     (let fields = [(''worker_id'', VInt workerID), (''trace_id'', VString (GetTraceID (w_heap w) mc)),
                    (''error'', VString (Error err))]
      in if IsExpectedRetry err
         then log LWarn ''Consumer Worker: Handler error (expected, retrying)'' fields w
         else log LError ''Consumer Worker: Handler error'' fields w)"

definition settle_retry :: "env \<Rightarrow> int \<Rightarrow> string \<Rightarrow> MessageContext \<Rightarrow> goerror option \<Rightarrow> world \<Rightarrow> world" where
  "settle_retry e workerID traceID mc retryErr w =
     (let fields = [(''worker_id'', VInt workerID), (''trace_id'', VString traceID)]
      in if (case retryErr of None \<Rightarrow> False | Some err \<Rightarrow> errors_Is err MaxRetriesExceeded)
         then snd (mc_Nack e mc False
                (log LWarn ''Consumer Worker: Max retries exceeded, discarding message'' fields w))
         else case retryErr of
                Some err \<Rightarrow>
                  snd (mc_Nack e mc False
                    (log LError ''Consumer Worker: Retry failed, nacking message''
                       [(''worker_id'', VInt workerID), (''error'', VString (Error err)),
                        (''trace_id'', VString traceID)] w))
              | None \<Rightarrow>
                  snd (mc_Ack e mc
                    (log LDebug ''Consumer Worker: Message requeued for retry''
                       (fields @ [(''retry_count'', VInt (inc64 (GetRetryCount (w_heap w) mc)))]) w)))"

definition handle_failure :: "env \<Rightarrow> worker_script \<Rightarrow> int \<Rightarrow> string \<Rightarrow> delivery \<Rightarrow> MessageContext \<Rightarrow> goerror \<Rightarrow>
    consumer \<Rightarrow> world \<Rightarrow> (consumer \<times> world) exec" where
  "handle_failure e ws workerID traceID d mc err cs w =
     (let w1 = log_handler_error workerID mc err w;
          (cb, w2) = record_failure e (cs_breaker cs) w1;
          rh = NewHandler (MaxRetries (cl_config (cs_client cs)))
      in exec_bind (Retry e (cs_client cs) (ws_publish ws) rh d (cs_pub cs) w2) (\<lambda>(retryErr, p, w3).
           Returns (cs\<lparr>cs_breaker := cb, cs_pub := p\<rparr>,
                    settle_retry e workerID traceID mc retryErr w3)))"

definition handle_success :: "env \<Rightarrow> int \<Rightarrow> string \<Rightarrow> MessageContext \<Rightarrow> consumer \<Rightarrow> world \<Rightarrow> consumer \<times> world" where
  "handle_success e workerID traceID mc cs w =
     (let (ackErr, w1) = mc_Ack e mc w;
          w2 = (case ackErr of
                  None \<Rightarrow> w1
                | Some err \<Rightarrow> log LError ''Consumer Worker: Failed to ack message''
                    [(''worker_id'', VInt workerID), (''error'', VString (Error err)),
                     (''trace_id'', VString traceID)] w1);
          (cb, w3) = record_success e (cs_breaker cs) w2
      in (cs\<lparr>cs_breaker := cb\<rparr>, w3))"

text \<open>One iteration of a worker's loop.\<close>

definition worker_step :: "env \<Rightarrow> worker_script \<Rightarrow> int \<Rightarrow> delivery \<Rightarrow> consumer \<Rightarrow> world \<Rightarrow>
    (consumer \<times> world) exec" where
  "worker_step e ws workerID d0 cs w0 =
     (let (traceID, d, w1) = trace_delivery e d0 w0;
          w2 = log_received e workerID traceID d w1;
          mc = \<lparr>mc_Delivery = d\<rparr>;
          (allowed, cb, w3) = allow_delivery e (cs_breaker cs) w2;
          cs1 = cs\<lparr>cs_breaker := cb\<rparr>
      in if \<not> allowed then
           Returns (cs1, snd (mc_Nack e mc False
             (log LWarn ''Consumer Worker: Circuit breaker is open, rejecting message''
                [(''worker_id'', VInt workerID),
                 (''state'', VOther (State_String (m_State (GetMetrics (the cb))))),
                 (''trace_id'', VString traceID)] w3)))
         else case GetHandler (cs_router cs1) (GetType mc) of
                None \<Rightarrow>
                  Returns (cs1, snd (mc_Ack e mc
                    (log LError ''Consumer Worker: No handler found for message type''
                       [(''worker_id'', VInt workerID), (''type'', VString (GetType mc)),
                        (''trace_id'', VString traceID)] w3)))
              | Some svc \<Rightarrow>
                  (case svc mc w3 of (r, mc1, w4) \<Rightarrow>
                     let cs2 = cs1\<lparr>cs_breaker := map_option (cb_run (ws_others ws)) (cs_breaker cs1)\<rparr>
                     in case r of
                          Some err \<Rightarrow> handle_failure e ws workerID traceID d mc1 err cs2 w4
                        | None \<Rightarrow> Returns (handle_success e workerID traceID mc1 cs2 w4)))"

text \<open>
  Iterations in a row, the client and the publisher passed on as the last one left them; \<open>Progress\<close>
  and \<open>System\<close> let other goroutines act, and the client reconnect, in between.
\<close>

fun worker_run :: "env \<Rightarrow> (worker_script \<times> int \<times> delivery) list \<Rightarrow> consumer \<Rightarrow> world \<Rightarrow>
    (consumer \<times> world) exec" where
  "worker_run e [] cs w = Returns (cs, w)"
| "worker_run e ((ws, workerID, d) # xs) cs w =
     exec_bind (worker_step e ws workerID d cs w) (\<lambda>(cs1, w1). worker_run e xs cs1 w1)"

section \<open>Metrics and reset\<close>

definition GetCircuitBreakerMetrics :: "consumer \<Rightarrow> Metrics option" where
  "GetCircuitBreakerMetrics cs = map_option GetMetrics (cs_breaker cs)"

definition ResetCircuitBreaker :: "env \<Rightarrow> consumer \<Rightarrow> world \<Rightarrow> bool \<times> consumer \<times> world" where
  "ResetCircuitBreaker e cs w =
     (case cs_breaker cs of
        None \<Rightarrow> (False, cs, w)
      | Some b \<Rightarrow> (case time_Now e w of (now, w1) \<Rightarrow> (True, cs\<lparr>cs_breaker := Some (Reset now b)\<rparr>, w1)))"

section \<open>Effects on the world\<close>

text \<open>Acknowledgements among the library calls.\<close>

fun is_settle :: "amqp_call \<Rightarrow> bool" where
  "is_settle (AckCall t m) = True"
| "is_settle (NackCall t m r) = True"
| "is_settle _ = False"

text \<open>The delivery tags a list of calls settles, in order.\<close>

fun settle_tag :: "amqp_call \<Rightarrow> tag list" where
  "settle_tag (AckCall t m) = [t]"
| "settle_tag (NackCall t m r) = [t]"
| "settle_tag _ = []"

definition settled_tags :: "amqp_call list \<Rightarrow> tag list" where
  "settled_tags cs = concat (map settle_tag cs)"

lemma settled_tags_simps [simp]:
  "settled_tags [] = []" "settled_tags (xs @ ys) = settled_tags xs @ settled_tags ys"
  "settled_tags (AckCall t m # xs) = t # settled_tags xs" "settled_tags (NackCall t m r # xs) = t # settled_tags xs"
  by (simp_all add: settled_tags_def)

lemma settled_tags_none: "filter is_settle xs = [] \<Longrightarrow> settled_tags xs = []"
proof (induction xs)
  case (Cons x xs)
  then show ?case by (cases x) (simp_all add: settled_tags_def)
qed simp

text \<open>\<open>w'\<close> follows \<open>w\<close> by the calls \<open>new\<close>, none of which settles a delivery.\<close>

definition no_settle :: "world \<Rightarrow> amqp_call list \<Rightarrow> world \<Rightarrow> bool" where
  "no_settle w new w' \<longleftrightarrow> w_calls w' = w_calls w @ new \<and> filter is_settle new = []"

lemma no_settle_refl: "w_calls w' = w_calls w \<Longrightarrow> no_settle w [] w'"
  by (simp add: no_settle_def)

lemma no_settle_trans: "no_settle w xs w1 \<Longrightarrow> no_settle w1 ys w2 \<Longrightarrow> no_settle w (xs @ ys) w2"
  by (simp add: no_settle_def)

lemma time_Now_simps [simp]:
  "w_calls (snd (time_Now e w)) = w_calls w" "w_heap (snd (time_Now e w)) = w_heap w"
  by (simp_all add: time_Now_def)

lemma uuid_New_simps [simp]:
  "w_calls (snd (uuid_New e w)) = w_calls w" "w_heap (snd (uuid_New e w)) = w_heap w"
  by (simp_all add: uuid_New_def)

lemma setup_world:
  assumes "ensureConfirmsSetup e cl p w = Returns (p0, w0)"
  shows "w_heap w0 = w_heap w \<and> (\<exists>new. no_settle w new w0 \<and> (\<forall>c \<in> set new. \<exists>n. c = NotifyPublish n))"
proof -
  from assms have "w0 = w \<or> (\<exists>ch. w_calls w0 = w_calls w @ [NotifyPublish ch] \<and> w_heap w0 = w_heap w)"
    by (auto simp: ensureConfirmsSetup_def Let_def call_def split: if_splits option.splits)
  then show ?thesis by (auto simp: no_settle_def)
qed

lemma await_log_world [simp]:
  "w_calls (await_log ex rk t d c wk q v) = w_calls v" "w_heap (await_log ex rk t d c wk q v) = w_heap v"
  by (auto simp: await_log_def Let_def split: wake.splits received.splits)

lemma channel_publish_world:
  assumes "channel_publish e cl ex rk msg w = Returns (r, w1)"
  shows "\<exists>ch. w1 = w\<lparr>w_calls := w_calls w @ [PublishWithContext ch ex rk False False msg
    (map_snapshot (w_heap w) (p_Headers msg))]\<rparr>"
  using assms by (auto simp: channel_publish_def call_err_eq split: option.splits reply.splits)

lemma Publish_sends:
  assumes "Publish e cl sc ex rk msg p w = Returns (x, p', w')"
    "ensureConfirmsSetup e cl p w = Returns (p0, w0)"
  shows "w' = w0 \<and> x \<noteq> None \<or> (\<exists>r w1. channel_publish e (sc_client sc) ex rk msg w0 = Returns (r, w1) \<and>
      w_calls w' = w_calls w1 \<and> w_heap w' = w_heap w1)"
proof (cases "cl_closed cl \<or> cl_channel cl = None \<or> \<not> PublisherConfirms (cl_config cl)")
  case True
  then show ?thesis using assms by (auto simp: Publish_def split: if_splits option.splits)
next
  case False
  obtain t pt where t: "nextTag p0 = (t, pt)" by fastforce
  from assms False t obtain pr where pr: "bg_run (sc_pre sc) pt = Returns pr"
    by (auto simp: Publish_def)
  obtain c p1 where c: "registerPending t pr = (c, p1)" by fastforce
  from assms False t pr c obtain p2 r w1 where 2: "bg_run (sc_mid sc) p1 = Returns p2"
    "channel_publish e (sc_client sc) ex rk msg w0 = Returns (r, w1)"
    by (auto simp: Publish_def)
  with assms False t pr c show ?thesis by (cases r) (auto simp: Publish_def Let_def)
qed

lemma Publish_world:
  assumes "Publish e cl sc ex rk msg p w = Returns (x, p', w')"
  shows "w_heap w' = w_heap w \<and> (\<exists>new. no_settle w new w' \<and>
    (\<forall>c \<in> set new. (\<exists>n. c = NotifyPublish n) \<or>
      (\<exists>ch. c = PublishWithContext ch ex rk False False msg (map_snapshot (w_heap w) (p_Headers msg)))) \<and>
    (x = None \<longrightarrow> (\<exists>ch. PublishWithContext ch ex rk False False msg
      (map_snapshot (w_heap w) (p_Headers msg)) \<in> set new)))"
proof -
  from assms obtain p0 w0 where 0: "ensureConfirmsSetup e cl p w = Returns (p0, w0)"
    by (auto simp: Publish_def)
  from setup_world [OF 0] obtain new where new: "w_heap w0 = w_heap w" "no_settle w new w0"
    "\<forall>c \<in> set new. \<exists>n. c = NotifyPublish n" by blast
  from Publish_sends [OF assms 0] show ?thesis
  proof
    assume "w' = w0 \<and> x \<noteq> None"
    then show ?thesis using new by metis
  next
    assume "\<exists>r w1. channel_publish e (sc_client sc) ex rk msg w0 = Returns (r, w1) \<and>
      w_calls w' = w_calls w1 \<and> w_heap w' = w_heap w1"
    then obtain ch where ch: "w_heap w' = w_heap w0"
      "w_calls w' = w_calls w0 @ [PublishWithContext ch ex rk False False msg
         (map_snapshot (w_heap w) (p_Headers msg))]"
      using channel_publish_world new(1) by fastforce
    let ?new = "new @ [PublishWithContext ch ex rk False False msg (map_snapshot (w_heap w) (p_Headers msg))]"
    have "no_settle w ?new w'" using ch new(2) by (simp add: no_settle_def)
    moreover have "\<exists>c. PublishWithContext c ex rk False False msg (map_snapshot (w_heap w) (p_Headers msg)) \<in> set ?new"
      by auto
    moreover have "\<forall>c \<in> set ?new. (\<exists>n. c = NotifyPublish n) \<or>
      (\<exists>ch. c = PublishWithContext ch ex rk False False msg (map_snapshot (w_heap w) (p_Headers msg)))"
      using new(3) by auto
    moreover have "w_heap w' = w_heap w" using ch(1) new(1) by simp
    ultimately show ?thesis by blast
  qed
qed

lemma header_map_Some [simp]: "header_map (Some a) h = (a, h)"
  by (simp add: header_map_def)

lemma header_map_get:
  "header_map r h = (a, h1) \<Longrightarrow> hp_map h1 a = map_get h r"
  by (auto simp: header_map_def make_map_def split: option.splits)

lemma GetRetryCount_map_get:
  "GetRetryCount h c = (case map_get h (d_Headers (mc_Delivery c)) CountHeader of
     None \<Rightarrow> 0 | Some v \<Rightarrow> retry_count_of v)"
  by (simp add: GetRetryCount_def map_get_def split: option.splits)

text \<open>What \<open>Retry\<close> publishes, and that it publishes exactly below the limit.\<close>

lemma Retry_exceeded:
  "GetRetryCount (w_heap w) \<lparr>mc_Delivery = d\<rparr> \<ge> rh_maxRetries rh \<Longrightarrow>
   Retry e cl sc rh d p w = Returns (Some ErrMaxRetriesExceeded, p, w)"
  by (simp add: Retry_def ShouldRetry_def Let_def)

lemma Retry_publishes:
  assumes "GetRetryCount (w_heap w) \<lparr>mc_Delivery = d\<rparr> < rh_maxRetries rh"
  obtains a h1 w2 where "header_map (d_Headers d) (w_heap w) = (a, h1)"
    "w_calls w2 = w_calls w"
    "w_heap w2 = map_put a CountHeader (VInt (inc64 (GetRetryCount (w_heap w) \<lparr>mc_Delivery = d\<rparr>))) h1"
    "Retry e cl sc rh d p w =
       Publish e cl sc (d_Exchange d) (d_RoutingKey d) (retry_message d a (clock e (w_ticks w))) p w2"
proof -
  obtain a h1 where a: "header_map (d_Headers d) (w_heap w) = (a, h1)" by fastforce
  show ?thesis
    using assms a
    by (intro that [OF a, of "w\<lparr>w_heap := map_put a CountHeader
        (VInt (inc64 (GetRetryCount (w_heap w) \<lparr>mc_Delivery = d\<rparr>))) h1, w_ticks := Suc (w_ticks w)\<rparr>"])
      (auto simp: Retry_def ShouldRetry_def Let_def time_Now_def not_le)
qed

lemma Retry_is_Publish:
  assumes "Retry e cl sc rh d p w = Returns (None, p', w')"
  shows "\<exists>ex rk msg w2. Publish e cl sc ex rk msg p w2 = Returns (None, p', w')"
proof (cases "GetRetryCount (w_heap w) \<lparr>mc_Delivery = d\<rparr> < rh_maxRetries rh")
  case True
  then show ?thesis by (rule Retry_publishes [of w d rh e cl sc p]) (use assms in metis)
next
  case False
  then show ?thesis using assms Retry_exceeded [of rh w d e cl sc p] by simp
qed

text \<open>A copy of the delivery, to the same destination and with a retry count, is among the calls.\<close>

definition republished :: "delivery \<Rightarrow> amqp_call list \<Rightarrow> bool" where
  "republished d cs \<longleftrightarrow> (\<exists>ch msg hdr n.
     PublishWithContext ch (d_Exchange d) (d_RoutingKey d) False False msg (Some hdr) \<in> set cs \<and>
     p_Body msg = d_Body d \<and> hdr CountHeader = Some (VInt n))"

lemma republished_append: "republished d xs \<Longrightarrow> republished d (ys @ xs @ zs)"
  by (auto simp: republished_def)

lemma republished_headers [simp]: "republished (d\<lparr>d_Headers := h\<rparr>) cs = republished d cs"
  by (simp add: republished_def)

lemma Retry_world:
  assumes "Retry e cl sc rh d p w = Returns (x, p', w')"
  shows "\<exists>new. no_settle w new w' \<and> (x = None \<longrightarrow> republished d new)"
proof (cases "GetRetryCount (w_heap w) \<lparr>mc_Delivery = d\<rparr> < rh_maxRetries rh")
  case False
  then have "x = Some ErrMaxRetriesExceeded" "w' = w"
    using assms Retry_exceeded [of rh w d e cl sc p] by simp_all
  then show ?thesis using no_settle_refl by blast
next
  case True
  then obtain a h1 w2 where w2: "w_calls w2 = w_calls w"
    "w_heap w2 = map_put a CountHeader (VInt (inc64 (GetRetryCount (w_heap w) \<lparr>mc_Delivery = d\<rparr>))) h1"
    "Retry e cl sc rh d p w =
       Publish e cl sc (d_Exchange d) (d_RoutingKey d) (retry_message d a (clock e (w_ticks w))) p w2"
    by (rule Retry_publishes [of w d rh e cl sc p]) blast
  from Publish_world [OF assms [unfolded w2(3)]] obtain new where
    new: "no_settle w2 new w'" "x = None \<Longrightarrow> \<exists>ch. PublishWithContext ch (d_Exchange d) (d_RoutingKey d) False False
      (retry_message d a (clock e (w_ticks w))) (Some (hp_map (w_heap w2) a)) \<in> set new"
    by (auto simp: retry_message_def)
  have "no_settle w new w'" using new(1) w2(1) by (simp add: no_settle_def)
  moreover have "p_Body (retry_message d a (clock e (w_ticks w))) = d_Body d" by (simp add: retry_message_def)
  moreover have "hp_map (w_heap w2) a CountHeader =
      Some (VInt (inc64 (GetRetryCount (w_heap w) \<lparr>mc_Delivery = d\<rparr>)))" by (simp add: w2(2))
  ultimately show ?thesis using new(2) unfolding republished_def by blast
qed

lemma headers_id: "d\<lparr>d_Headers := d_Headers d\<rparr> = d"
  by simp

lemma trace_delivery_world:
  assumes "trace_delivery e d0 w0 = (t, d, w1)"
  shows "w_calls w1 = w_calls w0 \<and> (\<exists>r. d = d0\<lparr>d_Headers := r\<rparr>)"
proof -
  have "w_calls w1 = w_calls w0 \<and> (d = d0 \<or> (\<exists>a. d = d0\<lparr>d_Headers := Some a\<rparr>))"
    using assms
    by (auto simp: trace_delivery_def Let_def uuid_New_def split: option.splits gvalue.splits prod.splits)
  then show ?thesis by (metis headers_id)
qed

lemma log_received_world [simp]:
  "w_calls (log_received e i t d w) = w_calls w" "w_heap (log_received e i t d w) = w_heap w"
  by (simp_all add: log_received_def Let_def split: prod.split)

lemma allow_delivery_world:
  "allow_delivery e cb w = (ok, cb', w') \<Longrightarrow> w_calls w' = w_calls w \<and> w_heap w' = w_heap w"
  by (auto simp: allow_delivery_def time_Now_def split: option.splits prod.splits)

lemma record_failure_world:
  "record_failure e cb w = (cb', w') \<Longrightarrow> w_calls w' = w_calls w \<and> w_heap w' = w_heap w"
  by (auto simp: record_failure_def time_Now_def split: option.splits)

lemma record_success_world:
  "record_success e cb w = (cb', w') \<Longrightarrow> w_calls w' = w_calls w \<and> w_heap w' = w_heap w"
  by (auto simp: record_success_def time_Now_def split: option.splits)

lemma log_handler_error_world [simp]:
  "w_calls (log_handler_error i mc err w) = w_calls w" "w_heap (log_handler_error i mc err w) = w_heap w"
  by (simp_all add: log_handler_error_def Let_def)

lemma mc_Ack_calls: "w_calls (snd (mc_Ack e mc w)) = w_calls w @ [AckCall (d_DeliveryTag (mc_Delivery mc)) False]"
  by (simp add: mc_Ack_def)

lemma mc_Nack_calls:
  "w_calls (snd (mc_Nack e mc q w)) = w_calls w @ [NackCall (d_DeliveryTag (mc_Delivery mc)) False q]"
  by (simp add: mc_Nack_def)

lemma settle_retry_calls:
  "w_calls (settle_retry e i t mc x w) = w_calls w @
     [if x = None then AckCall (d_DeliveryTag (mc_Delivery mc)) False
      else NackCall (d_DeliveryTag (mc_Delivery mc)) False False]"
  by (auto simp: settle_retry_def Let_def mc_Ack_calls mc_Nack_calls split: option.splits)

lemma handle_success_calls:
  "w_calls (snd (handle_success e i t mc cs w)) = w_calls w @ [AckCall (d_DeliveryTag (mc_Delivery mc)) False]"
proof -
  obtain x w1 where a: "mc_Ack e mc w = (x, w1)" by fastforce
  then have "w_calls w1 = w_calls w @ [AckCall (d_DeliveryTag (mc_Delivery mc)) False]"
    using mc_Ack_calls [of e mc w] by simp
  then show ?thesis
    using a by (auto simp: handle_success_def Let_def split: prod.splits option.splits
        dest!: record_success_world)
qed

lemma handle_failure_calls:
  assumes "handle_failure e ws i t d mc err cs w = Returns (cs', w')"
  shows "\<exists>new x. filter is_settle new = [] \<and>
    w_calls w' = w_calls w @ new @ [if x then AckCall (d_DeliveryTag (mc_Delivery mc)) False
      else NackCall (d_DeliveryTag (mc_Delivery mc)) False False] \<and>
    (x \<longrightarrow> republished d new)"
proof -
  obtain cb w2 where cb: "record_failure e (cs_breaker cs) (log_handler_error i mc err w) = (cb, w2)" by fastforce
  from assms cb obtain x p w3 where r: "Retry e (cs_client cs) (ws_publish ws)
      (NewHandler (MaxRetries (cl_config (cs_client cs)))) d (cs_pub cs) w2 = Returns (x, p, w3)"
    "w' = settle_retry e i t mc x w3"
    by (auto simp: handle_failure_def Let_def)
  from Retry_world [OF r(1)] obtain new where new: "no_settle w2 new w3"
    "x = None \<longrightarrow> republished d new"
    by blast
  have "w_calls w2 = w_calls w" using record_failure_world [OF cb] by simp
  then show ?thesis
    using new by (intro exI [of _ new] exI [of _ "x = None"]) (simp add: r(2) settle_retry_calls no_settle_def)
qed

text \<open>An ack after a handler's error means that the retry was published.\<close>

lemma handle_failure_acks:
  assumes "handle_failure e ws i t d mc err cs w = Returns (cs', w')" "w_calls w' = w_calls w @ new"
    "AckCall (d_DeliveryTag (mc_Delivery mc)) False \<in> set new"
  shows "\<exists>w2 p w3. Retry e (cs_client cs) (ws_publish ws) (NewHandler (MaxRetries (cl_config (cs_client cs)))) d
    (cs_pub cs) w2 = Returns (None, p, w3)"
proof -
  obtain cb w2 where cb: "record_failure e (cs_breaker cs) (log_handler_error i mc err w) = (cb, w2)" by fastforce
  from assms(1) cb obtain x p w3 where r: "Retry e (cs_client cs) (ws_publish ws)
      (NewHandler (MaxRetries (cl_config (cs_client cs)))) d (cs_pub cs) w2 = Returns (x, p, w3)"
    "w' = settle_retry e i t mc x w3"
    by (auto simp: handle_failure_def Let_def)
  from Retry_world [OF r(1)] obtain xs where xs: "w_calls w3 = w_calls w @ xs" "filter is_settle xs = []"
    using record_failure_world [OF cb] by (auto simp: no_settle_def)
  have "x = None"
  proof (rule ccontr)
    assume "x \<noteq> None"
    then have "new = xs @ [NackCall (d_DeliveryTag (mc_Delivery mc)) False False]"
      using assms(2) xs(1) by (auto simp: r(2) settle_retry_calls)
    then have "AckCall (d_DeliveryTag (mc_Delivery mc)) False \<in> set (filter is_settle xs)" using assms(3) by simp
    then show False using xs(2) by simp
  qed
  with r(1) show ?thesis by blast
qed

section \<open>Properties\<close>

text \<open>
  A handler that leaves acknowledging to the consumer. This is an assumption on the application:
  nothing enforces it, the handler is given \<open>Ack\<close> and \<open>Nack\<close>, and an example in a comment of
  \<open>eventbus.go\<close> and one of \<open>docs/DLQ.md\<close> call \<open>Ack\<close>; the worker then settles the delivery a second
  time (\<open>handler_ack_settles_twice\<close> in \<open>Dead_Letters\<close>).
\<close>

definition leaves_settling :: "handler \<Rightarrow> bool" where
  "leaves_settling svc \<longleftrightarrow> (\<forall>mc w. d_DeliveryTag (mc_Delivery (fst (snd (svc mc w)))) = d_DeliveryTag (mc_Delivery mc) \<and>
     (\<exists>new. no_settle w new (snd (snd (svc mc w)))))"

lemma leaves:
  assumes "leaves_settling svc" "svc mc w = (r, mc1, w1)"
  shows "d_DeliveryTag (mc_Delivery mc1) = d_DeliveryTag (mc_Delivery mc) \<and> (\<exists>xs. no_settle w xs w1)"
  using assms by (auto simp: leaves_settling_def dest!: spec [of _ mc] spec [of _ w])

text \<open>The context and the world a worker passes to the handler of an admitted delivery.\<close>

definition handler_input :: "env \<Rightarrow> int \<Rightarrow> delivery \<Rightarrow> consumer \<Rightarrow> world \<Rightarrow> MessageContext \<times> world" where
  "handler_input e workerID d0 cs w0 =
     (let (traceID, d, w1) = trace_delivery e d0 w0;
          (allowed, cb, w3) = allow_delivery e (cs_breaker cs) (log_received e workerID traceID d w1)
      in (\<lparr>mc_Delivery = d\<rparr>, w3))"

lemma GetType_headers [simp]: "GetType \<lparr>mc_Delivery = d\<lparr>d_Headers := r\<rparr>\<rparr> = GetType \<lparr>mc_Delivery = d\<rparr>"
  by (simp add: GetType_def)

lemma worker_step_cases:
  assumes "worker_step e ws i d0 cs w0 = Returns (cs', w')"
    "trace_delivery e d0 w0 = (t, d, w1)"
    "allow_delivery e (cs_breaker cs) (log_received e i t d w1) = (ok, cb, w3)"
  shows "(\<not> ok \<and> w_calls w' = w_calls w0 @ [NackCall (d_DeliveryTag d0) False False]) \<or>
    (ok \<and> GetHandler (cs_router cs) (GetType \<lparr>mc_Delivery = d0\<rparr>) = None \<and>
       w_calls w' = w_calls w0 @ [AckCall (d_DeliveryTag d0) False]) \<or>
    (\<exists>svc r mc1 w4 cs2. ok \<and> GetHandler (cs_router cs) (GetType \<lparr>mc_Delivery = d0\<rparr>) = Some svc \<and>
       svc \<lparr>mc_Delivery = d\<rparr> w3 = (r, mc1, w4) \<and> cs_client cs2 = cs_client cs \<and> cs_pub cs2 = cs_pub cs \<and>
       (r = None \<and> handle_success e i t mc1 cs2 w4 = (cs', w') \<or>
        (\<exists>err. r = Some err \<and> handle_failure e ws i t d mc1 err cs2 w4 = Returns (cs', w'))))"
proof -
  obtain r where d: "d = d0\<lparr>d_Headers := r\<rparr>" and w1: "w_calls w1 = w_calls w0"
    using trace_delivery_world [OF assms(2)] by blast
  have w3: "w_calls w3 = w_calls w0" using allow_delivery_world [OF assms(3)] w1 by simp
  show ?thesis
  proof (cases "ok \<and> GetHandler (cs_router cs) (GetType \<lparr>mc_Delivery = d0\<rparr>) \<noteq> None")
    case True
    then obtain svc where svc: "GetHandler (cs_router cs) (GetType \<lparr>mc_Delivery = d0\<rparr>) = Some svc" by auto
    obtain r mc1 w4 where r: "svc \<lparr>mc_Delivery = d\<rparr> w3 = (r, mc1, w4)" by (metis prod.collapse)
    let ?cs2 = "cs\<lparr>cs_breaker := map_option (cb_run (ws_others ws)) cb\<rparr>"
    have "GetType \<lparr>mc_Delivery = d\<rparr> = GetType \<lparr>mc_Delivery = d0\<rparr>" by (simp add: d)
    then have "case r of Some err \<Rightarrow> handle_failure e ws i t d mc1 err ?cs2 w4 = Returns (cs', w')
        | None \<Rightarrow> handle_success e i t mc1 ?cs2 w4 = (cs', w')"
      using assms True svc r by (auto simp: worker_step_def Let_def split: option.splits)
    then have "ok \<and> GetHandler (cs_router cs) (GetType \<lparr>mc_Delivery = d0\<rparr>) = Some svc \<and>
       svc \<lparr>mc_Delivery = d\<rparr> w3 = (r, mc1, w4) \<and> cs_client ?cs2 = cs_client cs \<and> cs_pub ?cs2 = cs_pub cs \<and>
       (r = None \<and> handle_success e i t mc1 ?cs2 w4 = (cs', w') \<or>
        (\<exists>err. r = Some err \<and> handle_failure e ws i t d mc1 err ?cs2 w4 = Returns (cs', w')))"
      using True svc r by (cases r) simp_all
    then show ?thesis by (intro disjI2) (rule exI)+
  next
    case False
    then have "\<not> ok \<or> GetHandler (cs_router cs) (GetType \<lparr>mc_Delivery = d\<rparr>) = None" by (simp add: d)
    then show ?thesis
      using assms w3 False by (cases ok) (auto simp: worker_step_def Let_def d mc_Ack_calls mc_Nack_calls)
  qed
qed

text \<open>Whatever the handler answers, exactly one acknowledgement follows, and it is the last call.\<close>

lemma handled_settles:
  assumes "leaves_settling svc" "svc \<lparr>mc_Delivery = d1\<rparr> w3 = (r, mc1, w4)"
    "d1 = d\<lparr>d_Headers := h\<rparr>" "w_calls w3 = w_calls w"
    "r = None \<and> handle_success e i t mc1 cs2 w4 = (cs', w') \<or>
     (\<exists>err. r = Some err \<and> handle_failure e ws i t d1 mc1 err cs2 w4 = Returns (cs', w'))"
  shows "\<exists>xs s. w_calls w' = w_calls w @ xs @ [s] \<and> filter is_settle xs = [] \<and>
    (s = NackCall (d_DeliveryTag d) False False \<or>
     s = AckCall (d_DeliveryTag d) False \<and> (r = None \<or> republished d (xs @ [s])))"
proof -
  obtain xs where xs: "d_DeliveryTag (mc_Delivery mc1) = d_DeliveryTag d" "no_settle w3 xs w4"
    using leaves [OF assms(1,2)] by (auto simp: assms(3))
  from assms(5) show ?thesis
  proof
    assume "r = None \<and> handle_success e i t mc1 cs2 w4 = (cs', w')"
    then show ?thesis
      using xs handle_success_calls [of e i t mc1 cs2 w4] assms(4)
      by (intro exI [of _ xs] exI [of _ "AckCall (d_DeliveryTag d) False"]) (simp add: no_settle_def)
  next
    assume "\<exists>err. r = Some err \<and> handle_failure e ws i t d1 mc1 err cs2 w4 = Returns (cs', w')"
    then obtain err where "handle_failure e ws i t d1 mc1 err cs2 w4 = Returns (cs', w')" by blast
    from handle_failure_calls [OF this, unfolded xs(1)] obtain ys x where ys: "filter is_settle ys = []"
      "w_calls w' = w_calls w4 @ ys @ [if x then AckCall (d_DeliveryTag d) False
        else NackCall (d_DeliveryTag d) False False]" "x \<longrightarrow> republished d1 ys"
      by blast
    have "republished d1 = republished d" unfolding assms(3) by (rule ext) simp
    note ys(3) [unfolded this]
    with ys(1,2) xs(2) assms(4) republished_append [of d ys xs] show ?thesis
      by (intro exI [of _ "xs @ ys"] exI [of _ "if x then AckCall (d_DeliveryTag d) False
          else NackCall (d_DeliveryTag d) False False"]) (auto simp: no_settle_def)
  qed
qed

text \<open>The settlement an iteration makes, and what an acknowledgement stands for.\<close>

lemma iteration_settles:
  assumes "worker_step e ws i d cs w = Returns (cs', w')"
    "\<And>t svc. GetHandler (cs_router cs) t = Some svc \<Longrightarrow> leaves_settling svc"
  shows "\<exists>new s. w_calls w' = w_calls w @ new \<and> filter is_settle new = [s] \<and>
    (s = NackCall (d_DeliveryTag d) False False \<or> s = AckCall (d_DeliveryTag d) False \<and>
      (case GetHandler (cs_router cs) (GetType \<lparr>mc_Delivery = d\<rparr>) of
         None \<Rightarrow> True
       | Some svc \<Rightarrow> (case handler_input e i d cs w of (mc, w3) \<Rightarrow> fst (svc mc w3) = None) \<or>
           republished d new))"
proof -
  obtain t d1 w1 where tr: "trace_delivery e d w = (t, d1, w1)" by (metis prod.collapse)
  obtain ok cb w3 where al: "allow_delivery e (cs_breaker cs) (log_received e i t d1 w1) = (ok, cb, w3)"
    by (metis prod.collapse)
  have inp: "handler_input e i d cs w = (\<lparr>mc_Delivery = d1\<rparr>, w3)" using tr al by (simp add: handler_input_def)
  obtain h where d1: "d1 = d\<lparr>d_Headers := h\<rparr>" and "w_calls w1 = w_calls w"
    using trace_delivery_world [OF tr] by blast
  then have w3: "w_calls w3 = w_calls w" using allow_delivery_world [OF al] by simp
  have suf: ?thesis if "w_calls w' = w_calls w @ xs @ [s]" "filter is_settle xs = []"
    "s = NackCall (d_DeliveryTag d) False False \<or> s = AckCall (d_DeliveryTag d) False \<and>
      (case GetHandler (cs_router cs) (GetType \<lparr>mc_Delivery = d\<rparr>) of
         None \<Rightarrow> True
       | Some svc \<Rightarrow> fst (svc \<lparr>mc_Delivery = d1\<rparr> w3) = None \<or> republished d (xs @ [s]))" for xs s
    using that inp by (intro exI [of _ "xs @ [s]"] exI [of _ s]) (auto split: option.splits)
  from worker_step_cases [OF assms(1) tr al] show ?thesis
  proof (elim disjE exE conjE)
    assume "w_calls w' = w_calls w @ [NackCall (d_DeliveryTag d) False False]"
    then show ?thesis using suf [of "[]"] by simp
  next
    assume "GetHandler (cs_router cs) (GetType \<lparr>mc_Delivery = d\<rparr>) = None"
      "w_calls w' = w_calls w @ [AckCall (d_DeliveryTag d) False]"
    then show ?thesis using suf [of "[]"] by simp
  next
    fix svc r mc1 w4 cs2
    assume svc: "GetHandler (cs_router cs) (GetType \<lparr>mc_Delivery = d\<rparr>) = Some svc"
      "svc \<lparr>mc_Delivery = d1\<rparr> w3 = (r, mc1, w4)" and r: "r = None" "handle_success e i t mc1 cs2 w4 = (cs', w')"
    then show ?thesis
      using suf handled_settles [OF assms(2) [OF svc(1)] svc(2) d1 w3, where cs' = cs' and w' = w'] by fastforce
  next
    fix svc r mc1 w4 cs2 err
    assume svc: "GetHandler (cs_router cs) (GetType \<lparr>mc_Delivery = d\<rparr>) = Some svc"
      "svc \<lparr>mc_Delivery = d1\<rparr> w3 = (r, mc1, w4)" and r: "r = Some err"
      "handle_failure e ws i t d1 mc1 err cs2 w4 = Returns (cs', w')"
    then show ?thesis
      using suf handled_settles [OF assms(2) [OF svc(1)] svc(2) d1 w3, where cs' = cs' and w' = w'] by fastforce
  qed
qed

text \<open>
  C1. Every delivery is settled exactly once, and an acknowledged message is not lost. If the
  handlers leave acknowledging to the consumer, an iteration that completes makes exactly one
  acknowledgement call, for the delivery's own tag: an ack, or a nack without requeue. It acks
  only a message of a type nobody handles, one whose handler returned nil, or one it has
  republished, body and destination unchanged, with a retry count.
\<close>

theorem delivery_settled_once:
  assumes "worker_step e ws i d cs w = Returns (cs', w')"
    "\<And>t svc. GetHandler (cs_router cs) t = Some svc \<Longrightarrow> leaves_settling svc"
  shows "\<exists>new s. w_calls w' = w_calls w @ new \<and> filter is_settle new = [s] \<and>
    (s = NackCall (d_DeliveryTag d) False False \<or> s = AckCall (d_DeliveryTag d) False \<and>
      (case GetHandler (cs_router cs) (GetType \<lparr>mc_Delivery = d\<rparr>) of
         None \<Rightarrow> True
       | Some svc \<Rightarrow> (case handler_input e i d cs w of (mc, w3) \<Rightarrow> fst (svc mc w3) = None) \<or>
           republished d new))"
  using assms by (rule iteration_settles)

lemma Retry_header:
  assumes "Retry e cl sc rh d p w = Returns (x, p', w')" "w_calls w' = w_calls w @ new"
    "PublishWithContext ch ex rk m1 m2 msg (Some hdr) \<in> set new"
  shows "GetRetryCount (w_heap w) \<lparr>mc_Delivery = d\<rparr> < rh_maxRetries rh \<and>
    hdr CountHeader = Some (VInt (inc64 (GetRetryCount (w_heap w) \<lparr>mc_Delivery = d\<rparr>)))"
proof (cases "GetRetryCount (w_heap w) \<lparr>mc_Delivery = d\<rparr> < rh_maxRetries rh")
  case False
  then show ?thesis using assms Retry_exceeded [of rh w d e cl sc p] by simp
next
  case True
  then obtain a h1 w2 where w2: "w_calls w2 = w_calls w"
    "w_heap w2 = map_put a CountHeader (VInt (inc64 (GetRetryCount (w_heap w) \<lparr>mc_Delivery = d\<rparr>))) h1"
    "Retry e cl sc rh d p w =
       Publish e cl sc (d_Exchange d) (d_RoutingKey d) (retry_message d a (clock e (w_ticks w))) p w2"
    by (rule Retry_publishes [of w d rh e cl sc p]) blast
  from Publish_world [OF assms(1) [unfolded w2(3)]] have
    "\<forall>c \<in> set new. (\<exists>n. c = NotifyPublish n) \<or> (\<exists>ch. c = PublishWithContext ch (d_Exchange d) (d_RoutingKey d)
       False False (retry_message d a (clock e (w_ticks w))) (Some (hp_map (w_heap w2) a)))"
    using assms(2) w2(1) by (auto simp: no_settle_def retry_message_def)
  from bspec [OF this assms(3)] have "hdr = hp_map (w_heap w2) a" by auto
  then show ?thesis using True by (simp add: w2(2))
qed

lemma Retry_heap:
  assumes "Retry e cl sc rh d p w = Returns (None, p', w')" "d_Headers d = Some a"
  shows "w_heap w' = map_put a CountHeader (VInt (inc64 (GetRetryCount (w_heap w) \<lparr>mc_Delivery = d\<rparr>))) (w_heap w)"
proof -
  have "GetRetryCount (w_heap w) \<lparr>mc_Delivery = d\<rparr> < rh_maxRetries rh"
    using assms(1) Retry_exceeded [of rh w d e cl sc p] by (metis Pair_inject exec.inject(1) not_le option.distinct(1))
  then show ?thesis
    using assms Publish_world by (auto simp: Retry_def ShouldRetry_def Let_def time_Now_def) 
qed

text \<open>
  A message comes back: a retry of it sent a copy, whatever \<open>Retry\<close> then returned (a copy whose
  confirmation timed out is delivered too), and the copy is delivered with a count header that
  reads as the value published (the library may carry it at another integer width).
\<close>

inductive redelivery :: "retry_handler \<Rightarrow> heap \<times> delivery \<Rightarrow> heap \<times> delivery \<Rightarrow> bool" for rh where
  redelivery: "Retry e cl sc rh d p w = Returns (x, p', w') \<Longrightarrow> w_calls w' = w_calls w @ new \<Longrightarrow>
    PublishWithContext ch ex rk m1 m2 msg (Some hdr) \<in> set new \<Longrightarrow> hdr CountHeader = Some v \<Longrightarrow>
    GetRetryCount h' \<lparr>mc_Delivery = d'\<rparr> = retry_count_of v \<Longrightarrow>
    redelivery rh (w_heap w, d) (h', d')"

definition count_of :: "heap \<times> delivery \<Rightarrow> int" where
  "count_of x = GetRetryCount (fst x) \<lparr>mc_Delivery = snd x\<rparr>"

lemma redelivery_counts:
  assumes "redelivery rh x y"
  shows "count_of x < rh_maxRetries rh \<and> count_of y = inc64 (count_of x)"
  using assms
proof cases
  case (redelivery e cl sc d p w x p' w' new ch ex rk m1 m2 msg hdr v h' d')
  from Retry_header [OF redelivery(3,4,5)] redelivery(1,2,6,7) show ?thesis by (simp add: count_of_def)
qed

text \<open>
  C5. Retries are counted and bounded. Each time a failed message comes back its retry count is
  one higher, and it comes back only while the count was below \<open>MaxRetries\<close>: along any chain of
  redeliveries, over any broker, clock and interleaving, a message that starts with count \<open>n\<close>
  comes back at most \<open>MaxRetries - n\<close> times. At the limit \<open>Retry\<close> makes no library call and
  answers \<open>ErrMaxRetriesExceeded\<close>.
\<close>

theorem retries_bounded:
  assumes "(redelivery rh ^^ k) x y" "is_int64 (rh_maxRetries rh)" "is_int64 (count_of x)"
  shows "count_of y = count_of x + int k \<and> (k = 0 \<or> count_of y \<le> rh_maxRetries rh) \<and>
    (rh_maxRetries rh \<le> GetRetryCount (w_heap w) \<lparr>mc_Delivery = d\<rparr> \<longrightarrow>
      Retry e cl sc rh d p w = Returns (Some ErrMaxRetriesExceeded, p, w))"
proof -
  have "is_int64 (count_of y) \<and> count_of y = count_of x + int k \<and> (k = 0 \<or> count_of y \<le> rh_maxRetries rh)"
    using assms(1)
  proof (induction k arbitrary: y)
    case 0
    then show ?case using assms(3) by simp
  next
    case (Suc k)
    then obtain z where z: "(redelivery rh ^^ k) x z" "redelivery rh z y" by auto
    have lt: "count_of z < rh_maxRetries rh" and y: "count_of y = inc64 (count_of z)"
      using redelivery_counts [OF z(2)] by simp_all
    have ih: "is_int64 (count_of z)" "count_of z = count_of x + int k" using Suc.IH [OF z(1)] by blast+
    have "count_of y = count_of z + 1" using inc64_below [OF assms(2) ih(1) lt] y by simp
    moreover have "is_int64 (count_of y)" using y by simp
    ultimately show ?case using ih(2) lt by simp
  qed
  then show ?thesis using Retry_exceeded [of rh w d e cl sc p] by blast
qed

definition order_delivery :: "mapref \<Rightarrow> delivery" where
  "order_delivery h = \<lparr>d_Headers = h, d_ContentType = ''application/json'', d_DeliveryMode = 2, d_Priority = 0,
     d_CorrelationId = [], d_ReplyTo = [], d_Expiration = [], d_MessageId = ''m-1'', d_Timestamp = 0,
     d_Type = ''order.created'', d_UserId = [], d_AppId = [], d_DeliveryTag = 5, d_Exchange = ''orders'',
     d_RoutingKey = ''order.created'', d_Body = []\<rparr>"

definition plain_client :: client where
  "plain_client = \<lparr>cl_config = DefaultConfig, cl_conn = Some 7, cl_channel = Some 8, cl_closed = False\<rparr>"

definition plain_script :: publish_script where
  "plain_script = \<lparr>sc_client = plain_client, sc_pre = [], sc_mid = [], sc_wait = [], sc_wake = WResult\<rparr>"

lemma plain_Publish:
  "Publish plain_env plain_client plain_script ex rk msg p w =
     Returns (None, p, w\<lparr>w_calls := w_calls w @ [PublishWithContext 8 ex rk False False msg
       (map_snapshot (w_heap w) (p_Headers msg))]\<rparr>)"
  by (simp add: Publish_def ensureConfirmsSetup_def plain_client_def DefaultConfig_def plain_script_def
      channel_publish_def call_err_eq plain_env_def)

lemma plain_clock: "clock plain_env n = int n"
  by (simp add: plain_env_def)

lemma order_redelivery:
  "redelivery (NewHandler 1) (w_heap empty_world, order_delivery None)
     (map_put 0 CountHeader (VInt32 1) empty_heap, order_delivery (Some 0))"
proof -
  have "Retry plain_env plain_client plain_script (NewHandler 1) (order_delivery None) idle_pub empty_world =
    Returns (None, idle_pub, empty_world\<lparr>w_heap := map_put 0 CountHeader (VInt 1) (snd (make_map Map.empty empty_heap)),
      w_ticks := 1, w_calls := [PublishWithContext 8 ''orders'' ''order.created'' False False
        (retry_message (order_delivery None) 0 0) (Some [CountHeader \<mapsto> VInt 1])]\<rparr>)"
    by (simp add: Retry_def ShouldRetry_def GetRetryCount_def NewHandler_def order_delivery_def plain_Publish
        time_Now_def header_map_def make_map_def empty_world_def empty_heap_def inc64_def wrap64_def
        retry_message_def plain_clock Let_def)
  then show ?thesis
    by (rule redelivery.redelivery [where v = "VInt 1" and hdr = "[CountHeader \<mapsto> VInt 1]"
          and new = "[PublishWithContext 8 ''orders'' ''order.created'' False False
        (retry_message (order_delivery None) 0 0) (Some [CountHeader \<mapsto> VInt 1])]"])
      (auto simp: empty_world_def GetRetryCount_def order_delivery_def)
qed

theorem retries_bounded_witness:
  "count_of (map_put 0 CountHeader (VInt32 1) empty_heap, order_delivery (Some 0)) =
     count_of (empty_heap, order_delivery None) + 1 \<and>
   Retry plain_env plain_client plain_script (NewHandler 1) (order_delivery (Some 0)) idle_pub
     (empty_world\<lparr>w_heap := map_put 0 CountHeader (VInt32 1) empty_heap\<rparr>) =
     Returns (Some ErrMaxRetriesExceeded, idle_pub,
       empty_world\<lparr>w_heap := map_put 0 CountHeader (VInt32 1) empty_heap\<rparr>)"
proof -
  have h: "w_heap empty_world = empty_heap" by (simp add: empty_world_def)
  have "(redelivery (NewHandler 1) ^^ 1) (empty_heap, order_delivery None)
     (map_put 0 CountHeader (VInt32 1) empty_heap, order_delivery (Some 0))"
    using order_redelivery unfolding h by (simp only: relpowp_1)
  from retries_bounded [OF this, of "empty_world\<lparr>w_heap := map_put 0 CountHeader (VInt32 1) empty_heap\<rparr>"
      "order_delivery (Some 0)" plain_env plain_client plain_script idle_pub]
  show ?thesis
    by (simp add: NewHandler_def is_int64_def count_of_def GetRetryCount_def order_delivery_def)
qed

text \<open>
  The retry count in the log is one too high. \<open>Retry\<close> writes the incremented count into the
  header map that the delivery and the message context share, and the worker then adds one to
  what it reads back: when a message with count \<open>n\<close> is requeued with count \<open>n + 1\<close>, the log line
  says \<open>n + 2\<close>.
\<close>

theorem retry_count_logged_twice:
  assumes "Retry e cl sc rh d p w = Returns (None, p', w')" "d_Headers d = Some a"
    "GetRetryCount (w_heap w) \<lparr>mc_Delivery = d\<rparr> = n"
  shows "hp_map (w_heap w') a CountHeader = Some (VInt (inc64 n)) \<and>
    (''retry_count'', VInt (inc64 (inc64 n))) \<in>
      set (log_fields (last (w_logs (settle_retry e i t \<lparr>mc_Delivery = d\<rparr> None w'))))"
proof -
  have h: "w_heap w' = map_put a CountHeader (VInt (inc64 n)) (w_heap w)"
    using Retry_heap [OF assms(1,2)] assms(3) by simp
  then have "GetRetryCount (w_heap w') \<lparr>mc_Delivery = d\<rparr> = inc64 n"
    using assms(2) by (simp add: GetRetryCount_def)
  then show ?thesis using h by (simp add: settle_retry_def Let_def mc_Ack_def)
qed

lemma order_retry:
  "Retry plain_env plain_client plain_script (NewHandler 3) (order_delivery (Some 0)) idle_pub
     (empty_world\<lparr>w_heap := snd (make_map Map.empty empty_heap)\<rparr>) =
   Returns (None, idle_pub, empty_world\<lparr>w_heap := map_put 0 CountHeader (VInt 1) (snd (make_map Map.empty empty_heap)),
      w_ticks := 1, w_calls := [PublishWithContext 8 ''orders'' ''order.created'' False False
        (retry_message (order_delivery (Some 0)) 0 0) (Some [CountHeader \<mapsto> VInt 1])]\<rparr>)"
  by (simp add: Retry_def ShouldRetry_def GetRetryCount_def NewHandler_def order_delivery_def plain_Publish
      time_Now_def header_map_def make_map_def empty_world_def empty_heap_def inc64_def wrap64_def
      retry_message_def plain_clock Let_def)

theorem retry_count_logged_twice_witness:
  "\<exists>w'. hp_map (w_heap w') 0 CountHeader = Some (VInt 1) \<and>
    (''retry_count'', VInt 2) \<in> set (log_fields (last (w_logs
      (settle_retry plain_env 0 ''t'' \<lparr>mc_Delivery = order_delivery (Some 0)\<rparr> None w'))))"
proof -
  have h: "d_Headers (order_delivery (Some 0)) = Some 0" by (simp add: order_delivery_def)
  have n: "GetRetryCount (w_heap (empty_world\<lparr>w_heap := snd (make_map Map.empty empty_heap)\<rparr>))
      \<lparr>mc_Delivery = order_delivery (Some 0)\<rparr> = 0"
    by (simp add: order_delivery_def GetRetryCount_def make_map_def empty_heap_def)
  have inc: "inc64 0 = 1" "inc64 1 = 2" by (simp_all add: inc64_def wrap64_def)
  from retry_count_logged_twice [OF order_retry h n, of 0 "''t''"] show ?thesis
    unfolding inc by blast
qed

definition reject_all :: handler where
  "reject_all mc w = (Some ErrNoConnection, mc, w)"

definition rejecting_router :: Router where
  "rejecting_router = Handle [] (Some reject_all) NewRouter"

lemma json_parse_Nil: "json_parse [] = None"
  by code_simp

lemma empty_body_type: "GetType \<lparr>mc_Delivery = order_delivery h\<rparr> = []"
  by (simp add: GetType_def order_delivery_def unmarshal_type_def json_parse_Nil)

section \<open>Admission\<close>

lemma handler_input_calls:
  assumes "trace_delivery e d w = (t, d1, w1)"
    "allow_delivery e (cs_breaker cs) (log_received e i t d1 w1) = (ok, cb, w3)"
  shows "w_calls w3 = w_calls w" "d_DeliveryTag d1 = d_DeliveryTag d"
    "GetType \<lparr>mc_Delivery = d1\<rparr> = GetType \<lparr>mc_Delivery = d\<rparr>"
  using trace_delivery_world [OF assms(1)] allow_delivery_world [OF assms(2)] by auto

text \<open>
  A breaker that lets nothing through and that no request can change: the contract under which
  the worker rejects everything it is given.
\<close>

locale stuck_gate =
  fixes allow :: "time \<Rightarrow> time \<Rightarrow> 'b \<Rightarrow> bool \<times> 'b"
    and stuck :: "'b \<Rightarrow> bool"
  assumes stuck_rejects: "stuck b \<Longrightarrow> allow now now' b = (False, b)"
begin

lemma stuck_forever: "stuck b \<Longrightarrow> foldl (\<lambda>b (now, now'). snd (allow now now' b)) b ts = b"
  by (induction ts) (auto simp: stuck_rejects)

lemma stuck_admits_none: "stuck b \<Longrightarrow>
   \<not> fst (allow now now' (foldl (\<lambda>b (now, now'). snd (allow now now' b)) b ts))"
  by (simp add: stuck_forever stuck_rejects)

end

definition half_open_full :: "breaker \<Rightarrow> bool" where
  "half_open_full b \<longleftrightarrow> cb_state b = StateHalfOpen \<and> cb_halfOpenRequests b \<ge> HalfOpenMaxRequests (cb_conf b)"

interpretation full_gate: stuck_gate AllowRequest half_open_full
  by unfold_locales (simp add: half_open_full_def AllowRequest_def)

lemma stuck_step:
  assumes "cs_breaker cs = Some b" "half_open_full b"
  shows "\<exists>w'. worker_step e ws i d cs w = Returns (cs, w') \<and>
    w_calls w' = w_calls w @ [NackCall (d_DeliveryTag d) False False]"
proof -
  obtain t d1 w1 where tr: "trace_delivery e d w = (t, d1, w1)" by (metis prod.collapse)
  obtain w3 where al: "allow_delivery e (cs_breaker cs) (log_received e i t d1 w1) = (False, Some b, w3)"
    using assms by (simp add: allow_delivery_def time_Now_def full_gate.stuck_rejects)
  have "cs\<lparr>cs_breaker := Some b\<rparr> = cs" using assms(1) by (cases cs) simp
  with tr al handler_input_calls [OF tr al] show ?thesis
    by (simp add: worker_step_def Let_def mc_Nack_calls)
qed

lemma stuck_run:
  assumes "cs_breaker cs = Some b" "half_open_full b"
  shows "\<exists>w'. worker_run e xs cs w = Returns (cs, w') \<and>
    w_calls w' = w_calls w @ map (\<lambda>(ws, i, d). NackCall (d_DeliveryTag d) False False) xs"
proof (induction xs arbitrary: w)
  case Nil
  then show ?case by simp
next
  case (Cons x xs)
  obtain ws i d where x: "x = (ws, i, d)" by (cases x)
  obtain w1 where w1: "worker_step e ws i d cs w = Returns (cs, w1)"
    "w_calls w1 = w_calls w @ [NackCall (d_DeliveryTag d) False False]"
    using stuck_step [OF assms] by blast
  with Cons.IH [of w1] show ?case by (auto simp: x)
qed

lemma unhandled_step:
  assumes "cs_breaker cs = Some b" "cb_inv b" "cb_state b = StateHalfOpen"
    "cb_halfOpenRequests b < HalfOpenMaxRequests (cb_conf b)"
    "GetHandler (cs_router cs) (GetType \<lparr>mc_Delivery = d\<rparr>) = None"
  shows "\<exists>w'. worker_step e ws i d cs w =
      Returns (cs\<lparr>cs_breaker := Some (b\<lparr>cb_halfOpenRequests := cb_halfOpenRequests b + 1\<rparr>)\<rparr>, w') \<and>
    w_calls w' = w_calls w @ [AckCall (d_DeliveryTag d) False]"
proof -
  obtain t d1 w1 where tr: "trace_delivery e d w = (t, d1, w1)" by (metis prod.collapse)
  have "inc64 (cb_halfOpenRequests b) = cb_halfOpenRequests b + 1"
    using assms(2-4) by (auto simp: cb_inv_def cb_config_ok_def intro: inc64_lt)
  then obtain w3 where al: "allow_delivery e (cs_breaker cs) (log_received e i t d1 w1) =
      (True, Some (b\<lparr>cb_halfOpenRequests := cb_halfOpenRequests b + 1\<rparr>), w3)"
    using assms(1,3,4) by (simp add: allow_delivery_def time_Now_def AllowRequest_def)
  from tr al handler_input_calls [OF tr al] assms(5) show ?thesis
    by (simp add: worker_step_def Let_def mc_Ack_calls)
qed

lemma unhandled_run:
  assumes "cs_breaker cs = Some b" "cb_inv b" "cb_state b = StateHalfOpen"
    "int (length us) = HalfOpenMaxRequests (cb_conf b) - cb_halfOpenRequests b"
    "\<And>ws i d. (ws, i, d) \<in> set us \<Longrightarrow> GetHandler (cs_router cs) (GetType \<lparr>mc_Delivery = d\<rparr>) = None"
  shows "\<exists>cs' b' w'. worker_run e us cs w = Returns (cs', w') \<and> cs_breaker cs' = Some b' \<and>
    half_open_full b' \<and> w_calls w' = w_calls w @ map (\<lambda>(ws, i, d). AckCall (d_DeliveryTag d) False) us"
  using assms
proof (induction us arbitrary: cs b w)
  case Nil
  then show ?case by (simp add: half_open_full_def)
next
  case (Cons x us)
  obtain ws i d where x: "x = (ws, i, d)" by (cases x)
  let ?b = "b\<lparr>cb_halfOpenRequests := cb_halfOpenRequests b + 1\<rparr>"
  let ?cs = "cs\<lparr>cs_breaker := Some ?b\<rparr>"
  have lt: "cb_halfOpenRequests b < HalfOpenMaxRequests (cb_conf b)" using Cons.prems(4) by simp
  have "GetHandler (cs_router cs) (GetType \<lparr>mc_Delivery = d\<rparr>) = None"
    by (rule Cons.prems(5) [of ws i]) (simp add: x)
  from unhandled_step [OF Cons.prems(1-3) lt this] obtain w1 where
    w1: "worker_step e ws i d cs w = Returns (?cs, w1)"
    "w_calls w1 = w_calls w @ [AckCall (d_DeliveryTag d) False]"
    by blast
  have "cb_inv ?b" using Cons.prems(2,3) lt by (simp add: cb_inv_def cb_config_ok_def)
  then have "\<exists>cs' b' w'. worker_run e us ?cs w1 = Returns (cs', w') \<and> cs_breaker cs' = Some b' \<and>
      half_open_full b' \<and> w_calls w' = w_calls w1 @ map (\<lambda>(ws, i, d). AckCall (d_DeliveryTag d) False) us"
    using Cons.prems(3-5) by (intro Cons.IH [of ?cs ?b]) auto
  with w1 show ?case by (fastforce simp: x)
qed

text \<open>
  C25. Messages of unknown type can disable the consumer for good. The breaker counts such a
  message as a half-open request, but the worker acknowledges it without recording a result.
  Once the remaining half-open requests are used up that way, every later delivery, of
  whatever type and however long one waits, is nacked without requeue and no handler runs:
  only a manual reset leaves the half-open state.
\<close>

theorem unknown_types_wedge_half_open:
  assumes "cs_breaker cs = Some b" "cb_inv b" "cb_state b = StateHalfOpen"
    "int (length us) = HalfOpenMaxRequests (cb_conf b) - cb_halfOpenRequests b"
    "\<And>ws i d. (ws, i, d) \<in> set us \<Longrightarrow> GetHandler (cs_router cs) (GetType \<lparr>mc_Delivery = d\<rparr>) = None"
  shows "\<exists>cs' w'. worker_run e us cs w = Returns (cs', w') \<and>
    w_calls w' = w_calls w @ map (\<lambda>(ws, i, d). AckCall (d_DeliveryTag d) False) us \<and>
    (\<forall>xs. \<exists>w''. worker_run e xs cs' w' = Returns (cs', w'') \<and>
      w_calls w'' = w_calls w' @ map (\<lambda>(ws, i, d). NackCall (d_DeliveryTag d) False False) xs)"
proof -
  from unhandled_run [OF assms(1-4), of e w] assms(5) obtain cs' b' w' where
    r: "worker_run e us cs w = Returns (cs', w')" "cs_breaker cs' = Some b'" "half_open_full b'"
    "w_calls w' = w_calls w @ map (\<lambda>(ws, i, d). AckCall (d_DeliveryTag d) False) us"
    by blast
  from stuck_run [OF r(2,3)] r(1,4) show ?thesis by blast
qed

definition half_open_breaker :: breaker where
  "half_open_breaker = \<lparr>cb_conf = \<lparr>MaxFailures = 5, ResetTimeout = Second, HalfOpenMaxRequests = 1, OnStateChange = True\<rparr>,
     cb_state = StateHalfOpen, cb_failures = 0, cb_successes = 0, cb_lastFailureTime = Some 0,
     cb_lastStateChangeTime = 0, cb_halfOpenRequests = 0, cb_calls = []\<rparr>"

definition order_consumer :: "Router \<Rightarrow> breaker option \<Rightarrow> consumer" where
  "order_consumer r b = \<lparr>cs_client = plain_client, cs_pub = idle_pub, cs_router = r, cs_breaker = b\<rparr>"

definition plain_worker :: worker_script where
  "plain_worker = \<lparr>ws_publish = plain_script, ws_others = []\<rparr>"

theorem unknown_types_wedge_half_open_witness:
  "\<exists>cs' w'. worker_run plain_env [(plain_worker, 0, order_delivery None)]
      (order_consumer NewRouter (Some half_open_breaker)) empty_world = Returns (cs', w') \<and>
    w_calls w' = [AckCall 5 False] \<and>
    (\<exists>w''. worker_run plain_env [(plain_worker, 1, order_delivery None)] cs' w' = Returns (cs', w'') \<and>
      w_calls w'' = [AckCall 5 False, NackCall 5 False False])"
proof -
  let ?us = "[(plain_worker, 0, order_delivery None)]"
  have "cb_inv half_open_breaker"
    by (simp add: half_open_breaker_def cb_inv_def cb_config_ok_def is_int64_def Second_def)
  moreover have "w_calls empty_world = []" "d_DeliveryTag (order_delivery None) = 5"
    by (simp_all add: empty_world_def order_delivery_def)
  ultimately obtain cs' w' where "worker_run plain_env ?us (order_consumer NewRouter (Some half_open_breaker)) empty_world = Returns (cs', w')"
    "w_calls w' = [AckCall 5 False]"
    "\<forall>xs. \<exists>w''. worker_run plain_env xs cs' w' = Returns (cs', w'') \<and>
      w_calls w'' = w_calls w' @ map (\<lambda>(ws, i, d). NackCall (d_DeliveryTag d) False False) xs"
    using unknown_types_wedge_half_open [of "order_consumer NewRouter (Some half_open_breaker)" half_open_breaker ?us
        plain_env empty_world]
    by (auto simp: order_consumer_def half_open_breaker_def NewRouter_def GetHandler_def)
  then show ?thesis
    using \<open>d_DeliveryTag (order_delivery None) = 5\<close>
    by (intro exI [of _ cs'] exI [of _ w'])
      (auto dest!: spec [of _ "[(plain_worker, 1, order_delivery None)]"])
qed

lemma order_headers: "(order_delivery h)\<lparr>d_Headers := k\<rparr> = order_delivery k" "d_Headers (order_delivery h) = h"
  by (simp_all add: order_delivery_def)

lemma plain_worker_returns:
  "\<exists>cs' w'. worker_step plain_env plain_worker 0 (order_delivery None)
      (order_consumer rejecting_router None) empty_world = Returns (cs', w')"
  by (simp add: worker_step_def trace_delivery_def order_headers header_map_def uuid_New_def make_map_def
      allow_delivery_def order_consumer_def rejecting_router_def rt.lookup_register empty_body_type reject_all_def
      handle_failure_def plain_worker_def record_failure_def Retry_def ShouldRetry_def plain_Publish
      time_Now_def Let_def)

theorem delivery_settled_once_witness:
  "\<exists>cs' w' new s. worker_step plain_env plain_worker 0 (order_delivery None)
      (order_consumer rejecting_router None) empty_world = Returns (cs', w') \<and>
    w_calls w' = new \<and> filter is_settle new = [s]"
proof -
  obtain cs' w' where r: "worker_step plain_env plain_worker 0 (order_delivery None)
      (order_consumer rejecting_router None) empty_world = Returns (cs', w')"
    using plain_worker_returns by blast
  have "leaves_settling reject_all" by (auto simp: leaves_settling_def reject_all_def intro: no_settle_refl)
  then have *: "leaves_settling svc" if "GetHandler (cs_router (order_consumer rejecting_router None)) t = Some svc" for t svc
    using that by (auto simp: order_consumer_def rejecting_router_def rt.lookup_register rt.lookup_empty split: if_splits)
  obtain new s where "w_calls w' = w_calls empty_world @ new" "filter is_settle new = [s]"
    using delivery_settled_once [OF r] * by blast
  then show ?thesis using r by (auto simp: empty_world_def)
qed

end
