(* ===== verification/Workers.thy ===== *)
theory Workers
  imports Consumer "HOL-Library.Multiset"
begin

text \<open>
  The workers of \<open>internal/broker/consumer.go\<close> running side by side. \<open>Consume\<close> starts several
  goroutines that receive from one channel of deliveries and share the breaker, the publisher,
  the client and the AMQP channel. An iteration is cut at the points where a worker touches
  shared state: \<open>stage\<close> is what it does between two such points, \<open>pool_step\<close> lets any worker
  take its next stage, and other goroutines (the confirmation processor, reconnects, a manual
  reset) act in between. Running the stages of one delivery without interruption is exactly
  \<^term>\<open>worker_step\<close>.
\<close>

section \<open>Stages of an iteration\<close>

datatype worker_pc =
    Fetch
  | Begun delivery
  | Admit string delivery
  | Refused string delivery
  | Dispatch string delivery
  | Failed goerror string delivery MessageContext
  | Retrying string delivery MessageContext
  | Settling "goerror option" string MessageContext
  | Acking string MessageContext
  | Succeeded
  | Ended

fun stage :: "env \<Rightarrow> publish_script \<Rightarrow> int \<Rightarrow> worker_pc \<Rightarrow> consumer \<Rightarrow> world \<Rightarrow> (worker_pc \<times> consumer \<times> world) exec" where
  "stage e sc i (Begun d0) cs w =
     (case trace_delivery e d0 w of (t, d, w1) \<Rightarrow> Returns (Admit t d, cs, log_received e i t d w1))"
| "stage e sc i (Admit t d) cs w =
     (case allow_delivery e (cs_breaker cs) w of (ok, cb, w1) \<Rightarrow>
        Returns (if ok then Dispatch t d else Refused t d, cs\<lparr>cs_breaker := cb\<rparr>, w1))"
| "stage e sc i (Refused t d) cs w =
     Returns (Fetch, cs, snd (mc_Nack e \<lparr>mc_Delivery = d\<rparr> False
       (log LWarn ''Consumer Worker: Circuit breaker is open, rejecting message''
          [(''worker_id'', VInt i),
           (''state'', VOther (State_String (m_State (GetMetrics (the (cs_breaker cs)))))),
           (''trace_id'', VString t)] w)))"
| "stage e sc i (Dispatch t d) cs w =
     (let mc = \<lparr>mc_Delivery = d\<rparr>
      in case GetHandler (cs_router cs) (GetType mc) of
           None \<Rightarrow>
             Returns (Fetch, cs, snd (mc_Ack e mc
               (log LError ''Consumer Worker: No handler found for message type''
                  [(''worker_id'', VInt i), (''type'', VString (GetType mc)), (''trace_id'', VString t)] w)))
         | Some svc \<Rightarrow>
             (case svc mc w of (r, mc1, w1) \<Rightarrow>
                Returns (case r of Some err \<Rightarrow> Failed err t d mc1 | None \<Rightarrow> Acking t mc1, cs, w1)))"
| "stage e sc i (Failed err t d mc) cs w =
     (case record_failure e (cs_breaker cs) (log_handler_error i mc err w) of (cb, w1) \<Rightarrow>
        Returns (Retrying t d mc, cs\<lparr>cs_breaker := cb\<rparr>, w1))"
| "stage e sc i (Retrying t d mc) cs w =
     exec_bind (Retry e (cs_client cs) sc (NewHandler (MaxRetries (cl_config (cs_client cs)))) d (cs_pub cs) w)
       (\<lambda>(x, p, w1). Returns (Settling x t mc, cs\<lparr>cs_pub := p\<rparr>, w1))"
| "stage e sc i (Settling x t mc) cs w = Returns (Fetch, cs, settle_retry e i t mc x w)"
| "stage e sc i (Acking t mc) cs w =
     (case mc_Ack e mc w of (ackErr, w1) \<Rightarrow>
        Returns (Succeeded, cs, case ackErr of
            None \<Rightarrow> w1
          | Some err \<Rightarrow> log LError ''Consumer Worker: Failed to ack message''
              [(''worker_id'', VInt i), (''error'', VString (Error err)), (''trace_id'', VString t)] w1))"
| "stage e sc i Succeeded cs w =
     (case record_success e (cs_breaker cs) w of (cb, w1) \<Rightarrow> Returns (Fetch, cs\<lparr>cs_breaker := cb\<rparr>, w1))"
| "stage e sc i Fetch cs w = Blocks"
| "stage e sc i Ended cs w = Blocks"

text \<open>The stages of one delivery in a row; six are enough for any path through the loop's body.\<close>

fun run_stages :: "nat \<Rightarrow> env \<Rightarrow> publish_script \<Rightarrow> int \<Rightarrow> worker_pc \<Rightarrow> consumer \<Rightarrow> world \<Rightarrow> (consumer \<times> world) exec" where
  "run_stages n e sc i Fetch cs w = Returns (cs, w)"
| "run_stages 0 e sc i c cs w = Blocks"
| "run_stages (Suc n) e sc i c cs w =
     exec_bind (stage e sc i c cs w) (\<lambda>(c', cs', w'). run_stages n e sc i c' cs' w')"

section \<open>The pool\<close>

text \<open>
  \<open>pl_queue\<close> is what the channel of deliveries holds, \<open>pl_delivered\<close> everything the broker has sent.
\<close>

record pool =
  pl_delivered :: "delivery list"
  pl_queue :: "delivery list"
  pl_open :: bool
  pl_pcs :: "worker_pc list"
  pl_cs :: consumer
  pl_world :: world

definition start_workers :: "int list \<Rightarrow> consumer \<Rightarrow> world \<Rightarrow> pool" where
  "start_workers ids cs w =
     \<lparr>pl_delivered = [], pl_queue = [], pl_open = True, pl_pcs = map (\<lambda>_. Fetch) ids, pl_cs = cs, pl_world = w\<rparr>"

inductive pool_step :: "env \<Rightarrow> pool \<Rightarrow> pool \<Rightarrow> bool" for e where
  deliver: "pl_open s \<Longrightarrow>
    pool_step e s (s\<lparr>pl_delivered := pl_delivered s @ [d], pl_queue := pl_queue s @ [d]\<rparr>)"
| take: "i < length (pl_pcs s) \<Longrightarrow> pl_pcs s ! i = Fetch \<Longrightarrow> pl_queue s = d # ds \<Longrightarrow>
    pool_step e s (s\<lparr>pl_queue := ds, pl_pcs := (pl_pcs s)[i := Begun d]\<rparr>)"
| work: "i < length (pl_pcs s) \<Longrightarrow> stage e sc (int i) (pl_pcs s ! i) (pl_cs s) (pl_world s) = Returns (c, cs, w) \<Longrightarrow>
    pool_step e s (s\<lparr>pl_pcs := (pl_pcs s)[i := c], pl_cs := cs, pl_world := w\<rparr>)"
| close_deliveries: "pool_step e s (s\<lparr>pl_open := False\<rparr>)"
| finish: "i < length (pl_pcs s) \<Longrightarrow> pl_pcs s ! i = Fetch \<Longrightarrow> pl_queue s = [] \<Longrightarrow> \<not> pl_open s \<Longrightarrow>
    pool_step e s (s\<lparr>pl_pcs := (pl_pcs s)[i := Ended]\<rparr>)"
| publisher_event: "bg_step ev (cs_pub (pl_cs s)) = Returns p \<Longrightarrow>
    pool_step e s (s\<lparr>pl_cs := (pl_cs s)\<lparr>cs_pub := p\<rparr>\<rparr>)"
| client_change: "pool_step e s (s\<lparr>pl_cs := (pl_cs s)\<lparr>cs_client := cl\<rparr>\<rparr>)"
| manual_reset: "Consumer.ResetCircuitBreaker e (pl_cs s) (pl_world s) = (ok, cs, w) \<Longrightarrow>
    pool_step e s (s\<lparr>pl_cs := cs, pl_world := w\<rparr>)"

inductive_cases pool_stepE: "pool_step e s t"

section \<open>An uninterrupted iteration\<close>

lemma run_stages_Suc:
  "c \<noteq> Fetch \<Longrightarrow> run_stages (Suc n) e sc i c cs w =
     exec_bind (stage e sc i c cs w) (\<lambda>(c', cs', w'). run_stages n e sc i c' cs' w')"
  by (cases c) simp_all

lemma run_Succeeded: "run_stages (Suc n) e sc i Succeeded cs w =
   (case record_success e (cs_breaker cs) w of (cb, w1) \<Rightarrow> Returns (cs\<lparr>cs_breaker := cb\<rparr>, w1))"
  by (auto split: prod.splits)

lemma run_Acking: "run_stages (Suc (Suc n)) e sc i (Acking t mc) cs w = Returns (handle_success e i t mc cs w)"
  by (auto simp: handle_success_def Let_def split: prod.splits option.splits)

lemma run_Failed:
  "run_stages (Suc (Suc (Suc n))) e (ws_publish ws) i (Failed err t d mc) cs w = handle_failure e ws i t d mc err cs w"
proof -
  obtain cb w1 where cb: "record_failure e (cs_breaker cs) (log_handler_error i mc err w) = (cb, w1)" by fastforce
  let ?r = "Retry e (cs_client cs) (ws_publish ws) (NewHandler (MaxRetries (cl_config (cs_client cs)))) d (cs_pub cs) w1"
  show ?thesis by (cases ?r) (auto simp: handle_failure_def cb Let_def split: prod.splits)
qed

lemma run_Dispatch:
  assumes "ws_others ws = []"
  shows "run_stages (Suc (Suc (Suc (Suc n)))) e (ws_publish ws) i (Dispatch t d) cs w =
    (let mc = \<lparr>mc_Delivery = d\<rparr>
     in case GetHandler (cs_router cs) (GetType mc) of
          None \<Rightarrow> Returns (cs, snd (mc_Ack e mc
            (log LError ''Consumer Worker: No handler found for message type''
               [(''worker_id'', VInt i), (''type'', VString (GetType mc)), (''trace_id'', VString t)] w)))
        | Some svc \<Rightarrow> (case svc mc w of (r, mc1, w1) \<Rightarrow>
            case r of
              Some err \<Rightarrow> handle_failure e ws i t d mc1 err cs w1
            | None \<Rightarrow> Returns (handle_success e i t mc1 cs w1)))"
proof (cases "GetHandler (cs_router cs) (GetType \<lparr>mc_Delivery = d\<rparr>)")
  case None
  then show ?thesis by (simp add: Let_def)
next
  case (Some svc)
  obtain r mc1 w1 where r: "svc \<lparr>mc_Delivery = d\<rparr> w = (r, mc1, w1)" by (metis prod.collapse)
  note runs = run_Failed [of n e ws i _ t d mc1 cs w1] run_Acking [of "Suc n" e "ws_publish ws" i t mc1 cs w1]
  show ?thesis
    using Some r runs by (cases r) (simp_all add: run_stages_Suc [of "Dispatch t d"] Let_def del: run_stages.simps)
qed

text \<open>
  The stages of one delivery, taken without interruption, are the worker's iteration: same
  breaker, publisher, library calls, log lines and result, and the same panic or wait.
\<close>

theorem stages_are_iteration:
  assumes "ws_others ws = []"
  shows "run_stages 6 e (ws_publish ws) i (Begun d) cs w = worker_step e ws i d cs w"
proof -
  obtain t d1 w1 where tr: "trace_delivery e d w = (t, d1, w1)" by (metis prod.collapse)
  let ?w2 = "log_received e i t d1 w1"
  obtain ok cb w3 where al: "allow_delivery e (cs_breaker cs) ?w2 = (ok, cb, w3)" by (metis prod.collapse)
  have "run_stages 6 e (ws_publish ws) i (Begun d) cs w =
      run_stages 4 e (ws_publish ws) i (if ok then Dispatch t d1 else Refused t d1) (cs\<lparr>cs_breaker := cb\<rparr>) w3"
    by (simp add: eval_nat_numeral tr al)
  also have "\<dots> = worker_step e ws i d cs w"
  proof (cases ok)
    case True
    have id: "map_option (cb_run []) cb = cb" by (cases cb) simp_all
    show ?thesis
      using True run_Dispatch [OF assms, of 0 e i t d1 "cs\<lparr>cs_breaker := cb\<rparr>" w3]
      by (simp add: eval_nat_numeral worker_step_def tr al assms id Let_def del: run_stages.simps
          split: option.split prod.split)
  next
    case False
    then show ?thesis by (simp add: eval_nat_numeral worker_step_def tr al Let_def)
  qed
  finally show ?thesis .
qed

theorem stages_are_iteration_witness:
  "run_stages 6 plain_env (ws_publish plain_worker) 0 (Begun (order_delivery None)) (order_consumer rejecting_router None)
     empty_world =
   worker_step plain_env plain_worker 0 (order_delivery None) (order_consumer rejecting_router None) empty_world"
  by (rule stages_are_iteration) (simp add: plain_worker_def)

section \<open>Conservation of deliveries\<close>

fun unsettled :: "worker_pc \<Rightarrow> tag list" where
  "unsettled (Begun d) = [d_DeliveryTag d]"
| "unsettled (Admit t d) = [d_DeliveryTag d]"
| "unsettled (Refused t d) = [d_DeliveryTag d]"
| "unsettled (Dispatch t d) = [d_DeliveryTag d]"
| "unsettled (Failed err t d mc) = [d_DeliveryTag (mc_Delivery mc)]"
| "unsettled (Retrying t d mc) = [d_DeliveryTag (mc_Delivery mc)]"
| "unsettled (Settling x t mc) = [d_DeliveryTag (mc_Delivery mc)]"
| "unsettled (Acking t mc) = [d_DeliveryTag (mc_Delivery mc)]"
| "unsettled _ = []"

definition handlers_leave :: "Router \<Rightarrow> bool" where
  "handlers_leave r \<longleftrightarrow> (\<forall>t svc. GetHandler r t = Some svc \<longrightarrow> leaves_settling svc)"

text \<open>A stage settles what it stops holding.\<close>

definition conserves :: "worker_pc \<Rightarrow> world \<Rightarrow> worker_pc \<Rightarrow> world \<Rightarrow> bool" where
  "conserves c w c' w' \<longleftrightarrow> (\<exists>new. w_calls w' = w_calls w @ new \<and> settled_tags new @ unsettled c' = unsettled c)"

lemma conserves_quiet: "w_calls w' = w_calls w \<Longrightarrow> unsettled c' = unsettled c \<Longrightarrow> conserves c w c' w'"
  by (simp add: conserves_def)

lemma conserves_no_settle: "no_settle w new w' \<Longrightarrow> unsettled c' = unsettled c \<Longrightarrow> conserves c w c' w'"
  using settled_tags_none by (auto simp: conserves_def no_settle_def)

lemma stage_router: "stage e sc i c cs w = Returns (c', cs', w') \<Longrightarrow> cs_router cs' = cs_router cs"
  by (cases c) (auto simp: Let_def split: prod.splits option.splits)

lemma stage_conserves:
  assumes "stage e sc i c cs w = Returns (c', cs', w')" "handlers_leave (cs_router cs)"
  shows "conserves c w c' w'"
proof (cases c)
  case (Begun d)
  with assms(1) show ?thesis
    by (auto intro!: conserves_quiet dest!: trace_delivery_world split: prod.splits)
next
  case (Admit t d)
  with assms(1) show ?thesis by (auto intro!: conserves_quiet dest!: allow_delivery_world split: prod.splits)
next
  case (Refused t d)
  with assms(1) show ?thesis by (auto simp: conserves_def mc_Nack_calls)
next
  case (Dispatch t d)
  let ?mc = "\<lparr>mc_Delivery = d\<rparr>"
  show ?thesis
  proof (cases "GetHandler (cs_router cs) (GetType ?mc)")
    case None
    with Dispatch assms(1) show ?thesis by (auto simp: conserves_def mc_Ack_calls Let_def)
  next
    case (Some svc)
    obtain r mc1 w1 where r: "svc ?mc w = (r, mc1, w1)" by (metis prod.collapse)
    have "leaves_settling svc" using assms(2) Some by (simp add: handlers_leave_def)
    from leaves [OF this r] obtain new where "d_DeliveryTag (mc_Delivery mc1) = d_DeliveryTag d" "no_settle w new w1"
      by auto
    with Dispatch Some r assms(1) show ?thesis
      by (auto simp: Let_def intro!: conserves_no_settle split: option.splits)
  qed
next
  case (Failed err t d mc)
  with assms(1) show ?thesis by (auto intro!: conserves_quiet dest!: record_failure_world split: prod.splits)
next
  case (Retrying t d mc)
  with assms(1) obtain x p where "Retry e (cs_client cs) sc (NewHandler (MaxRetries (cl_config (cs_client cs)))) d (cs_pub cs) w
      = Returns (x, p, w')" "c' = Settling x t mc" by auto
  with Retry_world show ?thesis by (fastforce simp: Retrying intro: conserves_no_settle)
next
  case (Settling x t mc)
  with assms(1) show ?thesis by (auto simp: conserves_def settle_retry_calls)
next
  case (Acking t mc)
  with assms(1) mc_Ack_calls [of e mc w] show ?thesis by (auto simp: conserves_def split: prod.splits option.splits)
next
  case Succeeded
  with assms(1) show ?thesis by (auto intro!: conserves_quiet dest!: record_success_world split: prod.splits)
qed (use assms(1) in simp_all)

section \<open>Reachable pools\<close>

definition held :: "pool \<Rightarrow> tag list" where
  "held s = concat (map unsettled (pl_pcs s)) @ map d_DeliveryTag (pl_queue s)"

definition pool_inv :: "Router \<Rightarrow> world \<Rightarrow> pool \<Rightarrow> bool" where
  "pool_inv r w0 s \<longleftrightarrow> cs_router (pl_cs s) = r \<and> (handlers_leave r \<longrightarrow>
     (\<exists>new. w_calls (pl_world s) = w_calls w0 @ new \<and>
       mset (settled_tags new) + mset (held s) = mset (map d_DeliveryTag (pl_delivered s))))"

lemma mset_concat_update:
  "i < length xs \<Longrightarrow> mset (concat (map f (xs[i := c]))) + mset (f (xs ! i)) = mset (concat (map f xs)) + mset (f c)"
proof (induction xs arbitrary: i)
  case (Cons x xs)
  then show ?case by (cases i) (auto simp: ac_simps)
qed simp

lemma held_update:
  assumes "i < length (pl_pcs s)"
  shows "mset (held (s\<lparr>pl_pcs := (pl_pcs s)[i := c]\<rparr>)) + mset (unsettled (pl_pcs s ! i)) =
    mset (held s) + mset (unsettled c)"
  using mset_concat_update [OF assms, of unsettled c] by (simp add: held_def ac_simps)

lemma held_cong: "pl_pcs s = pl_pcs t \<Longrightarrow> pl_queue s = pl_queue t \<Longrightarrow> held s = held t"
  by (simp add: held_def)

lemma pool_inv_work:
  assumes "pool_inv r w0 s" "i < length (pl_pcs s)"
    "stage e sc (int i) (pl_pcs s ! i) (pl_cs s) (pl_world s) = Returns (c, cs, w)"
  shows "pool_inv r w0 (s\<lparr>pl_pcs := (pl_pcs s)[i := c], pl_cs := cs, pl_world := w\<rparr>)"
proof -
  let ?s = "s\<lparr>pl_pcs := (pl_pcs s)[i := c]\<rparr>" and ?t = "s\<lparr>pl_pcs := (pl_pcs s)[i := c], pl_cs := cs, pl_world := w\<rparr>"
  have r: "cs_router (pl_cs s) = r" using assms(1) by (simp add: pool_inv_def)
  have "cs_router cs = r" using stage_router [OF assms(3)] r by simp
  moreover have "\<exists>new. w_calls w = w_calls w0 @ new \<and>
      mset (settled_tags new) + mset (held ?t) = mset (map d_DeliveryTag (pl_delivered s))" if h: "handlers_leave r"
  proof -
    obtain new where new: "w_calls (pl_world s) = w_calls w0 @ new"
      "mset (settled_tags new) + mset (held s) = mset (map d_DeliveryTag (pl_delivered s))"
      using assms(1) h by (auto simp: pool_inv_def)
    obtain more where more: "w_calls w = w_calls (pl_world s) @ more"
      "settled_tags more @ unsettled c = unsettled (pl_pcs s ! i)"
      using stage_conserves [OF assms(3)] h r by (auto simp: conserves_def)
    have "mset (held ?s) + mset (settled_tags more @ unsettled c) = mset (held s) + mset (unsettled c)"
      using held_update [OF assms(2), of c] more(2) by simp
    then have "mset (held ?s) + mset (settled_tags more) = mset (held s)" by simp
    moreover have "held ?t = held ?s" by (rule held_cong) simp_all
    ultimately have eq: "mset (held s) = mset (settled_tags more) + mset (held ?t)" by (simp add: ac_simps)
    have "mset (settled_tags (new @ more)) + mset (held ?t) = mset (map d_DeliveryTag (pl_delivered s))"
      using new(2) unfolding eq by (simp add: ac_simps)
    then show ?thesis using new(1) more(1) by (intro exI [of _ "new @ more"]) simp
  qed
  ultimately show ?thesis by (simp add: pool_inv_def)
qed

lemma pool_inv_cong:
  assumes "pool_inv r w0 s" "cs_router (pl_cs t) = cs_router (pl_cs s)" "w_calls (pl_world t) = w_calls (pl_world s)"
    "mset (map d_DeliveryTag (pl_delivered t)) + mset (held s) = mset (map d_DeliveryTag (pl_delivered s)) + mset (held t)"
  shows "pool_inv r w0 t"
proof -
  have "\<exists>new. w_calls (pl_world t) = w_calls w0 @ new \<and>
      mset (settled_tags new) + mset (held t) = mset (map d_DeliveryTag (pl_delivered t))" if h: "handlers_leave r"
  proof -
    obtain new where new: "w_calls (pl_world s) = w_calls w0 @ new"
      "mset (settled_tags new) + mset (held s) = mset (map d_DeliveryTag (pl_delivered s))"
      using assms(1) h unfolding pool_inv_def by blast
    have "mset (settled_tags new) + mset (held t) + mset (held s) =
        mset (settled_tags new) + mset (held s) + mset (held t)" by (simp only: ac_simps)
    also have "\<dots> = mset (map d_DeliveryTag (pl_delivered t)) + mset (held s)" unfolding new(2) assms(4) ..
    finally show ?thesis using new(1) assms(3) by (metis add_right_cancel)
  qed
  then show ?thesis using assms(1,2) unfolding pool_inv_def by simp
qed

lemma pool_inv_step: "pool_step e s t \<Longrightarrow> pool_inv r w0 s \<Longrightarrow> pool_inv r w0 t"
proof (induction rule: pool_step.induct)
  case (deliver s d)
  from deliver(2) show ?case by (rule pool_inv_cong) (simp_all add: held_def)
next
  case (take i s d ds)
  have "mset (held (s\<lparr>pl_pcs := (pl_pcs s)[i := Begun d]\<rparr>)) = mset (held s) + {#d_DeliveryTag d#}"
    using held_update [OF take(1), of "Begun d"] take(2) by simp
  with take(4) show ?case by (elim pool_inv_cong) (simp_all add: held_def take(3))
next
  case (work i s sc c cs w)
  then show ?case by (intro pool_inv_work)
next
  case (finish i s)
  have "mset (held (s\<lparr>pl_pcs := (pl_pcs s)[i := Ended]\<rparr>)) = mset (held s)"
    using held_update [OF finish(1), of Ended] finish(2) by simp
  with finish(5) show ?case by (elim pool_inv_cong) simp_all
next
  case (manual_reset s ok cs w)
  then show ?case
    by (elim pool_inv_cong) (auto simp: ResetCircuitBreaker_def time_Now_def held_def split: option.splits)
qed (auto elim!: pool_inv_cong simp: held_def)

interpretation deliveries: invariant_system "\<lambda>s. s = start_workers ids cs w0" "pool_step e" "pool_inv (cs_router cs) w0"
  for ids cs w0 e
proof
  show "pool_inv (cs_router cs) w0 s" if "s = start_workers ids cs w0" for s
    using that by (auto simp: pool_inv_def start_workers_def held_def comp_def)
qed (rule pool_inv_step)

text \<open>
  Concurrent workers settle every delivery exactly once. However the stages of the workers
  interleave with each other, with confirmations, reconnects, resets and further deliveries,
  what has been acknowledged or rejected, what the workers still hold and what waits in the
  channel are together exactly what the broker delivered: nothing is settled twice and
  nothing is dropped. When the channel is empty and the workers are between deliveries,
  everything delivered has been settled.
\<close>

theorem workers_settle_each_once:
  assumes "reach (\<lambda>s. s = start_workers ids cs w0) (pool_step e) s" "handlers_leave (cs_router cs)"
  shows "\<exists>new. w_calls (pl_world s) = w_calls w0 @ new \<and>
    mset (settled_tags new) + mset (held s) = mset (map d_DeliveryTag (pl_delivered s)) \<and>
    (distinct (map d_DeliveryTag (pl_delivered s)) \<longrightarrow> distinct (settled_tags new) \<and>
      set (settled_tags new) \<inter> set (held s) = {}) \<and>
    (pl_queue s = [] \<and> (\<forall>c \<in> set (pl_pcs s). unsettled c = []) \<longrightarrow>
      mset (settled_tags new) = mset (map d_DeliveryTag (pl_delivered s)))"
proof -
  obtain new where new: "w_calls (pl_world s) = w_calls w0 @ new"
    "mset (settled_tags new) + mset (held s) = mset (map d_DeliveryTag (pl_delivered s))"
    using deliveries.reach_inv [OF assms(1)] assms(2) by (auto simp: pool_inv_def)
  have "distinct (settled_tags new) \<and> set (settled_tags new) \<inter> set (held s) = {}"
    if "distinct (map d_DeliveryTag (pl_delivered s))"
  proof -
    have "mset (settled_tags new @ held s) = mset (map d_DeliveryTag (pl_delivered s))" using new(2) by simp
    then have "distinct (settled_tags new @ held s)" using that by (metis mset_eq_imp_distinct_iff)
    then show ?thesis by simp
  qed
  moreover have "mset (settled_tags new) = mset (map d_DeliveryTag (pl_delivered s))"
    if "pl_queue s = []" "\<forall>c \<in> set (pl_pcs s). unsettled c = []"
  proof -
    have "held s = []" using that by (simp add: held_def)
    then show ?thesis using new(2) by simp
  qed
  ultimately show ?thesis using new by blast
qed

text \<open>Two workers, one delivery of a type nobody handles: the second worker takes it and acknowledges it.\<close>

lemma unhandled_stages:
  obtains t d w1 w2 w3 where
    "stage plain_env plain_script 1 (Begun (order_delivery None)) (order_consumer NewRouter None) empty_world =
       Returns (Admit t d, order_consumer NewRouter None, w1)"
    "stage plain_env plain_script 1 (Admit t d) (order_consumer NewRouter None) w1 =
       Returns (Dispatch t d, order_consumer NewRouter None, w2)"
    "stage plain_env plain_script 1 (Dispatch t d) (order_consumer NewRouter None) w2 =
       Returns (Fetch, order_consumer NewRouter None, w3)"
proof -
  obtain t d w where tr: "trace_delivery plain_env (order_delivery None) empty_world = (t, d, w)" by (metis prod.collapse)
  let ?w1 = "log_received plain_env 1 t d w"
  have al: "allow_delivery plain_env None ?w1 = (True, None, ?w1)" by (simp add: allow_delivery_def)
  have cs: "(order_consumer NewRouter None)\<lparr>cs_breaker := None\<rparr> = order_consumer NewRouter None"
    "cs_breaker (order_consumer NewRouter None) = None" "cs_router (order_consumer NewRouter None) = NewRouter"
    by (simp_all add: order_consumer_def)
  show thesis
    by (rule that [of t d ?w1 ?w1]) (simp_all add: tr al cs rt.lookup_empty Let_def)
qed

theorem workers_settle_each_once_witness:
  "\<exists>s. reach (\<lambda>s. s = start_workers [0, 1] (order_consumer NewRouter None) empty_world) (pool_step plain_env) s \<and>
     map d_DeliveryTag (pl_delivered s) = [5] \<and> settled_tags (w_calls (pl_world s)) = [5]"
proof -
  let ?cs = "order_consumer NewRouter None" and ?d = "order_delivery None"
  obtain t d w1 w2 w3 where st:
    "stage plain_env plain_script 1 (Begun ?d) ?cs empty_world = Returns (Admit t d, ?cs, w1)"
    "stage plain_env plain_script 1 (Admit t d) ?cs w1 = Returns (Dispatch t d, ?cs, w2)"
    "stage plain_env plain_script 1 (Dispatch t d) ?cs w2 = Returns (Fetch, ?cs, w3)"
    by (rule unhandled_stages)
  let ?R = "reach (\<lambda>s. s = start_workers [0, 1] ?cs empty_world) (pool_step plain_env)"
  let ?P = "\<lambda>q c w. \<lparr>pl_delivered = [?d], pl_queue = q, pl_open = True, pl_pcs = [Fetch, c], pl_cs = ?cs, pl_world = w\<rparr>"
  have start: "?R \<lparr>pl_delivered = [], pl_queue = [], pl_open = True, pl_pcs = [Fetch, Fetch], pl_cs = ?cs, pl_world = empty_world\<rparr>"
    by (rule reach_init) (simp add: start_workers_def)
  have "?R (?P [?d] Fetch empty_world)"
    using reach_step [OF start deliver [where d = ?d]] by simp
  from reach_step [OF this take [where i = 1 and d = ?d and ds = "[]"]]
  have b: "?R (?P [] (Begun ?d) empty_world)" by simp
  have w: "?R (?P [] c' w')" if "?R (?P [] c w)" "stage plain_env plain_script 1 c ?cs w = Returns (c', ?cs, w')" for c c' w w'
    using reach_step [OF that(1) work [where i = 1 and sc = plain_script and c = c' and cs = ?cs and w = w']] that(2) by simp
  have r: "?R (?P [] Fetch w3)" using w [OF w [OF w [OF b st(1)] st(2)] st(3)] .
  have "handlers_leave (cs_router ?cs)" by (simp add: handlers_leave_def order_consumer_def rt.lookup_empty)
  from workers_settle_each_once [OF r this] have "mset (settled_tags (w_calls w3)) = {#d_DeliveryTag ?d#}"
    by (auto simp: held_def empty_world_def)
  then have "settled_tags (w_calls w3) = [5]" by (simp add: order_delivery_def)
  then show ?thesis using r by (intro exI [of _ "?P [] Fetch w3"]) (simp add: order_delivery_def)
qed

section \<open>The shared breaker\<close>

text \<open>Every stage and a manual reset change the breaker by at most one of its own operations.\<close>

definition breaker_moves :: "breaker option \<Rightarrow> breaker option \<Rightarrow> bool" where
  "breaker_moves x y \<longleftrightarrow> y = x \<or> (\<exists>b op. x = Some b \<and> y = Some (cb_apply op b))"

lemma breaker_moves_refl: "breaker_moves x x"
  by (simp add: breaker_moves_def)

lemma breaker_movesI: "y = cb_apply op b \<Longrightarrow> breaker_moves (Some b) (Some y)"
  by (auto simp: breaker_moves_def)

lemma allow_moves: "allow_delivery e cb w = (ok, cb', w') \<Longrightarrow> breaker_moves cb cb'"
  by (cases cb) (auto simp: allow_delivery_def time_Now_def breaker_moves_refl split: prod.splits
      intro!: breaker_movesI [of _ "Allow (clock e (w_ticks w)) (clock e (Suc (w_ticks w)))"])

lemma failure_moves: "record_failure e cb w = (cb', w') \<Longrightarrow> breaker_moves cb cb'"
  by (cases cb) (auto simp: record_failure_def time_Now_def breaker_moves_refl intro!: breaker_movesI [of _ "Fail _ _"])

lemma success_moves: "record_success e cb w = (cb', w') \<Longrightarrow> breaker_moves cb cb'"
  by (cases cb) (auto simp: record_success_def time_Now_def breaker_moves_refl intro!: breaker_movesI [of _ "Succeed _"])

lemma stage_moves: "stage e sc i c cs w = Returns (c', cs', w') \<Longrightarrow> breaker_moves (cs_breaker cs) (cs_breaker cs')"
  by (cases c) (auto simp: Let_def breaker_moves_refl split: prod.splits option.splits
      dest: allow_moves failure_moves success_moves)

lemma reset_moves: "Consumer.ResetCircuitBreaker e cs w = (ok, cs', w') \<Longrightarrow>
   breaker_moves (cs_breaker cs) (cs_breaker cs')"
  by (auto simp: ResetCircuitBreaker_def time_Now_def breaker_moves_refl split: option.splits
      intro!: breaker_movesI [of _ "ResetOp _"])

definition breaker_ok :: "pool \<Rightarrow> bool" where
  "breaker_ok s \<longleftrightarrow> (\<forall>b. cs_breaker (pl_cs s) = Some b \<longrightarrow> reach cb_init cb_step b)"

lemma breaker_ok_moves:
  "breaker_ok s \<Longrightarrow> breaker_moves (cs_breaker (pl_cs s)) (cs_breaker (pl_cs t)) \<Longrightarrow> breaker_ok t"
  unfolding breaker_ok_def breaker_moves_def by (metis cb_step option.inject reach_step)

lemma pool_step_moves: "pool_step e s t \<Longrightarrow> breaker_moves (cs_breaker (pl_cs s)) (cs_breaker (pl_cs t))"
  by (induction rule: pool_step.induct) (auto simp: breaker_moves_refl dest: stage_moves reset_moves)

interpretation shared_breaker: invariant_system "\<lambda>s. s = start_workers ids cs w0 \<and> breaker_ok s" "pool_step e" breaker_ok
  for ids cs w0 e
  by unfold_locales (auto intro: breaker_ok_moves pool_step_moves)

lemma NewConsumer_breaker:
  assumes "NewConsumer e cl p r w = (cs, w1)" "cs_breaker cs = Some b"
    and "is_int64 (CircuitBreakerMaxFailures (cl_config cl))" "is_int64 (CircuitBreakerResetTimeout (cl_config cl))"
      "is_int64 (CircuitBreakerHalfOpenRequests (cl_config cl))"
  shows "reach cb_init cb_step b"
proof -
  let ?c = "\<lparr>MaxFailures = CircuitBreakerMaxFailures (cl_config cl), ResetTimeout = CircuitBreakerResetTimeout (cl_config cl),
    HalfOpenMaxRequests = CircuitBreakerHalfOpenRequests (cl_config cl), OnStateChange = True\<rparr>"
  have "b = cb_New ?c (clock e (w_ticks w))"
    using assms(1,2) by (auto simp: NewConsumer_def Let_def time_Now_def split: if_splits)
  then have "cb_init b" unfolding cb_init_def using assms(3-5) by (intro exI [of _ ?c]) auto
  then show ?thesis by (rule reach_init)
qed

text \<open>
  The workers share one well-behaved breaker. In a pool of workers started on a new consumer,
  under every interleaving, the breaker is always in a state its own operations lead to from
  its construction: each stage of a worker is at most one locked operation on it, so the
  breaker's invariant holds and everything shown of a breaker alone holds of the shared one.
\<close>

theorem workers_share_one_breaker:
  assumes "reach (\<lambda>s. s = start_workers ids cs w1) (pool_step e) s"
    and "NewConsumer e cl p r w0 = (cs, w1)" "cs_breaker (pl_cs s) = Some b"
    and "is_int64 (CircuitBreakerMaxFailures (cl_config cl))" "is_int64 (CircuitBreakerResetTimeout (cl_config cl))"
      "is_int64 (CircuitBreakerHalfOpenRequests (cl_config cl))"
  shows "reach cb_init cb_step b \<and> cb_inv b"
proof -
  have "breaker_ok (start_workers ids cs w1)"
    using NewConsumer_breaker [OF assms(2) _ assms(4-6)] by (simp add: breaker_ok_def start_workers_def)
  then have "reach (\<lambda>s. s = start_workers ids cs w1 \<and> breaker_ok s) (pool_step e) s"
    by (intro reach_mono [OF assms(1)]) simp
  from shared_breaker.reach_inv [OF this] have "reach cb_init cb_step b" using assms(3) by (simp add: breaker_ok_def)
  then show ?thesis using cb_sys.reach_inv by blast
qed

theorem workers_share_one_breaker_witness:
  "\<exists>cs w1 b. NewConsumer plain_env (plain_client\<lparr>cl_config := DefaultConfig\<lparr>CircuitBreakerEnabled := True\<rparr>\<rparr>) idle_pub
       NewRouter empty_world = (cs, w1) \<and>
     reach (\<lambda>s. s = start_workers [0, 1] cs w1) (pool_step plain_env) (start_workers [0, 1] cs w1) \<and>
     cs_breaker cs = Some b \<and> cb_inv b"
proof -
  let ?cl = "plain_client\<lparr>cl_config := DefaultConfig\<lparr>CircuitBreakerEnabled := True\<rparr>\<rparr>"
  obtain cs w1 b where n: "NewConsumer plain_env ?cl idle_pub NewRouter empty_world = (cs, w1)" "cs_breaker cs = Some b"
    by (simp add: NewConsumer_def time_Now_def Let_def)
  have r: "reach (\<lambda>s. s = start_workers [0, 1] cs w1) (pool_step plain_env) (start_workers [0, 1] cs w1)"
    by (rule reach_init) simp
  have "cb_inv b"
    using workers_share_one_breaker [OF r n(1)] n(2)
    by (simp add: start_workers_def DefaultConfig_def is_int64_def Second_def)
  with n r show ?thesis by blast
qed

end
