(* ===== verification/Json_Encode.thy ===== *)
theory Json_Encode
  imports Json "HOL-Library.Multiset"
begin

text \<open>
  What the library uses of \<open>json.Marshal\<close>: turning the map of an event into a message body. A
  string is escaped as the encoder escapes it (with its HTML escapes, and U+FFFD for bytes
  that are not UTF-8), the keys of a map are written in byte order, and the first value that
  cannot be encoded is the error. The text a \<open>float64\<close>, a \<open>time.Time\<close> or a value of any other
  type is given is the argument \<open>leaf\<close>. The section on round trips shows that the decoder's
  parser reads back what the encoder wrote.
\<close>

section \<open>Strings\<close>

definition hex_digit :: "nat \<Rightarrow> char" where
  "hex_digit n = (if n < 10 then char_of (48 + n) else char_of (87 + n))"

definition html_safe :: "char \<Rightarrow> bool" where
  "html_safe c \<longleftrightarrow> 32 \<le> byte c \<and> byte c < 128 \<and>
     c \<notin> {CHR 0x22, CHR ''&'', CHR ''<'', CHR ''>'', CHR 0x5C}"

text \<open>A byte below 128 that is not safe.\<close>

definition escape_ascii :: "char \<Rightarrow> string" where
  "escape_ascii c =
     (if c = CHR 0x5C \<or> c = CHR 0x22 then [CHR 0x5C, c]
      else if c = CHR 0x08 then [CHR 0x5C, CHR ''b'']
      else if c = CHR 0x0C then [CHR 0x5C, CHR ''f'']
      else if c = CHR 0x0A then [CHR 0x5C, CHR ''n'']
      else if c = CHR 0x0D then [CHR 0x5C, CHR ''r'']
      else if c = CHR 0x09 then [CHR 0x5C, CHR ''t'']
      else [CHR 0x5C, CHR ''u'', CHR ''0'', CHR ''0'', hex_digit (byte c div 16), hex_digit (byte c mod 16)])"

text \<open>U+2028 and U+2029, the line separators JavaScript does not allow in a string.\<close>

definition is_line_sep :: "string \<Rightarrow> bool" where
  "is_line_sep s \<longleftrightarrow> take 3 s = [CHR 0xE2, CHR 0x80, CHR 0xA8] \<or> take 3 s = [CHR 0xE2, CHR 0x80, CHR 0xA9]"

function quote :: "string \<Rightarrow> string" where
  "quote [] = []"
| "quote (c # cs) =
     (if byte c < 128 then (if html_safe c then [c] else escape_ascii c) @ quote cs
      else if utf8_width (c # cs) = 0 then CHR 0x5C # ''ufffd'' @ quote cs
      else if is_line_sep (c # cs) then
        CHR 0x5C # ''u202'' @ [hex_digit (byte (cs ! 1) mod 16)] @ quote (drop 2 cs)
      else take (utf8_width (c # cs)) (c # cs) @ quote (drop (utf8_width (c # cs) - 1) cs))"
  by pat_completeness auto
termination
  by (relation "measure length") auto

declare quote.simps [simp del]

text \<open>The string with every byte that is not part of a UTF-8 sequence replaced by U+FFFD.\<close>

function sanitize :: "string \<Rightarrow> string" where
  "sanitize [] = []"
| "sanitize (c # cs) =
     (if utf8_width (c # cs) = 0 then replacement @ sanitize cs
      else take (utf8_width (c # cs)) (c # cs) @ sanitize (drop (utf8_width (c # cs) - 1) cs))"
  by pat_completeness auto
termination
  by (relation "measure length") auto

declare sanitize.simps [simp del]

function utf8_valid :: "string \<Rightarrow> bool" where
  "utf8_valid [] = True"
| "utf8_valid (c # cs) =
     (utf8_width (c # cs) \<noteq> 0 \<and> utf8_valid (drop (utf8_width (c # cs) - 1) cs))"
  by pat_completeness auto
termination
  by (relation "measure length") auto

declare utf8_valid.simps [simp del]

section \<open>Values\<close>

fun json_print :: "json \<Rightarrow> string" where
  "json_print JNull = ''null''"
| "json_print (JBool b) = (if b then ''true'' else ''false'')"
| "json_print (JNum r) = r"
| "json_print (JStr r) = [CHR 0x22] @ r @ [CHR 0x22]"
| "json_print (JArr vs) = ''['' @ join '','' (map json_print vs) @ '']''"
| "json_print (JObj ms) =
     ''{'' @ join '','' (map (\<lambda>m. [CHR 0x22] @ fst m @ [CHR 0x22] @ '':'' @ json_print (snd m)) ms) @ ''}''"

fun collect_elems :: "('e + json) list \<Rightarrow> 'e + json list" where
  "collect_elems [] = Inr []"
| "collect_elems (x # xs) =
     (case x of
        Inl err \<Rightarrow> Inl err
      | Inr j \<Rightarrow> (case collect_elems xs of Inl err \<Rightarrow> Inl err | Inr js \<Rightarrow> Inr (j # js)))"

fun collect_members :: "(string \<times> ('e + json)) list \<Rightarrow> 'e + (string \<times> json) list" where
  "collect_members [] = Inr []"
| "collect_members ((k, x) # xs) =
     (case x of
        Inl err \<Rightarrow> Inl err
      | Inr j \<Rightarrow> (case collect_members xs of Inl err \<Rightarrow> Inl err | Inr js \<Rightarrow> Inr ((quote k, j) # js)))"

fun to_json :: "(gvalue \<Rightarrow> 'e + json) \<Rightarrow> gvalue \<Rightarrow> 'e + json" where
  "to_json leaf VNil = Inr JNull"
| "to_json leaf (VBool b) = Inr (JBool b)"
| "to_json leaf (VInt n) = Inr (JNum (show_int n))"
| "to_json leaf (VInt32 n) = Inr (JNum (show_int n))"
| "to_json leaf (VInt64 n) = Inr (JNum (show_int n))"
| "to_json leaf (VUint64 n) = Inr (JNum (show_nat (unat n)))"
| "to_json leaf (VDuration d) = Inr (JNum (show_int d))"
| "to_json leaf (VString s) = Inr (JStr (quote s))"
| "to_json leaf (VArray vs) =
     (case collect_elems (map (to_json leaf) vs) of Inl err \<Rightarrow> Inl err | Inr js \<Rightarrow> Inr (JArr js))"
| "to_json leaf (VTable kvs) =
     (case collect_members (sort_key fst (map (\<lambda>m. (fst m, to_json leaf (snd m))) kvs)) of
        Inl err \<Rightarrow> Inl err
      | Inr ms \<Rightarrow> Inr (JObj ms))"
| "to_json leaf v = leaf v"

text \<open>\<open>json.Marshal\<close> of a \<open>map[string]any\<close>, which may be nil.\<close>

definition marshal_map :: "(gvalue \<Rightarrow> 'e + json) \<Rightarrow> (string \<times> gvalue) list option \<Rightarrow> 'e + string" where
  "marshal_map leaf m =
     (case to_json leaf (case m of None \<Rightarrow> VNil | Some kvs \<Rightarrow> VTable kvs) of
        Inl err \<Rightarrow> Inl err
      | Inr j \<Rightarrow> Inr (json_print j))"

section \<open>Decoding what was escaped\<close>

declare unquote.simps [simp del]

lemma byte_char_of: "n < 256 \<Longrightarrow> byte (char_of n) = n"
  by (simp add: byte_def)

lemma byte_inject: "byte a = byte b \<longleftrightarrow> a = b"
  by (simp add: byte_def)

lemma char_of_byte [simp]: "char_of (byte c) = c"
  by (simp add: byte_def)

lemma byte_less_256: "byte c < 256"
  by (simp add: byte_def)

lemma byte_hex_digit: "n < 16 \<Longrightarrow> byte (hex_digit n) = (if n < 10 then 48 + n else 87 + n)"
  by (simp add: hex_digit_def byte_char_of)

lemma hex_digit_val: "n < 16 \<Longrightarrow> hex_val (hex_digit n) = n"
  by (auto simp: hex_val_def is_digit_def byte_hex_digit)

lemma hex_digit_hex: "n < 16 \<Longrightarrow> is_hex (hex_digit n)"
  by (auto simp: is_hex_def is_digit_def byte_hex_digit)

lemma utf8_width_ascii: "byte c < 128 \<Longrightarrow> utf8_width (c # cs) = 1"
  by simp

lemma utf8_width_le: "utf8_width s \<le> length s"
  by (cases s) (auto split: list.splits)

lemma utf8_width_take:
  assumes "utf8_width s = w" "w \<noteq> 0"
  shows "utf8_width (take w s @ t) = w"
  using assms by (cases s) (auto split: list.split_asm if_split_asm)

lemma take_Cons_pos: "w \<noteq> 0 \<Longrightarrow> take w (c # cs) = c # take (w - 1) cs"
  by (cases w) auto

lemma unquote_multibyte:
  assumes "utf8_width (c # cs) = w" "w \<noteq> 0" "128 \<le> byte c"
  shows "unquote (take w (c # cs) @ t) = take w (c # cs) @ unquote t"
proof -
  have w: "utf8_width (take w (c # cs) @ t) = w" by (rule utf8_width_take [OF assms(1,2)])
  have c: "c \<noteq> CHR 0x5C" using assms(3) by (auto simp: byte_def)
  have le: "length (take (w - 1) cs) = w - 1" using utf8_width_le [of "c # cs"] assms(1) by simp
  have split: "take w (c # cs) @ t = c # (take (w - 1) cs @ t)" using assms(2) by (simp add: take_Cons_pos)
  have "unquote (c # (take (w - 1) cs @ t)) =
      take w (c # (take (w - 1) cs @ t)) @ unquote (drop (w - 1) (take (w - 1) cs @ t))"
    using w c assms(2) unfolding split by (simp add: unquote.simps(2) del: utf8_width.simps)
  moreover have "take w (c # (take (w - 1) cs @ t)) = take w (c # cs)"
    using le assms(2) by (simp add: take_Cons_pos)
  moreover have "drop (w - 1) (take (w - 1) cs @ t) = t" using le by simp
  ultimately show ?thesis unfolding split by simp
qed

lemma unquote_u:
  "\<not> is_surrogate (hex4 a b c d) \<Longrightarrow>
   unquote (CHR 0x5C # CHR ''u'' # a # b # c # d # t) = utf8_encode (hex4 a b c d) @ unquote t"
  by (simp add: unquote.simps(2) [of _ "CHR ''u'' # a # b # c # d # t"] decode_u_def)

lemma unquote_escape: "e \<noteq> CHR ''u'' \<Longrightarrow> unquote (CHR 0x5C # e # t) = escape_char e # unquote t"
  by (simp add: unquote.simps(2) [of _ "e # t"])

lemma unquote_plain: "c \<noteq> CHR 0x5C \<Longrightarrow> byte c < 128 \<Longrightarrow> unquote (c # t) = c # unquote t"
  by (simp add: unquote.simps(2) [of c t])

lemma unquote_ascii:
  assumes "byte c < 128"
  shows "unquote ((if html_safe c then [c] else escape_ascii c) @ t) = c # unquote t"
proof (cases "html_safe c")
  case True
  then have "c \<noteq> CHR 0x5C" by (simp add: html_safe_def)
  then show ?thesis using True assms by (simp add: unquote_plain)
next
  case False
  have h: "hex4 (CHR ''0'') (CHR ''0'') (hex_digit (byte c div 16)) (hex_digit (byte c mod 16)) = byte c"
    using assms by (simp add: hex4_def hex_digit_val) (simp add: hex_val_def is_digit_def byte_def)
  then have "unquote (CHR 0x5C # CHR ''u'' # CHR ''0'' # CHR ''0'' # hex_digit (byte c div 16) #
      hex_digit (byte c mod 16) # t) = c # unquote t"
    using unquote_u [of "CHR ''0''" "CHR ''0''" "hex_digit (byte c div 16)" "hex_digit (byte c mod 16)" t] assms
    by (simp add: is_surrogate_def utf8_encode_def)
  then show ?thesis using False by (auto simp: escape_ascii_def escape_char_def unquote_escape)
qed

lemma unquote_fffd: "unquote (CHR 0x5C # ''ufffd'' @ t) = replacement @ unquote t"
proof -
  have "hex4 (CHR ''f'') (CHR ''f'') (CHR ''f'') (CHR ''d'') = 65533" by (simp add: hex4_def hex_val_def is_digit_def byte_def)
  then show ?thesis using unquote_u [of "CHR ''f''" "CHR ''f''" "CHR ''f''" "CHR ''d''" t]
    by (simp add: replacement_def is_surrogate_def)
qed

lemma unquote_line_sep:
  assumes "is_line_sep (c # cs)"
  shows "unquote (CHR 0x5C # ''u202'' @ [hex_digit (byte (cs ! 1) mod 16)] @ t) = take 3 (c # cs) @ unquote t"
    and "utf8_width (c # cs) = 3"
proof -
  from assms obtain a b cs' where cs: "cs = a # b # cs'" "c = CHR 0xE2" "a = CHR 0x80"
    "b = CHR 0xA8 \<or> b = CHR 0xA9"
    by (cases cs rule: remdups_adj.cases) (auto simp: is_line_sep_def)
  have h: "hex4 (CHR ''2'') (CHR ''0'') (CHR ''2'') (CHR ''8'') = 8232"
    "hex4 (CHR ''2'') (CHR ''0'') (CHR ''2'') (CHR ''9'') = 8233" by (simp_all add: hex4_def hex_val_def is_digit_def byte_def)
  have e: "utf8_encode 8232 = [CHR 0xE2, CHR 0x80, CHR 0xA8]" "utf8_encode 8233 = [CHR 0xE2, CHR 0x80, CHR 0xA9]"
    by (simp_all add: utf8_encode_def char_of_eq_iff take_bit_eq_mod)
  have x: "hex_digit (byte (CHR 0xA8) mod 16) = CHR ''8''" "hex_digit (byte (CHR 0xA9) mod 16) = CHR ''9''"
    by (simp_all add: hex_digit_def byte_def char_of_eq_iff take_bit_eq_mod)
  show "unquote (CHR 0x5C # ''u202'' @ [hex_digit (byte (cs ! 1) mod 16)] @ t) = take 3 (c # cs) @ unquote t"
    using cs(4) unquote_u [of "CHR ''2''" "CHR ''0''" "CHR ''2''" "CHR ''8''" t]
      unquote_u [of "CHR ''2''" "CHR ''0''" "CHR ''2''" "CHR ''9''" t]
    by (auto simp: cs(1-3) x h e is_surrogate_def)
  show "utf8_width (c # cs) = 3" using cs by (auto simp: byte_def is_cont_def)
qed

theorem unquote_quote: "unquote (quote s) = sanitize s"
proof (induction s rule: quote.induct)
  case 1
  then show ?case by (simp add: quote.simps sanitize.simps unquote.simps)
next
  case (2 c cs)
  let ?w = "utf8_width (c # cs)"
  consider "byte c < 128" | "128 \<le> byte c" "?w = 0" | "128 \<le> byte c" "?w \<noteq> 0" "is_line_sep (c # cs)"
    | "128 \<le> byte c" "?w \<noteq> 0" "\<not> is_line_sep (c # cs)" by linarith
  then show ?case
  proof cases
    case 1
    then show ?thesis using "2.IH"(1) unquote_ascii [OF 1, of "quote cs"]
      by (simp add: quote.simps(2) sanitize.simps(2) utf8_width_ascii del: utf8_width.simps)
  next
    case 2
    then show ?thesis using "2.IH"(2) unquote_fffd [of "quote cs"]
      by (simp add: quote.simps(2) sanitize.simps(2) del: utf8_width.simps)
  next
    case 3
    then show ?thesis using "2.IH"(3) unquote_line_sep [OF 3(3)]
      by (simp add: quote.simps(2) sanitize.simps(2) del: utf8_width.simps)
  next
    case 4
    then show ?thesis using "2.IH"(4) unquote_multibyte [OF refl 4(2,1)]
      by (simp add: quote.simps(2) sanitize.simps(2) del: utf8_width.simps)
  qed
qed

lemma sanitize_valid: "utf8_valid s \<Longrightarrow> sanitize s = s"
proof (induction s rule: sanitize.induct)
  case 1
  then show ?case by (simp add: sanitize.simps)
next
  case (2 c cs)
  let ?w = "utf8_width (c # cs)"
  have w: "?w \<noteq> 0" "utf8_valid (drop (?w - 1) cs)" using "2.prems" by (simp_all add: utf8_valid.simps del: utf8_width.simps)
  have "take ?w (c # cs) @ drop (?w - 1) cs = c # cs" using w(1) by (simp add: take_Cons_pos del: utf8_width.simps)
  with w "2.IH"(2) show ?case by (simp add: sanitize.simps del: utf8_width.simps)
qed

section \<open>Parsing what was printed\<close>

text \<open>Lexing does not look past its token: a suffix of the input stays a suffix of the rest.\<close>

inductive scans :: "string \<Rightarrow> string \<Rightarrow> string \<Rightarrow> bool" where
  scans_end: "scans (CHR 0x22 # rest) [] rest"
| scans_escape: "is_escape e \<Longrightarrow> scans es r rest \<Longrightarrow> scans (CHR 0x5C # e # es) (CHR 0x5C # e # r) rest"
| scans_u: "is_hex a \<Longrightarrow> is_hex b \<Longrightarrow> is_hex c \<Longrightarrow> is_hex d \<Longrightarrow> scans es r rest \<Longrightarrow>
    scans (CHR 0x5C # CHR ''u'' # a # b # c # d # es) (CHR 0x5C # CHR ''u'' # a # b # c # d # r) rest"
| scans_plain: "c \<noteq> CHR 0x22 \<Longrightarrow> c \<noteq> CHR 0x5C \<Longrightarrow> 32 \<le> byte c \<Longrightarrow> scans cs r rest \<Longrightarrow>
    scans (c # cs) (c # r) rest"

lemma scan_string_scans: "scan_string s = Some (r, rest) \<Longrightarrow> scans s r rest"
proof (induction s arbitrary: r rest rule: length_induct)
  case (1 s)
  then obtain c cs where s: "s = c # cs" by (cases s) auto
  have IH: "scans u r' rest'" if "scan_string u = Some (r', rest')" "length u < Suc (length cs)" for u r' rest'
    using 1(1) that by (simp add: s)
  show ?case
    using 1(2) unfolding s scan_string.simps(2) [of c cs]
    by (auto split: if_splits list.splits option.splits simp del: scan_string.simps
        intro: scans.intros dest!: IH)
qed

lemma not_escape_u: "\<not> is_escape (CHR ''u'')"
  by (simp add: is_escape_def)

lemma scans_scan_string: "scans s r rest \<Longrightarrow> scan_string s = Some (r, rest)"
proof (induction rule: scans.induct)
  case (scans_escape e es r rest)
  then show ?case by (simp add: scan_string.simps(2) [of _ "e # es"] del: scan_string.simps)
next
  case (scans_u a b c d es r rest)
  then show ?case
    by (simp add: not_escape_u scan_string.simps(2) [of _ "CHR ''u'' # a # b # c # d # es"] del: scan_string.simps)
next
  case (scans_plain c cs r rest)
  then show ?case by (simp add: scan_string.simps(2) [of c cs] del: scan_string.simps)
qed simp

lemma scans_append: "scans s r rest \<Longrightarrow> scans (s @ t) r (rest @ t)"
  by (induction rule: scans.induct) (auto intro: scans.intros)

lemma scan_string_append:
  "scan_string s = Some (r, rest) \<Longrightarrow> scan_string (s @ t) = Some (r, rest @ t)"
  by (rule scans_scan_string [OF scans_append [OF scan_string_scans]])

definition raw_ok :: "string \<Rightarrow> bool" where
  "raw_ok r \<longleftrightarrow> scan_string (r @ [CHR 0x22]) = Some (r, [])"

lemma raw_ok_scan: "raw_ok r \<Longrightarrow> scan_string (r @ CHR 0x22 # t) = Some (r, t)"
  using scan_string_append [of "r @ [CHR 0x22]" r "[]" t] by (simp add: raw_ok_def)

text \<open>What can follow a number inside a value.\<close>

definition ends_number :: "string \<Rightarrow> bool" where
  "ends_number t \<longleftrightarrow> (case t of [] \<Rightarrow> True | c # _ \<Rightarrow>
     \<not> is_digit c \<and> c \<notin> {CHR ''.'', CHR ''e'', CHR ''E''})"

definition num_ok :: "string \<Rightarrow> bool" where
  "num_ok r \<longleftrightarrow> scan_number r = Some (r, [])"

lemma ends_numberD: "ends_number (c # t) \<Longrightarrow> \<not> is_digit c \<and> c \<noteq> CHR ''.'' \<and> c \<noteq> CHR ''e'' \<and> c \<noteq> CHR ''E''"
  by (simp add: ends_number_def)

lemma scan_digits1_append:
  assumes "scan_digits1 s = Some (r, rest)" "rest = [] \<Longrightarrow> ends_number t"
  shows "scan_digits1 (s @ t) = Some (r, rest @ t)"
proof (cases "rest = []")
  case True
  with assms(1) have "\<forall>c \<in> set s. is_digit c" "r = takeWhile is_digit s" "s \<noteq> []"
    by (auto simp: scan_digits1_def split: if_splits)
  moreover from this(1) have "takeWhile is_digit s = s" by simp
  moreover have "takeWhile is_digit t = []" "dropWhile is_digit t = t"
    using assms(2) True by (cases t; auto dest: ends_numberD)+
  ultimately show ?thesis using True by (simp add: scan_digits1_def)
next
  case False
  with assms(1) obtain x where "x \<in> set s" "\<not> is_digit x"
    by (auto simp: scan_digits1_def split: if_splits)
  with assms(1) show ?thesis by (auto simp: scan_digits1_def takeWhile_append1 dropWhile_append1 split: if_splits)
qed

lemma scan_integer_append:
  "scan_integer s = Some (r, rest) \<Longrightarrow> (rest = [] \<Longrightarrow> ends_number t) \<Longrightarrow> scan_integer (s @ t) = Some (r, rest @ t)"
  using scan_digits1_append [of s r rest t] by (auto simp: scan_integer_def split: list.splits if_splits)

lemma scan_frac_append:
  "scan_frac s = Some (r, rest) \<Longrightarrow> (rest = [] \<Longrightarrow> ends_number t) \<Longrightarrow> scan_frac (s @ t) = Some (r, rest @ t)"
  using scan_digits1_append [of _ _ rest t]
  by (auto simp: scan_frac_def split: list.splits if_splits dest: ends_numberD)

lemma scan_exp_append:
  "scan_exp s = Some (r, rest) \<Longrightarrow> (rest = [] \<Longrightarrow> ends_number t) \<Longrightarrow> scan_exp (s @ t) = Some (r, rest @ t)"
  using scan_digits1_append [of _ _ rest t] scan_digits1_append [of "_ # _" _ rest t, simplified]
  by (auto simp: scan_exp_def split: list.splits if_splits dest: ends_numberD)

lemma scan_unsigned_append:
  assumes "scan_unsigned s = Some (r, [])" "ends_number t"
  shows "scan_unsigned (s @ t) = Some (r, t)"
proof -
  from assms(1) obtain i s1 f s2 x where p: "scan_integer s = Some (i, s1)" "scan_frac s1 = Some (f, s2)"
    "scan_exp s2 = Some (x, [])" "r = i @ f @ x"
    by (auto simp: scan_unsigned_def split: option.splits)
  have "scan_integer (s @ t) = Some (i, s1 @ t)" "scan_frac (s1 @ t) = Some (f, s2 @ t)"
    "scan_exp (s2 @ t) = Some (x, t)"
    using p assms(2) by (auto intro: scan_integer_append scan_frac_append dest: scan_exp_append)
  then show ?thesis by (simp add: scan_unsigned_def p(4))
qed

lemma num_ok_scan: "num_ok r \<Longrightarrow> ends_number t \<Longrightarrow> scan_number (r @ t) = Some (r, t)"
  using scan_unsigned_append [of _ _ t] scan_unsigned_append [of "_ # _" _ t, simplified]
  by (auto simp: num_ok_def scan_number_def split: list.splits if_splits)

lemma num_ok_start:
  assumes "num_ok r"
  obtains c cs where "r = c # cs" "is_digit c \<or> c = CHR ''-''"
proof -
  have "is_digit c" if "scan_unsigned (c # cs) = Some (x, y)" for c cs x y
    using that by (auto simp: scan_unsigned_def scan_integer_def scan_digits1_def is_digit_def byte_def
        split: option.splits if_splits)
  with assms that show thesis
    by (auto simp: num_ok_def scan_number_def split: list.splits if_splits)
qed

section \<open>Well-formed trees\<close>

fun json_wf :: "json \<Rightarrow> bool" where
  "json_wf (JNum r) = num_ok r"
| "json_wf (JStr r) = raw_ok r"
| "json_wf (JArr vs) = list_all json_wf vs"
| "json_wf (JObj ms) = list_all (\<lambda>m. raw_ok (fst m) \<and> json_wf (snd m)) ms"
| "json_wf _ = True"

fun json_depth :: "json \<Rightarrow> nat" where
  "json_depth (JArr vs) = Suc (fold max (map json_depth vs) 0)"
| "json_depth (JObj ms) = Suc (fold max (map (\<lambda>m. json_depth (snd m)) ms) 0)"
| "json_depth _ = 0"

lemma fold_max_ge: "x = a \<or> x \<in> set xs \<Longrightarrow> x \<le> fold max xs (a::nat)"
proof (induction xs arbitrary: a x)
  case (Cons y ys)
  then show ?case using Cons.IH [of x "max y a"] Cons.IH [of "max y a" "max y a"] by auto
qed simp

lemma json_depth_elem: "v \<in> set vs \<Longrightarrow> json_depth v < json_depth (JArr vs)"
  using fold_max_ge [of "json_depth v" 0 "map json_depth vs"] by (simp add: less_Suc_eq_le)

lemma json_depth_member: "m \<in> set ms \<Longrightarrow> json_depth (snd m) < json_depth (JObj ms)"
  using fold_max_ge [of "json_depth (snd m)" 0 "map (\<lambda>m. json_depth (snd m)) ms"] by (simp add: less_Suc_eq_le)

lemma json_print_start:
  assumes "json_wf j"
  obtains c cs where "json_print j = c # cs" "\<not> is_ws c" "c \<noteq> CHR '']''" "c \<noteq> CHR ''}''"
  using assms that
proof (cases j)
  case (JNum r)
  with assms show thesis
    by (auto elim!: num_ok_start intro!: that simp: is_ws_def is_digit_def byte_def)
next
  case (JBool b)
  then show thesis by (cases b) (auto simp: is_ws_def intro: that)
qed (auto simp: is_ws_def)

lemma skip_ws_id: "\<not> is_ws c \<Longrightarrow> skip_ws (c # cs) = c # cs"
  by simp

text \<open>What can follow a value: the end of the text, a comma or a closing bracket.\<close>

definition ends_value :: "string \<Rightarrow> bool" where
  "ends_value t \<longleftrightarrow> (case t of [] \<Rightarrow> True | c # _ \<Rightarrow> c \<in> {CHR '','', CHR '']'', CHR ''}''})"

lemma ends_value_number: "ends_value t \<Longrightarrow> ends_number t"
  by (auto simp: ends_value_def ends_number_def is_digit_def byte_def split: list.splits)

lemma ends_value_simps [simp]:
  "ends_value []" "ends_value (CHR '','' # t)" "ends_value (CHR '']'' # t)" "ends_value (CHR ''}'' # t)"
  by (simp_all add: ends_value_def)

text \<open>A value parses back at some depth if every large enough amount of fuel returns it.\<close>

definition reads :: "nat \<Rightarrow> json \<Rightarrow> bool" where
  "reads d j \<longleftrightarrow> (\<forall>t. ends_value t \<longrightarrow> (\<exists>N. \<forall>n \<ge> N. p_value n d (json_print j @ t) = Some (j, t)))"

lemma readsI:
  assumes "\<And>t. ends_value t \<Longrightarrow> \<exists>N. \<forall>n \<ge> N. p_value (Suc n) d (json_print j @ t) = Some (j, t)"
  shows "reads d j"
  unfolding reads_def
proof (intro allI impI)
  fix t
  assume "ends_value t"
  with assms obtain N where N: "\<forall>n \<ge> N. p_value (Suc n) d (json_print j @ t) = Some (j, t)" by blast
  show "\<exists>N. \<forall>n \<ge> N. p_value n d (json_print j @ t) = Some (j, t)"
  proof (intro exI allI impI)
    fix n
    assume "Suc N \<le> n"
    then obtain m where "n = Suc m" "N \<le> m" by (cases n) auto
    with N show "p_value n d (json_print j @ t) = Some (j, t)" by blast
  qed
qed

lemma join_cons: "join sep (x # xs) = x @ (if xs = [] then [] else sep @ join sep xs)"
  by (cases xs) auto

lemma p_elems_print:
  assumes "vs \<noteq> []" "\<forall>v \<in> set vs. json_wf v \<and> reads d v"
  shows "\<exists>N. \<forall>n \<ge> N. p_elems n d (join '','' (map json_print vs) @ CHR '']'' # t) = Some (vs, t)"
  using assms
proof (induction vs)
  case Nil
  then show ?case by simp
next
  case (Cons v vs)
  let ?s = "join '','' (map json_print (v # vs)) @ CHR '']'' # t"
  let ?u = "(if vs = [] then [] else '','' @ join '','' (map json_print vs)) @ CHR '']'' # t"
  have s: "?s = json_print v @ ?u" by (simp add: join_cons)
  have "ends_value ?u" by simp
  moreover have "reads d v" using Cons.prems by simp
  ultimately obtain N where N: "\<forall>n \<ge> N. p_value n d ?s = Some (v, ?u)"
    unfolding reads_def s by blast
  obtain M where M: "vs \<noteq> [] \<longrightarrow>
      (\<forall>n \<ge> M. p_elems n d (join '','' (map json_print vs) @ CHR '']'' # t) = Some (vs, t))"
    using Cons by (cases "vs = []") auto
  show ?case
  proof (intro exI allI impI)
    fix n
    assume n: "Suc (max N M) \<le> n"
    then obtain m where m: "n = Suc m" "N \<le> m" "M \<le> m" by (cases n) auto
    have "p_value m d ?s = Some (v, ?u)" using N m by blast
    then show "p_elems n d ?s = Some (v # vs, t)"
      using M m by (simp add: m(1) p_elems.simps is_ws_def split: list.split)
  qed
qed

lemma p_members_print:
  assumes "ms \<noteq> []" "\<forall>m \<in> set ms. raw_ok (fst m) \<and> json_wf (snd m) \<and> reads d (snd m)"
  shows "\<exists>N. \<forall>n \<ge> N. p_members n d (join '','' (map (\<lambda>m. [CHR 0x22] @ fst m @ [CHR 0x22] @ '':'' @ json_print (snd m)) ms)
    @ CHR ''}'' # t) = Some (ms, t)"
  using assms
proof (induction ms)
  case Nil
  then show ?case by simp
next
  case (Cons kv ms)
  obtain k v where kv: "kv = (k, v)" by (metis surj_pair)
  let ?p = "\<lambda>m. [CHR 0x22] @ fst m @ [CHR 0x22] @ '':'' @ json_print (snd m)"
  let ?s = "join '','' (map ?p (kv # ms)) @ CHR ''}'' # t"
  let ?u = "(if ms = [] then [] else '','' @ join '','' (map ?p ms)) @ CHR ''}'' # t"
  have s: "?s = CHR 0x22 # (k @ CHR 0x22 # (CHR '':'' # (json_print v @ ?u)))" by (simp add: join_cons kv)
  have k: "scan_string (k @ CHR 0x22 # (CHR '':'' # (json_print v @ ?u))) = Some (k, CHR '':'' # (json_print v @ ?u))"
    using Cons.prems by (intro raw_ok_scan) (simp add: kv)
  have "ends_value ?u" by simp
  moreover have "reads d v" using Cons.prems by (simp add: kv)
  ultimately obtain N where N: "\<forall>n \<ge> N. p_value n d (json_print v @ ?u) = Some (v, ?u)"
    unfolding reads_def by blast
  obtain M where M: "ms \<noteq> [] \<longrightarrow> (\<forall>n \<ge> M. p_members n d (join '','' (map ?p ms) @ CHR ''}'' # t) = Some (ms, t))"
    using Cons by (cases "ms = []") auto
  show ?case
  proof (intro exI allI impI)
    fix n
    assume n: "Suc (max N M) \<le> n"
    then obtain m where m: "n = Suc m" "N \<le> m" "M \<le> m" by (cases n) auto
    have v: "p_value m d (json_print v @ ?u) = Some (v, ?u)" using N m by blast
    have "p_members n d ?s = (case skip_ws ?u of [] \<Rightarrow> None | e # es \<Rightarrow>
        if e = CHR ''}'' then Some ([(k, v)], es)
        else if e = CHR '','' then map_option (\<lambda>(ms, rest). ((k, v) # ms, rest)) (p_members m d es) else None)"
      unfolding s m(1) p_members.simps(2) skip_ws.simps k by (simp add: is_ws_def k v)
    then show "p_members n d ?s = Some (kv # ms, t)"
      using M m by (simp add: kv is_ws_def)
  qed
qed

lemma reads_num:
  assumes "num_ok r"
  shows "reads d (JNum r)"
proof -
  obtain c cs where r: "r = c # cs" "is_digit c \<or> c = CHR ''-''" using assms by (rule num_ok_start)
  then have c: "\<not> is_ws c" "c \<noteq> CHR 0x22" "c \<noteq> CHR ''{''" "c \<noteq> CHR ''[''" "c \<noteq> CHR ''t''"
    "c \<noteq> CHR ''f''" "c \<noteq> CHR ''n''"
    by (auto simp: is_ws_def is_digit_def byte_def)
  show ?thesis
  proof (rule readsI)
    fix t
    assume "ends_value t"
    then have "scan_number (c # cs @ t) = Some (r, t)"
      using num_ok_scan [OF assms ends_value_number] r(1) by simp
    then show "\<exists>N. \<forall>n \<ge> N. p_value (Suc n) d (json_print (JNum r) @ t) = Some (JNum r, t)"
      using c by (simp add: p_value.simps r(1))
  qed
qed

lemma reads_arr:
  assumes "\<forall>v \<in> set vs. json_wf v \<and> reads (Suc d) v" "d < maxNestingDepth"
  shows "reads d (JArr vs)"
proof (cases vs)
  case Nil
  then show ?thesis using assms(2) by (intro readsI) (simp add: p_value.simps is_ws_def)
next
  case (Cons v vs')
  then have "vs \<noteq> []" "json_wf v" using assms(1) by simp_all
  then obtain c cs where "json_print v = c # cs" "\<not> is_ws c" "c \<noteq> CHR '']''" using json_print_start by blast
  then have j: "\<exists>cs'. join '','' (map json_print vs) @ CHR '']'' # t = c # cs'" "\<not> is_ws c" "c \<noteq> CHR '']''" for t
    by (simp_all add: Cons join_cons)
  show ?thesis
  proof (rule readsI)
    fix t
    obtain cs' where cs': "join '','' (map json_print vs) @ CHR '']'' # t = c # cs'" using j by blast
    obtain N where "\<forall>n \<ge> N. p_elems n (Suc d) (c # cs') = Some (vs, t)"
      using p_elems_print [OF \<open>vs \<noteq> []\<close> assms(1), of t] unfolding cs' by blast
    then show "\<exists>N. \<forall>n \<ge> N. p_value (Suc n) d (json_print (JArr vs) @ t) = Some (JArr vs, t)"
      using assms(2) j(2,3) by (intro exI [of _ N]) (simp add: p_value.simps is_ws_def cs')
  qed
qed

lemma reads_obj:
  assumes "\<forall>m \<in> set ms. raw_ok (fst m) \<and> json_wf (snd m) \<and> reads (Suc d) (snd m)" "d < maxNestingDepth"
  shows "reads d (JObj ms)"
proof (cases "ms = []")
  case True
  then show ?thesis using assms(2) by (intro readsI) (simp add: p_value.simps is_ws_def)
next
  case False
  let ?p = "\<lambda>m. [CHR 0x22] @ fst m @ [CHR 0x22] @ '':'' @ json_print (snd m)"
  have j: "\<exists>cs'. join '','' (map ?p ms) @ CHR ''}'' # t = CHR 0x22 # cs'" for t
    using False by (cases ms) (simp_all add: join_cons)
  show ?thesis
  proof (rule readsI)
    fix t
    obtain cs' where cs': "join '','' (map ?p ms) @ CHR ''}'' # t = CHR 0x22 # cs'" using j by blast
    obtain N where "\<forall>n \<ge> N. p_members n (Suc d) (CHR 0x22 # cs') = Some (ms, t)"
      using p_members_print [OF False assms(1), of t] unfolding cs' by blast
    then show "\<exists>N. \<forall>n \<ge> N. p_value (Suc n) d (json_print (JObj ms) @ t) = Some (JObj ms, t)"
      using assms(2) cs' by (intro exI [of _ N]) (simp add: p_value.simps is_ws_def)
  qed
qed

lemma reads_print: "json_wf j \<Longrightarrow> d + json_depth j \<le> maxNestingDepth \<Longrightarrow> reads d j"
proof (induction j arbitrary: d)
  case JNull
  show ?case by (rule readsI) (simp add: p_value.simps is_ws_def strip_prefix_def)
next
  case (JBool b)
  show ?case by (rule readsI) (cases b; simp add: p_value.simps is_ws_def strip_prefix_def)
next
  case (JStr r)
  then show ?case by (intro readsI) (simp add: p_value.simps is_ws_def raw_ok_scan)
next
  case (JNum r)
  then show ?case by (intro reads_num) simp
next
  case (JArr vs)
  have "json_wf v \<and> reads (Suc d) v" if v: "v \<in> set vs" for v
    using JArr.prems JArr.IH [OF v] json_depth_elem [OF v] v by (simp add: list_all_iff)
  then show ?case using JArr.prems by (intro reads_arr) simp_all
next
  case (JObj ms)
  have "raw_ok (fst m) \<and> json_wf (snd m) \<and> reads (Suc d) (snd m)" if m: "m \<in> set ms" for m
  proof -
    have "raw_ok (fst m)" "json_wf (snd m)" "Suc d + json_depth (snd m) \<le> maxNestingDepth"
      using JObj.prems json_depth_member [OF m] m by (simp_all add: list_all_iff)
    with JObj.IH [OF m] show ?thesis by (cases m) simp
  qed
  then show ?case using JObj.prems by (intro reads_obj) simp_all
qed

lemma json_parse_print:
  assumes "json_wf j" "json_depth j \<le> maxNestingDepth"
  shows "json_parse (json_print j) = Some j"
proof -
  obtain N where N: "\<forall>n \<ge> N. p_value n 0 (json_print j) = Some (j, [])"
    using reads_print [of j 0] assms unfolding reads_def by (metis add_0 append_Nil2 ends_value_simps(1))
  let ?n = "max N (2 * length (json_print j) + 1)"
  have "json_parse_with ?n (json_print j) = Some j" using N by (simp add: json_parse_with_def)
  then show ?thesis using json_parse_fuel [of "json_print j" ?n] by simp
qed

section \<open>The encoder writes well-formed text\<close>

lemma scans_ascii:
  assumes "byte c < 128" "scans t r rest"
  shows "scans ((if html_safe c then [c] else escape_ascii c) @ t) ((if html_safe c then [c] else escape_ascii c) @ r) rest"
proof (cases "html_safe c")
  case True
  then show ?thesis using assms by (auto simp: html_safe_def intro: scans_plain)
next
  case False
  have "is_hex (CHR ''0'')" by (simp add: is_hex_def is_digit_def byte_def)
  then have "scans (CHR 0x5C # CHR ''u'' # CHR ''0'' # CHR ''0'' # hex_digit (byte c div 16) # hex_digit (byte c mod 16) # t)
      (CHR 0x5C # CHR ''u'' # CHR ''0'' # CHR ''0'' # hex_digit (byte c div 16) # hex_digit (byte c mod 16) # r) rest"
    using assms by (intro scans_u hex_digit_hex) auto
  moreover have "escape_ascii c = [CHR 0x5C, CHR ''u'', CHR ''0'', CHR ''0'', hex_digit (byte c div 16), hex_digit (byte c mod 16)]
      \<or> (\<exists>e. is_escape e \<and> escape_ascii c = [CHR 0x5C, e])"
    by (simp add: escape_ascii_def is_escape_def)
  ultimately show ?thesis using False assms(2) scans_escape [of _ t r rest] by auto
qed

lemma scans_high:
  "\<forall>b \<in> set xs. 128 \<le> byte b \<Longrightarrow> scans t r rest \<Longrightarrow> scans (xs @ t) (xs @ r) rest"
proof (induction xs)
  case (Cons b xs)
  then have "128 \<le> byte b" by simp
  then have "b \<noteq> CHR 0x22" "b \<noteq> CHR 0x5C" by (auto simp: byte_def)
  with Cons show ?case by (auto intro!: scans_plain)
qed simp

lemma utf8_width_high:
  "128 \<le> byte c \<Longrightarrow> b \<in> set (take (utf8_width (c # cs)) (c # cs)) \<Longrightarrow> 128 \<le> byte b"
  by (auto simp: is_cont_def split: list.split_asm if_split_asm)

lemma scans_quote: "scans (quote s @ [CHR 0x22]) (quote s) []"
proof (induction s rule: quote.induct)
  case 1
  show ?case using scans_end [of "[]"] by (simp add: quote.simps)
next
  case (2 c cs)
  have hex: "is_hex (CHR ''f'')" "is_hex (CHR ''d'')" "is_hex (CHR ''2'')" "is_hex (CHR ''0'')"
    by (simp_all add: is_hex_def is_digit_def byte_def)
  let ?w = "utf8_width (c # cs)"
  consider "byte c < 128" | "128 \<le> byte c" "?w = 0" | "128 \<le> byte c" "?w \<noteq> 0" "is_line_sep (c # cs)"
    | "128 \<le> byte c" "?w \<noteq> 0" "\<not> is_line_sep (c # cs)" by linarith
  then show ?case
  proof cases
    case 1
    then show ?thesis using scans_ascii [OF 1 "2.IH"(1) [OF 1]] by (simp add: quote.simps(2) del: utf8_width.simps)
  next
    case 2
    then show ?thesis using "2.IH"(2) hex
      by (simp add: quote.simps(2) scans_u del: utf8_width.simps)
  next
    case 3
    then show ?thesis using "2.IH"(3) hex
      by (simp add: quote.simps(2) scans_u hex_digit_hex del: utf8_width.simps)
  next
    case 4
    have "scans (take ?w (c # cs) @ (quote (drop (?w - 1) cs) @ [CHR 0x22])) (take ?w (c # cs) @ quote (drop (?w - 1) cs)) []"
      using 4 "2.IH"(4) utf8_width_high [OF 4(1)] by (intro scans_high) (auto simp del: utf8_width.simps)
    with 4 show ?thesis by (simp add: quote.simps(2) del: utf8_width.simps)
  qed
qed

lemma raw_ok_quote: "raw_ok (quote s)"
  unfolding raw_ok_def by (rule scans_scan_string [OF scans_quote])

lemma show_nat_digits: "c \<in> set (show_nat n) \<Longrightarrow> is_digit c"
proof (induction n rule: show_nat.induct)
  case (1 n)
  then show ?case
    by (subst (asm) (2) show_nat.simps) (auto simp: is_digit_def byte_char_of split: if_splits)
qed

lemma show_nat_Cons:
  obtains c cs where "show_nat n = c # cs" "c = CHR ''0'' \<longrightarrow> cs = []"
proof (induction n arbitrary: thesis rule: show_nat.induct)
  case (1 n)
  show ?case
  proof (cases "n < 10")
    case True
    then show ?thesis using "1.prems" by (subst (asm) show_nat.simps) simp
  next
    case False
    then obtain c cs where c: "show_nat (n div 10) = c # cs" "c = CHR ''0'' \<longrightarrow> cs = []" using "1.IH" by blast
    have "c \<noteq> CHR ''0''"
    proof
      assume "c = CHR ''0''"
      with c have "show_nat (n div 10) = ''0''" by simp
      moreover have "show_nat 0 = ''0''" by (simp add: show_nat.simps char_of_eq_iff take_bit_eq_mod)
      ultimately have "show_nat (n div 10) = show_nat 0" by simp
      then have "n div 10 = 0" by simp
      with False show False by simp
    qed
    moreover have "show_nat n = c # (cs @ [char_of (48 + n mod 10)])"
      using False c(1) by (subst show_nat.simps) simp
    ultimately show ?thesis using "1.prems" by blast
  qed
qed

lemma scan_unsigned_show_nat: "scan_unsigned (show_nat n) = Some (show_nat n, [])"
proof -
  obtain c cs where c: "show_nat n = c # cs" "c = CHR ''0'' \<longrightarrow> cs = []" by (rule show_nat_Cons)
  have "\<forall>x \<in> set (c # cs). is_digit x" using show_nat_digits unfolding c(1) [symmetric] by blast
  then have "takeWhile is_digit (c # cs) = c # cs" "dropWhile is_digit (c # cs) = []" by simp_all
  with c(2) show ?thesis
    by (auto simp: c(1) scan_unsigned_def scan_integer_def scan_digits1_def scan_frac_def scan_exp_def)
qed

lemma num_ok_show_nat: "num_ok (show_nat n)"
proof -
  obtain c cs where c: "show_nat n = c # cs" by (rule show_nat_Cons)
  have "is_digit c" using show_nat_digits [of c n] by (simp add: c)
  then have "c \<noteq> CHR ''-''" by (auto simp: is_digit_def byte_def)
  with scan_unsigned_show_nat [of n] show ?thesis by (simp add: num_ok_def scan_number_def c)
qed

lemma num_ok_show_int: "num_ok (show_int n)"
  using num_ok_show_nat scan_unsigned_show_nat by (simp add: show_int_def num_ok_def scan_number_def)

lemma collect_elems_Inr: "collect_elems xs = Inr js \<Longrightarrow> xs = map Inr js"
  by (induction xs arbitrary: js) (auto split: sum.splits)

lemma collect_members_Inr:
  "collect_members xs = Inr ms \<Longrightarrow>
   ms = map (\<lambda>(k, x). (quote k, projr x)) xs \<and> (\<forall>m \<in> set xs. snd m = Inr (projr (snd m)))"
  by (induction xs arbitrary: ms rule: collect_members.induct) (auto split: sum.splits)

lemma to_json_wf:
  assumes leaf: "\<And>v j. leaf v = Inr j \<Longrightarrow> json_wf j"
  shows "to_json leaf v = Inr j \<Longrightarrow> json_wf j"
proof (induction v arbitrary: j)
  case (VArray vs)
  from VArray.prems obtain js where j: "map (to_json leaf) vs = map Inr js" "j = JArr js"
    by (auto split: sum.splits dest: collect_elems_Inr)
  have "json_wf x" if "x \<in> set js" for x
  proof -
    from that have "Inr x \<in> set (map (to_json leaf) vs)" unfolding j(1) by simp
    with VArray.IH show ?thesis by auto
  qed
  then show ?case by (simp add: j(2) list_all_iff)
next
  case (VTable kvs)
  let ?xs = "sort_key fst (map (\<lambda>m. (fst m, to_json leaf (snd m))) kvs)"
  from VTable.prems obtain ms where ms: "collect_members ?xs = Inr ms" "j = JObj ms"
    by (auto split: sum.splits)
  note m = collect_members_Inr [OF ms(1)]
  have "json_wf (projr (snd m))" if "m \<in> set ?xs" for m
  proof -
    from that obtain p where p: "p \<in> set kvs" "snd m = to_json leaf (snd p)" by auto
    have "to_json leaf (snd p) = Inr (projr (snd m))" using m p by simp
    then show ?thesis using VTable.IH [OF p(1), of "snd p"] by (cases p) simp
  qed
  moreover have "list_all (\<lambda>m. raw_ok (fst m) \<and> json_wf (snd m)) (map (\<lambda>(k, x). (quote k, projr x)) ys)"
    if "\<forall>m \<in> set ys. json_wf (projr (snd m))" for ys :: "(string \<times> ('a + json)) list"
    using that by (induction ys) (auto simp: raw_ok_quote)
  ultimately show ?case using m by (simp add: ms(2))
qed (auto simp: num_ok_show_int num_ok_show_nat raw_ok_quote intro: leaf)

section \<open>Reading the type field back\<close>

lemma replacement_high: "b \<in> set replacement \<Longrightarrow> 128 \<le> byte b"
  by (auto simp: replacement_def utf8_encode_def byte_char_of)

lemma replacement_nonempty: "replacement \<noteq> []"
  by (simp add: replacement_def utf8_encode_def)

lemma sanitize_ascii: "\<forall>b \<in> set (sanitize s). byte b < 128 \<Longrightarrow> sanitize s = s"
proof (induction s rule: sanitize.induct)
  case 1
  then show ?case by (simp add: sanitize.simps)
next
  case (2 c cs)
  let ?w = "utf8_width (c # cs)"
  have "?w \<noteq> 0"
  proof
    assume "?w = 0"
    then have "\<forall>b \<in> set replacement. byte b < 128" using "2.prems" by (simp add: sanitize.simps del: utf8_width.simps)
    moreover obtain b where "b \<in> set replacement" using replacement_nonempty by (metis last_in_set)
    ultimately show False using replacement_high by fastforce
  qed
  moreover have "take ?w (c # cs) @ drop (?w - 1) cs = c # cs"
    using calculation by (simp add: take_Cons_pos del: utf8_width.simps)
  ultimately show ?case using "2.IH"(2) "2.prems" by (simp add: sanitize.simps del: utf8_width.simps)
qed

lemma byte_to_lower_high: "128 \<le> byte c \<Longrightarrow> to_lower c = c"
  by (simp add: to_lower_def)

text \<open>The keys that name the field are the sixteen spellings of \<open>type\<close>, which is the last of them in byte order.\<close>

lemma to_lower_cases: "to_lower a = c \<Longrightarrow> 97 \<le> byte c \<Longrightarrow> byte c \<le> 122 \<Longrightarrow> a = c \<or> byte a + 32 = byte c"
  by (auto simp: to_lower_def byte_char_of split: if_splits)

lemma type_key_le:
  assumes "is_type_key (quote k)"
  shows "k \<le> ''type''"
proof -
  have low: "map to_lower (sanitize k) = ''type''" using assms by (simp add: is_type_key_def unquote_quote)
  have "byte b < 128" if "b \<in> set (sanitize k)" for b
  proof (rule ccontr)
    assume "\<not> byte b < 128"
    then have "b = to_lower b" "128 \<le> byte b" using byte_to_lower_high [of b] by simp_all
    moreover have "to_lower b \<in> set ''type''" using that low by (metis image_eqI list.set_map)
    ultimately show False by (auto simp: byte_def)
  qed
  then have k: "map to_lower k = ''type''" using sanitize_ascii [of k] low by simp
  then obtain a b c d where "k = [a, b, c, d]" and t: "to_lower a = CHR ''t''" "to_lower b = CHR ''y''"
    "to_lower c = CHR ''p''" "to_lower d = CHR ''e''" by (auto simp: map_eq_Cons_conv)
  moreover have "a \<le> CHR ''t''" "b \<le> CHR ''y''" "c \<le> CHR ''p''" "d \<le> CHR ''e''"
    using to_lower_cases [OF t(1)] to_lower_cases [OF t(2)] to_lower_cases [OF t(3)] to_lower_cases [OF t(4)]
    by (auto simp: byte_def less_eq_char_def)
  ultimately show ?thesis by (auto simp: less_le)
qed

lemma decode_type_skip:
  "\<forall>m \<in> set ms. \<not> is_type_key (fst m) \<Longrightarrow> decode_type cur ok ms = (if ok then Some cur else None)"
  by (induction ms arbitrary: cur) auto

lemma decode_type_prefix:
  assumes "\<forall>m \<in> set xs. is_type_key (fst m) \<longrightarrow> snd m = JNull \<or> (\<exists>s. snd m = JStr s)"
  shows "\<exists>cur'. decode_type cur True (xs @ ys) = decode_type cur' True ys"
  using assms
proof (induction xs arbitrary: cur)
  case (Cons m xs)
  then show ?case by (cases m) (auto split: json.splits)
qed auto

text \<open>A spelling of \<open>type\<close> whose value is not a string makes the decoder report an error.\<close>

definition type_keys_ok :: "(string \<times> gvalue) list \<Rightarrow> bool" where
  "type_keys_ok kvs \<longleftrightarrow>
     list_all (\<lambda>(k, v). map to_lower (sanitize k) = ''type'' \<longrightarrow> v = VNil \<or> as_string v \<noteq> None) kvs"

lemma to_json_type_key:
  assumes "type_keys_ok kvs" "p \<in> set kvs" "is_type_key (quote (fst p))" "to_json leaf (snd p) = Inr j"
  shows "j = JNull \<or> (\<exists>s. j = JStr s)"
proof -
  have "snd p = VNil \<or> as_string (snd p) \<noteq> None"
    using assms(1-3) by (auto simp: type_keys_ok_def list_all_iff is_type_key_def unquote_quote)
  then show ?thesis using assms(4) by (cases "snd p") auto
qed

lemma decode_type_marshalled:
  assumes "collect_members (sort_key fst (map (\<lambda>m. (fst m, to_json leaf (snd m))) kvs)) = Inr ms"
    and "distinct (map fst kvs)" "type_keys_ok kvs" "map_of kvs ''type'' = Some (VString t)"
  shows "decode_type [] True ms = Some (sanitize t)"
proof -
  let ?f = "\<lambda>m. (fst m, to_json leaf (snd m))"
  let ?xs = "sort_key fst (map ?f kvs)"
  note ms = collect_members_Inr [OF assms(1)]
  have "(''type'', Inr (JStr (quote t))) \<in> set ?xs"
    using map_of_SomeD [OF assms(4)] by (force simp: image_iff)
  then obtain ys zs where xs: "?xs = ys @ (''type'', Inr (JStr (quote t))) # zs" by (meson split_list)
  have "sorted (map fst ?xs)" by simp
  then have ge: "''type'' \<le> fst m" if "m \<in> set zs" for m using that unfolding xs by (simp add: sorted_append)
  have "mset (map fst ?xs) = mset (map fst kvs)" by (simp add: mset_map comp_def image_mset.compositionality)
  then have "distinct (map fst ?xs)" using assms(2) by (metis mset_eq_imp_distinct_iff)
  then have "fst m \<noteq> ''type''" if "m \<in> set zs" for m using that unfolding xs by (auto simp: rev_image_eqI)
  with ge have late: "\<not> is_type_key (quote (fst m))" if "m \<in> set zs" for m
    using that type_key_le [of "fst m"] by (metis order_antisym)
  have early: "projr (snd m) = JNull \<or> (\<exists>s. projr (snd m) = JStr s)"
    if "m \<in> set ?xs" "is_type_key (quote (fst m))" for m
  proof -
    from that obtain p where p: "p \<in> set kvs" "m = ?f p" by auto
    have "snd m = Inr (projr (snd m))" using ms that(1) by blast
    then obtain j where j: "snd m = Inr j" by blast
    with p(2) have "to_json leaf (snd p) = Inr j" by simp
    with to_json_type_key [OF assms(3) p(1)] that(2) p(2) j show ?thesis by simp
  qed
  let ?g = "\<lambda>(k, x). (quote k, projr x)"
  have split: "ms = map ?g ys @ (quote ''type'', JStr (quote t)) # map ?g zs" using ms unfolding xs by simp
  have "\<forall>m \<in> set (map ?g ys). is_type_key (fst m) \<longrightarrow> snd m = JNull \<or> (\<exists>s. snd m = JStr s)"
    using early unfolding xs by fastforce
  then obtain cur where "decode_type [] True ms = decode_type cur True ((quote ''type'', JStr (quote t)) # map ?g zs)"
    unfolding split using decode_type_prefix [of "map ?g ys" "[]" "(quote ''type'', JStr (quote t)) # map ?g zs"] by blast
  moreover have "is_type_key (quote ''type'')"
    by (simp add: is_type_key_def unquote_quote sanitize.simps to_lower_def byte_def)
  moreover have "\<forall>m \<in> set (map ?g zs). \<not> is_type_key (fst m)" using late by (auto split: prod.splits)
  ultimately show ?thesis by (simp add: decode_type_skip unquote_quote)
qed

section \<open>Round trips\<close>

text \<open>
  What decoding into an empty interface makes of an encoded value: every number is a \<open>float64\<close>,
  the keys of a map come in byte order.
\<close>

definition float_of_int :: "int \<Rightarrow> float64" where
  "float_of_int n = float_of_ratio (n < 0) (nat \<bar>n\<bar>) 1"

fun bound_value :: "gvalue \<Rightarrow> gvalue" where
  "bound_value (VInt n) = VFloat64 (float_of_int n)"
| "bound_value (VInt32 n) = VFloat64 (float_of_int n)"
| "bound_value (VInt64 n) = VFloat64 (float_of_int n)"
| "bound_value (VArray vs) = VArray (map bound_value vs)"
| "bound_value (VTable kvs) = VTable (sort_key fst (map (\<lambda>m. (fst m, bound_value (snd m))) kvs))"
| "bound_value v = v"

text \<open>Values whose encoding loses nothing: UTF-8 strings, integers of 64 bits, and no map with a key twice.\<close>

fun json_clean :: "gvalue \<Rightarrow> bool" where
  "json_clean VNil = True"
| "json_clean (VBool b) = True"
| "json_clean (VInt n) = is_int64 n"
| "json_clean (VInt32 n) = is_int64 n"
| "json_clean (VInt64 n) = is_int64 n"
| "json_clean (VString s) = utf8_valid s"
| "json_clean (VArray vs) = list_all json_clean vs"
| "json_clean (VTable kvs) =
     (distinct (map fst kvs) \<and> list_all (\<lambda>m. utf8_valid (fst m) \<and> json_clean (snd m)) kvs)"
| "json_clean _ = False"

fun value_depth :: "gvalue \<Rightarrow> nat" where
  "value_depth (VArray vs) = Suc (fold max (map value_depth vs) 0)"
| "value_depth (VTable kvs) = Suc (fold max (map (\<lambda>m. value_depth (snd m)) kvs) 0)"
| "value_depth _ = 0"

lemma bit_size_bounds: "0 < n \<Longrightarrow> 2 ^ (bit_size n - 1) \<le> n \<and> n < 2 ^ bit_size n \<and> 0 < bit_size n"
proof (induction n rule: bit_size.induct)
  case (1 n)
  show ?case
  proof (cases "n = 1")
    case True
    then show ?thesis by (simp add: bit_size.simps)
  next
    case False
    then have "0 < n div 2" using 1(2) by auto
    with 1 have IH: "2 ^ (bit_size (n div 2) - 1) \<le> n div 2" "n div 2 < 2 ^ bit_size (n div 2)" "0 < bit_size (n div 2)"
      by auto
    have s: "bit_size n = Suc (bit_size (n div 2))" using 1(2) by (subst bit_size.simps) simp
    obtain b where b: "bit_size (n div 2) = Suc b" using IH(3) by (cases "bit_size (n div 2)") auto
    have "2 * p \<le> n \<and> n < 4 * p" if "p \<le> n div 2" "n div 2 < 2 * p" for p using that by linarith
    then show ?thesis using IH by (simp add: s b)
  qed
qed

lemma bit_size_1: "bit_size (Suc 0) = 1"
  by (simp add: bit_size.simps)

lemma float_of_int_exact:
  assumes "\<bar>n\<bar> < 2 ^ 53"
  shows "float64_to_int (float_of_int n) = n"
proof (cases "n = 0")
  case True
  then show ?thesis by (simp add: float_of_int_def float_of_ratio_def)
next
  case False
  let ?m = "nat \<bar>n\<bar>" and ?b = "bit_size (nat \<bar>n\<bar>)"
  have m: "0 < ?m" using False by simp
  note bb = bit_size_bounds [OF m]
  have "?m < 2 ^ 53" using assms by (simp add: nat_less_iff)
  then have "(2::nat) ^ (?b - 1) < 2 ^ 53" using bb by (meson le_less_trans)
  then have "?b - 1 < 53" by (rule power_less_imp_less_exp [rotated]) simp
  then obtain k where k: "?b + k = 53" by (metis Suc_diff_1 bb le_add_diff_inverse less_eq_Suc_le)
  have "(2::nat) ^ 53 \<le> ?m * 2 ^ (k + 1)"
  proof -
    have "?b - 1 + (k + 1) = 53" using k bb by simp
    then have "(2::nat) ^ 53 = 2 ^ (?b - 1) * 2 ^ (k + 1)" by (metis power_add)
    also have "\<dots> \<le> ?m * 2 ^ (k + 1)" using bb by (intro mult_right_mono) auto
    finally show ?thesis .
  qed
  moreover have "int ?b - int (bit_size 1) - 53 = - int (k + 1)" using k by (simp add: bit_size_1)
  ultimately have q: "float_exp ?m 1 = - int k"
    using k unfolding float_exp_def Let_def by (simp add: nat_add_distrib)
  have "float_of_int n = Finite (n * 2 ^ k) (- int k)"
    using False m q by (simp add: float_of_int_def float_of_ratio_def round_even_def Let_def)
  moreover have "is_int64 n" using assms by (simp add: is_int64_def abs_less_iff)
  ultimately show ?thesis
    by (cases "k = 0") (simp_all add: abs_mult sgn_mult sgn_mult_abs)
qed

lemma takeWhile_show_nat: "takeWhile is_digit (show_nat n) = show_nat n" "dropWhile is_digit (show_nat n) = []"
  using show_nat_digits by auto

lemma num_parts_show_int: "num_parts (show_int n) = (nat \<bar>n\<bar>, 0)"
proof -
  obtain c cs where c: "show_nat (nat \<bar>n\<bar>) = c # cs" by (rule show_nat_Cons)
  have "is_digit c" using show_nat_digits [of c] by (metis c list.set_intros(1))
  then have "c \<noteq> CHR ''-''" by (auto simp: is_digit_def byte_def)
  then have "num_parts (show_nat (nat \<bar>n\<bar>)) = (nat \<bar>n\<bar>, 0)" "num_parts (CHR ''-'' # show_nat (nat \<bar>n\<bar>)) = (nat \<bar>n\<bar>, 0)"
    using takeWhile_show_nat [of "nat \<bar>n\<bar>"] read_show_nat [of "nat \<bar>n\<bar>"]
    by (simp_all add: num_parts_def c Let_def)
  then show ?thesis by (cases "n < 0") (simp_all add: show_int_def)
qed

lemma float_show_int:
  assumes "is_int64 n"
  shows "float_in_range (show_int n)" "float_of_text (show_int n) = float_of_int n"
proof -
  have "\<bar>n\<bar> < 2 ^ 64" using assms by (simp add: is_int64_def abs_less_iff)
  then show "float_in_range (show_int n)" by (simp add: float_in_range_def num_parts_show_int)
  have "take 1 (show_nat (nat n)) \<noteq> ''-''"
    using show_nat_digits [of "CHR ''-''" "nat n"] by (cases "show_nat (nat n)") (auto simp: is_digit_def byte_def)
  then have "take 1 (show_int n) = ''-'' \<longleftrightarrow> n < 0" by (simp add: show_int_def)
  then show "float_of_text (show_int n) = float_of_int n"
    by (simp add: float_of_text_def num_parts_show_int float_of_int_def)
qed

lemma fold_assoc_put:
  "distinct (map fst (acc @ xs)) \<Longrightarrow> fold (\<lambda>(k, v). assoc_put k v) xs acc = acc @ xs"
proof (induction xs arbitrary: acc)
  case (Cons m xs)
  have "assoc_put (fst m) (snd m) acc' = acc' @ [m]" if "fst m \<notin> fst ` set acc'" for acc'
    using that by (induction acc') auto
  then have "assoc_put (fst m) (snd m) acc = acc @ [m]" using Cons.prems by auto
  with Cons show ?case by (cases m) simp
qed simp

text \<open>The encoding of a clean value, and what it decodes to.\<close>

lemma collect_elems_map: "(\<And>v. v \<in> set vs \<Longrightarrow> f v = Inr (g v)) \<Longrightarrow> collect_elems (map f vs) = Inr (map g vs)"
  by (induction vs) auto

lemma collect_members_map:
  "(\<And>m. m \<in> set xs \<Longrightarrow> f m = Inr (g m)) \<Longrightarrow>
   collect_members (map (\<lambda>m. (fst m, f m)) xs) = Inr (map (\<lambda>m. (quote (fst m), g m)) xs)"
  by (induction xs) auto

definition encodes_to :: "(gvalue \<Rightarrow> 'e + json) \<Rightarrow> gvalue \<Rightarrow> json \<Rightarrow> bool" where
  "encodes_to leaf v j \<longleftrightarrow> to_json leaf v = Inr j \<and> json_wf j \<and> nums_in_range j \<and>
     json_depth j \<le> value_depth v \<and> decode_any j = bound_value v"

lemma fold_max_le: "fold max xs a \<le> (n::nat) \<longleftrightarrow> a \<le> n \<and> (\<forall>x \<in> set xs. x \<le> n)"
  by (induction xs arbitrary: a) auto

lemma fold_max_mono:
  assumes "\<And>x. x \<in> set xs \<Longrightarrow> x \<in> set ys \<and> f x \<le> g x"
  shows "fold max (map f xs) 0 \<le> fold max (map g ys) (0::nat)"
  unfolding fold_max_le
proof (intro conjI ballI)
  fix n
  assume "n \<in> set (map f xs)"
  then obtain x where x: "x \<in> set xs" "n = f x" by auto
  with assms have "x \<in> set ys" "n \<le> g x" by auto
  then have "n \<le> g x" "g x \<le> fold max (map g ys) 0" by (auto intro: fold_max_ge)
  then show "n \<le> fold max (map g ys) 0" by simp
qed simp

lemma encodes_array:
  assumes "\<forall>v \<in> set vs. encodes_to leaf v (h v)"
  shows "encodes_to leaf (VArray vs) (JArr (map h vs))"
  unfolding encodes_to_def
proof (intro conjI)
  show "to_json leaf (VArray vs) = Inr (JArr (map h vs))"
    using collect_elems_map [of vs "to_json leaf" h] assms by (simp add: encodes_to_def)
  show "json_depth (JArr (map h vs)) \<le> value_depth (VArray vs)"
    using assms fold_max_mono [of vs vs "json_depth \<circ> h" value_depth] by (simp add: encodes_to_def)
qed (use assms in \<open>simp_all add: encodes_to_def list_all_iff\<close>)

lemma sort_key_map: "sort_key g (map f xs) = map f (sort_key (\<lambda>x. g (f x)) xs)"
proof -
  have insort: "insort_key g (f x) (map f ys) = map f (insort_key (\<lambda>x. g (f x)) x ys)" for x ys
    by (induction ys) auto
  show ?thesis by (induction xs) (auto simp: insort)
qed

lemma encodes_table:
  assumes enc: "\<forall>m \<in> set kvs. encodes_to leaf (snd m) (h m)"
    and keys: "distinct (map fst kvs)" "\<forall>m \<in> set kvs. utf8_valid (fst m)"
  shows "encodes_to leaf (VTable kvs) (JObj (map (\<lambda>m. (quote (fst m), h m)) (sort_key fst kvs)))"
  unfolding encodes_to_def
proof (intro conjI)
  let ?f = "\<lambda>m. (fst m, to_json leaf (snd m))" and ?g = "\<lambda>m. (fst m, bound_value (snd m))"
  let ?kvs = "sort_key fst kvs"
  let ?ms = "map (\<lambda>m. (quote (fst m), h m)) ?kvs"
  have "collect_members (map ?f ?kvs) = Inr ?ms"
    using collect_members_map [of ?kvs "\<lambda>m. to_json leaf (snd m)" h] enc by (simp add: encodes_to_def)
  then show "to_json leaf (VTable kvs) = Inr (JObj ?ms)" by (simp add: sort_key_map)
  show "json_wf (JObj ?ms)" "nums_in_range (JObj ?ms)"
    using enc by (simp_all add: encodes_to_def list_all_iff raw_ok_quote)
  show "json_depth (JObj ?ms) \<le> value_depth (VTable kvs)"
    using enc fold_max_mono [of ?kvs kvs "\<lambda>m. json_depth (h m)" "\<lambda>m. value_depth (snd m)"]
    by (simp add: encodes_to_def comp_def)
  have "map (\<lambda>m. (unquote (fst m), decode_any (snd m))) ?ms = map ?g ?kvs"
    using enc keys(2) by (simp add: encodes_to_def unquote_quote sanitize_valid comp_def)
  moreover have "distinct (map fst (map ?g ?kvs))"
    using keys(1) sort_key_map [of "\<lambda>x. x" fst kvs] by (simp add: comp_def) (metis distinct_sort)
  ultimately show "decode_any (JObj ?ms) = bound_value (VTable kvs)"
    using fold_assoc_put [of "[]" "map ?g ?kvs"] by (simp only: decode_any.simps bound_value.simps sort_key_map) simp
qed


lemma encodes_scalar:
  shows "encodes_to leaf VNil JNull" "encodes_to leaf (VBool b) (JBool b)"
    and "is_int64 n \<Longrightarrow> encodes_to leaf (VInt n) (JNum (show_int n))"
    and "is_int64 n \<Longrightarrow> encodes_to leaf (VInt32 n) (JNum (show_int n))"
    and "is_int64 n \<Longrightarrow> encodes_to leaf (VInt64 n) (JNum (show_int n))"
    and "utf8_valid s \<Longrightarrow> encodes_to leaf (VString s) (JStr (quote s))"
  by (simp_all add: encodes_to_def num_ok_show_int raw_ok_quote float_show_int unquote_quote sanitize_valid)

lemma clean_encodes: "json_clean v \<Longrightarrow> \<exists>j. encodes_to leaf v j"
proof (induction v)
  case (VArray vs)
  then have "\<forall>v \<in> set vs. \<exists>j. encodes_to leaf v j" by (simp add: list_all_iff)
  then obtain h where "\<forall>v \<in> set vs. encodes_to leaf v (h v)" by metis
  then show ?case by (blast intro: encodes_array)
next
  case (VTable kvs)
  then have "\<forall>m \<in> set kvs. \<exists>j. encodes_to leaf (snd m) j"
    by (auto simp: list_all_iff)
  then obtain h where "\<forall>m \<in> set kvs. encodes_to leaf (snd m) (h m)" by metis
  moreover have "distinct (map fst kvs)" "\<forall>m \<in> set kvs. utf8_valid (fst m)"
    using VTable.prems by (simp_all add: list_all_iff)
  ultimately show ?case by (blast intro: encodes_table)
qed (auto intro: encodes_scalar)


section \<open>Properties\<close>

text \<open>
  What an event's map is encoded to, the consumer's decoder reads back: for maps of nil,
  booleans, 64-bit integers, UTF-8 strings, arrays and nested maps within the decoder's nesting
  limit, \<open>json.Marshal\<close> succeeds and \<open>json.Unmarshal\<close> of its text into a \<open>map[string]any\<close> succeeds
  with the same keys and values, numbers having become \<open>float64\<close>.
\<close>

lemma marshal_round_trip:
  assumes "json_clean (VTable kvs)" "value_depth (VTable kvs) \<le> maxNestingDepth"
  shows "\<exists>body. marshal_map leaf (Some kvs) = Inr body \<and>
    unmarshal_map body = (True, bound_value (VTable kvs))"
proof -
  obtain j where j: "encodes_to leaf (VTable kvs) j" using clean_encodes [OF assms(1)] by blast
  then obtain ms where ms: "j = JObj ms" by (auto simp: encodes_to_def split: sum.splits)
  have "json_parse (json_print j) = Some j"
    using j assms(2) by (intro json_parse_print) (auto simp: encodes_to_def)
  then have "unmarshal_map (json_print j) = (nums_in_range j, decode_any j)" by (simp add: unmarshal_map_def ms)
  moreover have "marshal_map leaf (Some kvs) = Inr (json_print j)" using j by (simp add: marshal_map_def encodes_to_def)
  ultimately show ?thesis using j by (simp add: encodes_to_def)
qed

text \<open>
  An encoded event is always a well-formed message. Whatever the map holds, if \<open>json.Marshal\<close>
  succeeds then its text is accepted by the decoder's scanner as one object, within the nesting
  limit: no string breaks out of its quotes, no number is malformed, and the members are the
  entries of the map in ascending key order.
\<close>

theorem marshalled_body_well_formed:
  assumes "marshal_map leaf (Some kvs) = Inr body" "\<And>v j. leaf v = Inr j \<Longrightarrow> json_wf j"
    and "\<And>j. to_json leaf (VTable kvs) = Inr j \<Longrightarrow> json_depth j \<le> maxNestingDepth"
  shows "\<exists>ms. json_parse body = Some (JObj ms) \<and> json_wf (JObj ms) \<and>
    map (unquote \<circ> fst) ms = map sanitize (sort (map fst kvs))"
proof -
  obtain j where j: "to_json leaf (VTable kvs) = Inr j" "body = json_print j"
    using assms(1) by (auto simp: marshal_map_def split: sum.splits)
  let ?f = "\<lambda>m. (fst m, to_json leaf (snd m))"
  from j(1) obtain ms where ms: "collect_members (sort_key fst (map ?f kvs)) = Inr ms" "j = JObj ms"
    by (auto split: sum.splits)
  have wf: "json_wf j" by (rule to_json_wf [OF assms(2) j(1)])
  have "json_parse body = Some j" unfolding j(2) by (rule json_parse_print [OF wf assms(3) [OF j(1)]])
  moreover have "map (unquote \<circ> fst) ms = map (sanitize \<circ> fst) (sort_key fst (map ?f kvs))"
    using collect_members_Inr [OF ms(1)] by (auto simp: unquote_quote split: prod.split)
  moreover have "map fst (sort_key fst (map ?f kvs)) = sort (map fst kvs)"
    using sort_key_map [of "\<lambda>x. x" fst "map ?f kvs"] by (simp add: comp_def)
  ultimately show ?thesis using wf by (metis list.map_comp ms(2))
qed

theorem marshalled_body_well_formed_witness:
  "\<exists>body ms. marshal_map (\<lambda>v. Inl v) (Some [(''k'', VString [CHR 0x22, CHR 0xFF])]) = Inr body \<and>
     json_parse body = Some (JObj ms) \<and> map (unquote \<circ> fst) ms = [''k'']"
proof -
  let ?kvs = "[(''k'', VString [CHR 0x22, CHR 0xFF])]"
  obtain body where "marshal_map (\<lambda>v. Inl v :: gvalue + json) (Some ?kvs) = Inr body" by (simp add: marshal_map_def)
  then show ?thesis using marshalled_body_well_formed [of "\<lambda>v. Inl v" ?kvs body]
    by (fastforce simp: maxNestingDepth_def sanitize.simps byte_def)
qed

text \<open>
  The body of an event with a \<open>type\<close> entry is an object whose type field decodes to that entry.
\<close>

lemma marshal_type_field:
  assumes "marshal_map leaf (Some kvs) = Inr body" "\<And>v j. leaf v = Inr j \<Longrightarrow> json_wf j"
    and "\<And>j. to_json leaf (VTable kvs) = Inr j \<Longrightarrow> json_depth j \<le> maxNestingDepth"
    and "distinct (map fst kvs)" "type_keys_ok kvs" "map_of kvs ''type'' = Some (VString t)"
  shows "unmarshal_type body = Some (sanitize t)"
proof -
  obtain j where j: "to_json leaf (VTable kvs) = Inr j" "body = json_print j"
    using assms(1) by (auto simp: marshal_map_def split: sum.splits)
  from j(1) obtain ms where ms: "collect_members (sort_key fst (map (\<lambda>m. (fst m, to_json leaf (snd m))) kvs)) = Inr ms"
    "j = JObj ms"
    by (auto split: sum.splits)
  have "json_wf j" by (rule to_json_wf [OF assms(2) j(1)])
  then have "json_parse body = Some (JObj ms)" using json_parse_print [OF _ assms(3) [OF j(1)]] unfolding j(2) ms(2) [symmetric] by blast
  with decode_type_marshalled [OF ms(1) assms(4-6)] show ?thesis by (simp add: unmarshal_type_def)
qed

end
