(* ===== verification/Event_Bus.thy ===== *)
theory Event_Bus
  imports Consumer Reconnect Json_Encode
begin

text \<open>
  The public facade: \<open>event.go\<close>, \<open>publish.go\<close> and \<open>eventbus.go\<close>. An event is user code behind an
  interface; it is the values its methods return (\<open>ToMap\<close> may return the nil map). The bus, its publisher and its
  consumer share the client, the publisher and the router by pointer, so the bus holds each
  once and the consumer of \<open>StartConsume\<close> is a view of it with the breaker as its own state.
\<close>

section \<open>Events\<close>

record event =
  ev_Type :: string
  ev_Exchange :: string
  ev_Headers :: mapref
  ev_ToMap :: "(string \<times> gvalue) list option"

text \<open>The body of its message: \<open>json.Marshal(event.ToMap())\<close>.\<close>

definition ev_json :: "env \<Rightarrow> event \<Rightarrow> goerror + string" where
  "ev_json e ev = marshal_map (marshal_leaf e) (ev_ToMap ev)"

definition createDefaultPublishing :: "env \<Rightarrow> event \<Rightarrow> world \<Rightarrow> (goerror + publishing) \<times> world" where
  "createDefaultPublishing e ev w =
     (let (a, h1) = make_map (map_get (w_heap w) (ev_Headers ev)) (w_heap w);
          w1 = w\<lparr>w_heap := h1\<rparr>;
          w2 = (case hp_map h1 a ''trace_id'' of
                  Some v \<Rightarrow> if v \<noteq> VNil then w1
                           else (case uuid_New e w1 of (t, w') \<Rightarrow>
                                   w'\<lparr>w_heap := map_put a ''trace_id'' (VString t) h1\<rparr>)
                | None \<Rightarrow> (case uuid_New e w1 of (t, w') \<Rightarrow>
                             w'\<lparr>w_heap := map_put a ''trace_id'' (VString t) h1\<rparr>))
      in case ev_json e ev of
           Inl err \<Rightarrow> (Inl err, w2)
         | Inr body \<Rightarrow>
             (let (correlationId, w3) = uuid_New e w2;
                  (messageId, w4) = uuid_New e w3;
                  (now, w5) = time_Now e w4
              in (Inr (zero_publishing\<lparr>p_Headers := Some a, p_ContentType := ''application/json'',
                    p_DeliveryMode := Persistent, p_CorrelationId := correlationId,
                    p_MessageId := messageId, p_Timestamp := now, p_Type := ev_Type ev,
                    p_Body := body\<rparr>), w5)))"

section \<open>The bus\<close>

record EventBus =
  eb_client :: client
  eb_pub :: pub
  eb_consumer :: "breaker option option"
  eb_router :: "Router option"
  eb_dlqRouter :: "Router option"

definition NewEventBus :: "env \<Rightarrow> Config \<Rightarrow> config_option list \<Rightarrow> world \<Rightarrow> (goerror + EventBus) \<times> world" where
  "NewEventBus e cfg0 opts w =
     (let cfg1 = applyOptions opts cfg0;
          cfg = (if Logger cfg1 = None then cfg1\<lparr>Logger := Some DefaultLoggerRef\<rparr> else cfg1)
      in case Validate cfg of
           Some err \<Rightarrow> (Inl err, w)
         | None \<Rightarrow>
             (case broker_New e cfg w of
                (Inl err, w1) \<Rightarrow> (Inl err, w1)
              | (Inr cl, w1) \<Rightarrow>
                  (case NewPublisher e cl w1 of (p, w2) \<Rightarrow>
                     (Inr \<lparr>eb_client = cl, eb_pub = p, eb_consumer = None, eb_router = None,
                           eb_dlqRouter = None\<rparr>, w2))))"

definition RegisterHandler :: "string \<Rightarrow> handler option \<Rightarrow> EventBus \<Rightarrow> EventBus" where
  "RegisterHandler eventType svc b =
     (let r = (case eb_router b of None \<Rightarrow> NewRouter | Some r \<Rightarrow> r)
      in b\<lparr>eb_router := Some (Handle eventType svc r)\<rparr>)"

definition RegisterDLQHandler :: "string \<Rightarrow> handler option \<Rightarrow> EventBus \<Rightarrow> EventBus" where
  "RegisterDLQHandler eventType svc b =
     (let r = (case eb_dlqRouter b of None \<Rightarrow> NewRouter | Some r \<Rightarrow> r)
      in b\<lparr>eb_dlqRouter := Some (Handle eventType svc r)\<rparr>)"

definition bus_consumer :: "EventBus \<Rightarrow> Router \<Rightarrow> breaker option \<Rightarrow> consumer" where
  "bus_consumer b r cb = \<lparr>cs_client = eb_client b, cs_pub = eb_pub b, cs_router = r, cs_breaker = cb\<rparr>"

definition StartConsume :: "env \<Rightarrow> string \<Rightarrow> int \<Rightarrow> EventBus \<Rightarrow> world \<Rightarrow>
    (goerror + int list) \<times> EventBus \<times> world" where
  "StartConsume e queue workers b w =
     (case eb_router b of
        None \<Rightarrow> (Inl ErrNoHandlersRegistered, b, w)
      | Some r \<Rightarrow>
          (let (cb, w1) = (case eb_consumer b of
                             Some cb \<Rightarrow> (cb, w)
                           | None \<Rightarrow> (case NewConsumer e (eb_client b) (eb_pub b) r w of (c, w') \<Rightarrow>
                                       (cs_breaker c, w')));
               (res, w2) = Consume e (bus_consumer b r cb) queue workers w1
           in (res, b\<lparr>eb_consumer := Some cb\<rparr>, w2)))"

definition StartConsumeDLQ :: "env \<Rightarrow> string \<Rightarrow> int \<Rightarrow> EventBus \<Rightarrow> world \<Rightarrow>
    (goerror + int list \<times> consumer) \<times> world" where
  "StartConsumeDLQ e queue workers b w =
     (case eb_dlqRouter b of
        None \<Rightarrow> (Inl ErrNoHandlersRegistered, w)
      | Some r \<Rightarrow>
          (case NewConsumer e (eb_client b) (eb_pub b) r w of (c, w1) \<Rightarrow>
           case Consume e c queue workers w1 of
             (Inl err, w2) \<Rightarrow> (Inl err, w2)
           | (Inr ws, w2) \<Rightarrow> (Inr (ws, c), w2)))"

definition bus_Close :: "env \<Rightarrow> EventBus \<Rightarrow> world \<Rightarrow> (goerror option \<times> EventBus \<times> world) exec" where
  "bus_Close e b w =
     exec_bind (publisher_Close (eb_pub b)) (\<lambda>p.
       case client_Close e (eb_client b) w of (r, cl, w1) \<Rightarrow>
         Returns (r, b\<lparr>eb_pub := p, eb_client := cl\<rparr>, w1))"

definition bus_IsConnected :: "env \<Rightarrow> EventBus \<Rightarrow> world \<Rightarrow> bool \<times> world" where
  "bus_IsConnected e b w = client_IsConnected e (eb_client b) w"

text \<open>\<open>Reconnect\<close> acts on the client's reconnection machinery.\<close>

definition bus_Reconnect :: "rstate \<Rightarrow> rstate" where
  "bus_Reconnect s = client_Reconnect s"

definition bus_GetCircuitBreakerMetrics :: "EventBus \<Rightarrow> Metrics option" where
  "bus_GetCircuitBreakerMetrics b =
     (case eb_consumer b of
        None \<Rightarrow> None
      | Some cb \<Rightarrow> GetCircuitBreakerMetrics (bus_consumer b (the (eb_router b)) cb))"

definition bus_ResetCircuitBreaker :: "env \<Rightarrow> EventBus \<Rightarrow> world \<Rightarrow> bool \<times> EventBus \<times> world" where
  "bus_ResetCircuitBreaker e b w =
     (case eb_consumer b of
        None \<Rightarrow> (False, b, w)
      | Some cb \<Rightarrow>
          (case ResetCircuitBreaker e (bus_consumer b (the (eb_router b)) cb) w of
             (ok, c, w1) \<Rightarrow> (ok, b\<lparr>eb_consumer := Some (cs_breaker c)\<rparr>, w1)))"

section \<open>Publishing\<close>

definition bus_Publish :: "env \<Rightarrow> publish_script \<Rightarrow> event \<Rightarrow> EventBus \<Rightarrow> world \<Rightarrow>
    (goerror option \<times> EventBus \<times> world) exec" where
  "bus_Publish e sc ev b w =
     (case createDefaultPublishing e ev w of
        (Inl err, w1) \<Rightarrow> Returns (Some err, b, w1)
      | (Inr msg, w1) \<Rightarrow>
          exec_bind (Publish e (eb_client b) sc (ev_Exchange ev) (ev_Type ev) msg (eb_pub b) w1)
            (\<lambda>(r, p, w2). Returns (r, b\<lparr>eb_pub := p\<rparr>, w2)))"

record BatchError =
  be_Index :: int
  be_Event :: event
  be_Error :: goerror

record BatchResult =
  br_Total :: int
  br_Success :: int
  br_Failed :: int
  br_Errors :: "BatchError list"

definition add_failure :: "int \<Rightarrow> event \<Rightarrow> goerror \<Rightarrow> BatchResult \<Rightarrow> BatchResult" where
  "add_failure i ev err r =
     r\<lparr>br_Failed := br_Failed r + 1,
       br_Errors := br_Errors r @ [\<lparr>be_Index = i, be_Event = ev, be_Error = err\<rparr>]\<rparr>"

definition add_success :: "BatchResult \<Rightarrow> BatchResult" where
  "add_success r = r\<lparr>br_Success := br_Success r + 1\<rparr>"

text \<open>
  Serialising the events of a pipelined batch. The slice was made with its full length, so an
  event that cannot be serialised leaves the zero message in its place.
\<close>

fun marshal_events :: "env \<Rightarrow> bool \<Rightarrow> int \<Rightarrow> event list \<Rightarrow> BatchResult \<Rightarrow> world \<Rightarrow>
    goerror option \<times> PublishMessage list \<times> BatchResult \<times> world" where
  "marshal_events e failFast i [] r w = (None, [], r, w)"
| "marshal_events e failFast i (ev # evs) r w =
     (case createDefaultPublishing e ev w of
        (Inl err, w1) \<Rightarrow>
          (let r1 = add_failure i ev err r
           in if failFast then (Some err, [], r1, w1)
              else case marshal_events e failFast (i + 1) evs r1 w1 of
                     (x, ms, r2, w2) \<Rightarrow> (x, zero_PublishMessage # ms, r2, w2))
      | (Inr msg, w1) \<Rightarrow>
          (case marshal_events e failFast (i + 1) evs r w1 of
             (x, ms, r2, w2) \<Rightarrow>
               (x, \<lparr>pm_Exchange = ev_Exchange ev, pm_RoutingKey = ev_Type ev, pm_Message = msg\<rparr> # ms,
                r2, w2)))"

fun collect_results :: "bool \<Rightarrow> event list \<Rightarrow> nat \<Rightarrow> goerror option list \<Rightarrow> BatchResult \<Rightarrow>
    goerror option \<times> BatchResult" where
  "collect_results failFast evs i [] r = (None, r)"
| "collect_results failFast evs i (x # xs) r =
     (case x of
        Some err \<Rightarrow>
          (let r1 = add_failure (int i) (evs ! i) err r
           in if failFast then (Some err, r1) else collect_results failFast evs (Suc i) xs r1)
      | None \<Rightarrow> collect_results failFast evs (Suc i) xs (add_success r))"

definition publishBatchPipeline :: "env \<Rightarrow> batch_script \<Rightarrow> event list \<Rightarrow> BatchConfig \<Rightarrow> BatchResult \<Rightarrow>
    EventBus \<Rightarrow> world \<Rightarrow> ((BatchResult \<times> goerror option) \<times> EventBus \<times> world) exec" where
  "publishBatchPipeline e sc events cfg result b w =
     (case marshal_events e (FailFast cfg) 0 events result w of
        (Some err, ms, r1, w1) \<Rightarrow> Returns ((r1, Some err), b, w1)
      | (None, ms, r1, w1) \<Rightarrow>
          exec_bind (PublishBatchPipeline e (eb_client b) sc ms (eb_pub b) w1)
            (\<lambda>((xs, fatal), p, w2).
              let b1 = b\<lparr>eb_pub := p\<rparr>
              in case fatal of
                   Some err \<Rightarrow> Returns ((r1, Some err), b1, w2)
                 | None \<Rightarrow>
                     (case collect_results (FailFast cfg) events 0 xs r1 of
                        (x, r2) \<Rightarrow> Returns ((r2, x), b1, w2))))"

fun publishBatchSequential :: "env \<Rightarrow> (nat \<Rightarrow> publish_script) \<Rightarrow> nat \<Rightarrow> event list \<Rightarrow> BatchConfig \<Rightarrow>
    BatchResult \<Rightarrow> EventBus \<Rightarrow> world \<Rightarrow> ((BatchResult \<times> goerror option) \<times> EventBus \<times> world) exec" where
  "publishBatchSequential e sc i [] cfg r b w = Returns ((r, None), b, w)"
| "publishBatchSequential e sc i (ev # evs) cfg r b w =
     exec_bind (bus_Publish e (sc i) ev b w) (\<lambda>(x, b1, w1).
       case x of
         Some err \<Rightarrow>
           (let r1 = add_failure (int i) ev err r
            in if FailFast cfg then Returns ((r1, Some err), b1, w1)
               else publishBatchSequential e sc (Suc i) evs cfg r1 b1 w1)
       | None \<Rightarrow> publishBatchSequential e sc (Suc i) evs cfg (add_success r) b1 w1)"

definition PublishBatch :: "env \<Rightarrow> batch_script \<Rightarrow> (nat \<Rightarrow> publish_script) \<Rightarrow> event list \<Rightarrow>
    batch_option list \<Rightarrow> EventBus \<Rightarrow> world \<Rightarrow> ((BatchResult \<times> goerror option) \<times> EventBus \<times> world) exec" where
  "PublishBatch e bsc sc events opts b w =
     (let empty = \<lparr>br_Total = 0, br_Success = 0, br_Failed = 0, br_Errors = []\<rparr>
      in if events = [] then Returns ((empty, None), b, w)
         else
           (let cfg = fold (\<lambda>opt. opt) opts DefaultBatchConfig;
                result = empty\<lparr>br_Total := int (length events)\<rparr>
            in if UsePipelining cfg then publishBatchPipeline e bsc events cfg result b w
               else publishBatchSequential e sc 0 events cfg result b w))"

section \<open>Dead-letter queues\<close>

definition RequeueFromDLQ :: "env \<Rightarrow> publish_script \<Rightarrow> DLQMessage \<Rightarrow> bool \<Rightarrow> EventBus \<Rightarrow> world \<Rightarrow>
    (goerror option \<times> EventBus \<times> world) exec" where
  "RequeueFromDLQ e sc m resetRetryCount b w =
     (if OriginalExchange m = [] \<or> OriginalRoutingKey m = []
      then Returns (Some (NewConfigFieldError ''DLQMessage'' ''missing original exchange or routing key''), b, w)
      else
        (let d = mc_Delivery (dm_Context m);
             (a, h1) = make_map (map_get (w_heap w) (d_Headers d)) (w_heap w);
             h2 = (if resetRetryCount then map_put a ''x-retry-count'' (VInt32 0) h1 else h1);
             h3 = h2\<lparr>hp_map := (hp_map h2)(a := (hp_map h2 a)(''x-death'' := None))\<rparr>;
             (now, w1) = time_Now e (w\<lparr>w_heap := h3\<rparr>);
             msg = zero_publishing\<lparr>p_ContentType := d_ContentType d, p_Body := mc_Body (dm_Context m),
                     p_DeliveryMode := d_DeliveryMode d, p_Priority := d_Priority d, p_Timestamp := now,
                     p_Headers := Some a\<rparr>
         in exec_bind (Publish e (eb_client b) sc (OriginalExchange m) (OriginalRoutingKey m) msg (eb_pub b) w1)
              (\<lambda>(r, p, w2). Returns (r, b\<lparr>eb_pub := p\<rparr>, w2))))"

text \<open>
  The loop of \<open>RequeueAllFromDLQ\<close>. The channel of deliveries yields the list and then is closed
  or stays open with nothing to receive; \<open>ctx i\<close> is what \<open>ctx.Err()\<close> says at delivery \<open>i\<close>.
\<close>

record requeue_script =
  rq_ctx :: "nat \<Rightarrow> goerror option"
  rq_publish :: "nat \<Rightarrow> publish_script"
  rq_closed :: bool

fun requeue_loop :: "env \<Rightarrow> requeue_script \<Rightarrow> bool \<Rightarrow> int \<Rightarrow> nat \<Rightarrow> delivery list \<Rightarrow> int \<Rightarrow> EventBus \<Rightarrow> world \<Rightarrow>
    ((int \<times> goerror option) \<times> EventBus \<times> world) exec" where
  "requeue_loop e sc reset maxMessages i [] n b w =
     (if rq_closed sc then Returns ((n, None), b, w) else Blocks)"
| "requeue_loop e sc reset maxMessages i (d # ds) n b w =
     (if maxMessages > 0 \<and> n \<ge> maxMessages
      then Returns ((n, None), b, snd (call_err e (NackCall (d_DeliveryTag d) False True) w))
      else case rq_ctx sc i of
             Some x \<Rightarrow> Returns ((n, Some x), b, snd (call_err e (NackCall (d_DeliveryTag d) False True) w))
           | None \<Rightarrow>
               exec_bind (RequeueFromDLQ e (rq_publish sc i) (NewDLQMessage (w_heap w) \<lparr>mc_Delivery = d\<rparr>) reset b w)
                 (\<lambda>(r, b1, w1).
                   case r of
                     Some err \<Rightarrow>
                       requeue_loop e sc reset maxMessages (Suc i) ds n b1
                         (snd (call_err e (NackCall (d_DeliveryTag d) False True) w1))
                   | None \<Rightarrow>
                       requeue_loop e sc reset maxMessages (Suc i) ds (inc64 n) b1
                         (snd (call_err e (AckCall (d_DeliveryTag d) False) w1))))"

definition RequeueAllFromDLQ :: "env \<Rightarrow> requeue_script \<Rightarrow> delivery list \<Rightarrow> string \<Rightarrow> bool \<Rightarrow> int \<Rightarrow> EventBus \<Rightarrow>
    world \<Rightarrow> ((int \<times> goerror option) \<times> EventBus \<times> world) exec" where
  "RequeueAllFromDLQ e sc ds dlqName reset maxMessages b w =
     (case GetChannel (eb_client b) of
        Inl err \<Rightarrow> Returns ((0, Some err), b, w)
      | Inr ch \<Rightarrow>
          (case call_err e (Amqp.Consume ch dlqName [] False False False False None) w of
             (Some err, w1) \<Rightarrow> Returns ((0, Some (NewConsumeError dlqName (Some err))), b, w1)
           | (None, w1) \<Rightarrow> requeue_loop e sc reset maxMessages 0 ds 0 b w1))"

section \<open>Batch reports\<close>

text \<open>
  What a report over a batch should say of the outcomes of its events, in the order of the
  batch: the nil outcomes are the successes, and every other one is listed under its own index
  with its own event and error. A batch that stops at its first failure has fewer outcomes than
  events.
\<close>

definition report :: "event list \<Rightarrow> goerror option list \<Rightarrow> BatchResult" where
  "report evs outs =
     \<lparr>br_Total = int (length evs), br_Success = int (length (filter (\<lambda>x. x = None) outs)),
      br_Failed = int (length (filter (\<lambda>x. x \<noteq> None) outs)),
      br_Errors = [\<lparr>be_Index = int i, be_Event = evs ! i, be_Error = err\<rparr>. (i, Some err) \<leftarrow> enumerate 0 outs]\<rparr>"

text \<open>
  The report and the error a batch call returns for its outcomes: without an error every event
  has an outcome, and with fail-fast none failed; an error is the one failure of a fail-fast
  batch, and the last outcome.
\<close>

definition reported :: "bool \<Rightarrow> event list \<Rightarrow> goerror option list \<Rightarrow> BatchResult \<Rightarrow> goerror option \<Rightarrow> bool" where
  "reported ff evs outs r x \<longleftrightarrow> r = report evs outs \<and>
     (case x of
        None \<Rightarrow> length outs = length evs \<and> (ff \<longrightarrow> outs = replicate (length evs) None)
      | Some err \<Rightarrow> ff \<and> (\<exists>n. outs = replicate n None @ [Some err]))"

text \<open>The outcomes of publishing events one after the other, with nothing in between.\<close>

fun publish_in_turn :: "env \<Rightarrow> (nat \<Rightarrow> publish_script) \<Rightarrow> nat \<Rightarrow> event list \<Rightarrow> EventBus \<Rightarrow> world \<Rightarrow>
    (goerror option list \<times> EventBus \<times> world) exec" where
  "publish_in_turn e sc i [] b w = Returns ([], b, w)"
| "publish_in_turn e sc i (ev # evs) b w =
     exec_bind (bus_Publish e (sc i) ev b w) (\<lambda>(x, b1, w1).
       exec_bind (publish_in_turn e sc (Suc i) evs b1 w1) (\<lambda>(xs, b2, w2). Returns (x # xs, b2, w2)))"

text \<open>Adding outcomes to a report, from event \<open>i\<close> on.\<close>

fun count_outcomes :: "event list \<Rightarrow> nat \<Rightarrow> goerror option list \<Rightarrow> BatchResult \<Rightarrow> BatchResult" where
  "count_outcomes evs i [] r = r"
| "count_outcomes evs i (None # xs) r = count_outcomes evs (Suc i) xs (add_success r)"
| "count_outcomes evs i (Some err # xs) r =
     count_outcomes evs (Suc i) xs (add_failure (int i) (evs ! i) err r)"

lemma count_outcomes_eq:
  "count_outcomes evs i outs r =
     r\<lparr>br_Success := br_Success r + int (length (filter (\<lambda>x. x = None) outs)),
       br_Failed := br_Failed r + int (length (filter (\<lambda>x. x \<noteq> None) outs)),
       br_Errors := br_Errors r @
         [\<lparr>be_Index = int i, be_Event = evs ! i, be_Error = err\<rparr>. (i, Some err) \<leftarrow> enumerate i outs]\<rparr>"
  by (induction evs i outs r rule: count_outcomes.induct) (simp_all add: add_success_def add_failure_def)

lemma count_outcomes_report:
  "count_outcomes evs 0 outs \<lparr>br_Total = int (length evs), br_Success = 0, br_Failed = 0, br_Errors = []\<rparr> =
     report evs outs"
  by (simp add: count_outcomes_eq report_def)

lemma publishBatchSequential_outcomes:
  assumes "publishBatchSequential e sc i evs' cfg r b w = Returns ((r', x), b', w')" "evs' = drop i evs"
  shows "\<exists>outs. publish_in_turn e sc i (take (length outs) evs') b w = Returns (outs, b', w') \<and>
    r' = count_outcomes evs i outs r \<and>
    (case x of
       None \<Rightarrow> length outs = length evs' \<and> (FailFast cfg \<longrightarrow> outs = replicate (length evs') None)
     | Some err \<Rightarrow> FailFast cfg \<and> (\<exists>n. outs = replicate n None @ [Some err]))"
  using assms
proof (induction evs' arbitrary: i r b w)
  case Nil
  then show ?case by (intro exI [of _ "[]"]) auto
next
  case (Cons ev evs1)
  from Cons.prems(1) obtain y b1 w1 where y: "bus_Publish e (sc i) ev b w = Returns (y, b1, w1)"
    by (cases "bus_Publish e (sc i) ev b w") auto
  have ev: "ev = evs ! i" and evs1: "evs1 = drop (Suc i) evs"
    using Cons.prems(2) by (metis nth_via_drop, metis drop_Suc list.sel(3) tl_drop)
  show ?case
  proof (cases "\<exists>err. y = Some err \<and> FailFast cfg")
    case True
    then obtain err where "y = Some err" "FailFast cfg" by blast
    with Cons.prems(1) y ev show ?thesis
      by (intro exI [of _ "[Some err]"]) (auto intro: exI [of _ 0])
  next
    case False
    define r1 where "r1 = (case y of None \<Rightarrow> add_success r | Some err \<Rightarrow> add_failure (int i) ev err r)"
    have rest: "publishBatchSequential e sc (Suc i) evs1 cfg r1 b1 w1 = Returns ((r', x), b', w')"
      using Cons.prems(1) y False by (cases y) (auto simp: r1_def Let_def)
    from Cons.IH [OF rest evs1] obtain outs where o: "publish_in_turn e sc (Suc i) (take (length outs) evs1) b1 w1 = Returns (outs, b', w')"
      "r' = count_outcomes evs (Suc i) outs r1"
      "case x of None \<Rightarrow> length outs = length evs1 \<and> (FailFast cfg \<longrightarrow> outs = replicate (length evs1) None)
       | Some err \<Rightarrow> FailFast cfg \<and> (\<exists>n. outs = replicate n None @ [Some err])" by blast
    have "r' = count_outcomes evs i (y # outs) r" using o(2) ev by (cases y) (simp_all add: r1_def)
    moreover have "case x of None \<Rightarrow> length (y # outs) = length (ev # evs1) \<and>
        (FailFast cfg \<longrightarrow> y # outs = replicate (length (ev # evs1)) None)
      | Some err \<Rightarrow> FailFast cfg \<and> (\<exists>n. y # outs = replicate n None @ [Some err])"
      using o(3) False by (cases x; cases y) (auto intro: exI [of _ "Suc _"])
    ultimately show ?thesis using y o(1) by (intro exI [of _ "y # outs"]) auto
  qed
qed

lemma collect_results_outcomes:
  assumes "collect_results ff evs i xs r = (x, r')"
  shows "\<exists>k. r' = count_outcomes evs i (take k xs) r \<and>
    (case x of
       None \<Rightarrow> k = length xs \<and> (ff \<longrightarrow> xs = replicate (length xs) None)
     | Some err \<Rightarrow> ff \<and> (\<exists>n. take k xs = replicate n None @ [Some err]))"
  using assms
proof (induction xs arbitrary: i r)
  case Nil
  then show ?case by auto
next
  case (Cons y xs)
  show ?case
  proof (cases "\<exists>err. y = Some err \<and> ff")
    case True
    with Cons.prems show ?thesis by (intro exI [of _ 1]) (auto intro: exI [of _ 0])
  next
    case False
    define r1 where "r1 = (case y of None \<Rightarrow> add_success r | Some err \<Rightarrow> add_failure (int i) (evs ! i) err r)"
    have "collect_results ff evs (Suc i) xs r1 = (x, r')"
      using Cons.prems False by (cases y) (auto simp: r1_def Let_def)
    from Cons.IH [OF this] obtain k where k: "r' = count_outcomes evs (Suc i) (take k xs) r1"
      "case x of None \<Rightarrow> k = length xs \<and> (ff \<longrightarrow> xs = replicate (length xs) None)
       | Some err \<Rightarrow> ff \<and> (\<exists>n. take k xs = replicate n None @ [Some err])" by blast
    have "r' = count_outcomes evs i (take (Suc k) (y # xs)) r" using k(1) by (cases y) (simp_all add: r1_def)
    moreover have "case x of None \<Rightarrow> Suc k = length (y # xs) \<and> (ff \<longrightarrow> y # xs = replicate (length (y # xs)) None)
       | Some err \<Rightarrow> ff \<and> (\<exists>n. take (Suc k) (y # xs) = replicate n None @ [Some err])"
      using k(2) False by (cases x; cases y) (auto intro: exI [of _ "Suc _"])
    ultimately show ?thesis by blast
  qed
qed

section \<open>Lengths\<close>

lemma batch_plain_length: "batch_plain e sc i ms w = Returns (xs, w') \<Longrightarrow> length xs = length ms"
proof (induction ms arbitrary: i w xs w')
  case (Cons m ms)
  then show ?case by fastforce
qed simp

lemma batch_send_length: "batch_send e sc i ms p w = Returns (rs, p', w') \<Longrightarrow> length rs = length ms"
proof (induction ms arbitrary: i p w rs)
  case (Cons m ms)
  from Cons.prems obtain p0 where p0: "bg_run (bs_gap sc i) p = Returns p0" by auto
  obtain t pt where t: "nextTag p0 = (t, pt)" by fastforce
  from Cons.prems p0 t obtain pr where pr: "bg_run (bs_pre sc i) pt = Returns pr" by auto
  obtain c p1 where c: "registerPending t pr = (c, p1)" by fastforce
  from Cons.prems p0 t pr c obtain p2 r w1 where p2: "bg_run (bs_mid sc i) p1 = Returns p2"
    "channel_publish e (bs_client sc i) (pm_Exchange m) (pm_RoutingKey m) (pm_Message m) w = Returns (r, w1)"
    by auto
  show ?case using Cons p0 t pr c p2 by (cases r) auto
qed simp

lemma batch_wait_length: "batch_wait sc i rs p = Returns (xs, f, p') \<Longrightarrow> length xs = length rs"
proof (induction rs arbitrary: i p xs)
  case (Cons r rs)
  obtain x t c where r: "r = (x, t, c)" by (cases r)
  show ?case
  proof (cases x)
    case None
    then show ?thesis using Cons by (cases "bs_wake sc i") (fastforce simp: r)+
  next
    case (Some err)
    then show ?thesis using Cons by (fastforce simp: r)
  qed
qed simp

lemma PublishBatchPipeline_length:
  assumes "PublishBatchPipeline e cl sc ms p w = Returns ((xs, None), p', w')"
  shows "length xs = length ms"
  using assms
  by (auto simp: PublishBatchPipeline_def dest!: batch_plain_length batch_send_length batch_wait_length
      split: if_splits)

lemma createDefaultPublishing_json: "isl (fst (createDefaultPublishing e ev w)) = isl (ev_json e ev)"
  by (cases "ev_json e ev") (auto simp: createDefaultPublishing_def Let_def split: prod.splits)

lemma createDefaultPublishing_calls: "w_calls (snd (createDefaultPublishing e ev w)) = w_calls w"
  by (simp add: createDefaultPublishing_def make_map_def uuid_New_def time_Now_def Let_def
      split: prod.split option.split sum.split)

lemma createDefaultPublishing_body: "createDefaultPublishing e ev w = (Inr msg, w1) \<Longrightarrow> ev_json e ev = Inr (p_Body msg)"
  by (cases "ev_json e ev") (auto simp: createDefaultPublishing_def Let_def split: prod.splits)

text \<open>A batch message carries an event: its exchange, its type as the routing key, its serialised map.\<close>

definition carries :: "env \<Rightarrow> event \<Rightarrow> PublishMessage \<Rightarrow> bool" where
  "carries e ev m \<longleftrightarrow> pm_Exchange m = ev_Exchange ev \<and> pm_RoutingKey m = ev_Type ev \<and>
     ev_json e ev = Inr (p_Body (pm_Message m))"

lemma marshal_events_serialised:
  assumes "marshal_events e ff i evs r w = (x, ms, r', w')" "\<forall>ev \<in> set evs. \<not> isl (ev_json e ev)"
  shows "x = None \<and> r' = r \<and> list_all2 (carries e) evs ms \<and> w_calls w' = w_calls w"
  using assms
proof (induction evs arbitrary: i r w x ms r' w')
  case (Cons ev evs)
  then obtain msg w1 where 1: "createDefaultPublishing e ev w = (Inr msg, w1)"
    using createDefaultPublishing_json [of e ev w]
    by (cases "createDefaultPublishing e ev w") (auto simp: isl_def split: sum.splits)
  obtain x1 ms1 r1 w2 where 2: "marshal_events e ff (i + 1) evs r w1 = (x1, ms1, r1, w2)" by (metis surj_pair)
  have "x1 = None \<and> r1 = r \<and> list_all2 (carries e) evs ms1 \<and> w_calls w2 = w_calls w1"
    using 1 2 Cons.prems by (intro Cons.IH [of "i + 1" r w1]) auto
  moreover have "carries e ev \<lparr>pm_Exchange = ev_Exchange ev, pm_RoutingKey = ev_Type ev, pm_Message = msg\<rparr>"
    using createDefaultPublishing_body [OF 1] by (simp add: carries_def)
  moreover have "w_calls w1 = w_calls w" using createDefaultPublishing_calls [of e ev w] 1 by simp
  ultimately show ?case using Cons.prems(1) 1 2 by auto
qed simp

lemma marshal_events_counts:
  assumes "marshal_events e ff i evs r w = (None, ms, r', w')"
  shows "br_Success r' = br_Success r \<and>
    br_Failed r' = br_Failed r + int (length (filter (\<lambda>ev. isl (ev_json e ev)) evs)) \<and> length ms = length evs \<and>
    (\<forall>k < length evs. isl (ev_json e (evs ! k)) \<longrightarrow> ms ! k = zero_PublishMessage)"
  using assms
proof (induction evs arbitrary: i r w ms r' w')
  case (Cons ev evs)
  obtain m w1 where m: "createDefaultPublishing e ev w = (m, w1)" by fastforce
  have l: "isl m = isl (ev_json e ev)" using createDefaultPublishing_json [of e ev w] m by simp
  show ?case
  proof (cases m)
    case (Inl err)
    with Cons.prems m obtain ms1 where "ms = zero_PublishMessage # ms1"
      "marshal_events e ff (i + 1) evs (add_failure i ev err r) w1 = (None, ms1, r', w')"
      by (auto simp: Let_def split: if_splits prod.splits)
    with Cons.IH [OF this(2)] l Inl show ?thesis
      by (auto simp: add_failure_def nth_Cons split: nat.splits)
  next
    case (Inr msg)
    with Cons.prems m obtain m1 ms1 where "ms = m1 # ms1"
      "marshal_events e ff (i + 1) evs r w1 = (None, ms1, r', w')"
      by (auto split: prod.splits)
    with Cons.IH [OF this(2)] l Inr show ?thesis by (auto simp: nth_Cons split: nat.splits)
  qed
qed simp

lemma collect_results_counts:
  "collect_results ff evs i xs r = (None, r') \<Longrightarrow>
   br_Success r' + br_Failed r' = br_Success r + br_Failed r + int (length xs)"
proof (induction xs arbitrary: i r)
  case (Cons x xs)
  show ?case
  proof (cases x)
    case None
    then show ?thesis using Cons.IH [of "Suc i" "add_success r"] Cons.prems by (simp add: add_success_def)
  next
    case (Some err)
    then show ?thesis
      using Cons.IH [of "Suc i" "add_failure (int i) (evs ! i) err r"] Cons.prems
      by (auto simp: Let_def add_failure_def split: if_splits)
  qed
qed simp

lemma createDefaultPublishing_shape:
  assumes "createDefaultPublishing e ev w = (r, w')"
  obtains t and w2 :: world where "hp_map (w_heap w2) = (hp_map (w_heap w))(hp_next (w_heap w) :=
      (if map_get (w_heap w) (ev_Headers ev) ''trace_id'' = None \<or>
          map_get (w_heap w) (ev_Headers ev) ''trace_id'' = Some VNil
       then (map_get (w_heap w) (ev_Headers ev))(''trace_id'' \<mapsto> VString t)
       else map_get (w_heap w) (ev_Headers ev)))"
    "w_heap w' = w_heap w2" "case ev_json e ev of Inl err \<Rightarrow> r = Inl err
     | Inr body \<Rightarrow> (\<exists>msg. r = Inr msg \<and> p_Headers msg = Some (hp_next (w_heap w)) \<and> p_Body msg = body \<and>
         p_Type msg = ev_Type ev \<and> p_ContentType msg = ''application/json'' \<and> p_DeliveryMode msg = Persistent)"
proof -
  define w1 where "w1 = w\<lparr>w_heap := snd (make_map (map_get (w_heap w) (ev_Headers ev)) (w_heap w))\<rparr>"
  define w2 where "w2 = (if map_get (w_heap w) (ev_Headers ev) ''trace_id'' = None \<or>
      map_get (w_heap w) (ev_Headers ev) ''trace_id'' = Some VNil
    then (snd (uuid_New e w1))\<lparr>w_heap := map_put (hp_next (w_heap w)) ''trace_id'' (VString (fst (uuid_New e w1)))
      (w_heap w1)\<rparr> else w1)"
  have "createDefaultPublishing e ev w =
     (case ev_json e ev of
        Inl err \<Rightarrow> (Inl err, w2)
      | Inr body \<Rightarrow>
          (Inr (zero_publishing\<lparr>p_Headers := Some (hp_next (w_heap w)), p_ContentType := ''application/json'',
             p_DeliveryMode := Persistent, p_CorrelationId := fst (uuid_New e w2),
             p_MessageId := fst (uuid_New e (snd (uuid_New e w2))),
             p_Timestamp := fst (time_Now e (snd (uuid_New e (snd (uuid_New e w2))))), p_Type := ev_Type ev,
             p_Body := body\<rparr>),
           snd (time_Now e (snd (uuid_New e (snd (uuid_New e w2)))))))"
    unfolding createDefaultPublishing_def w2_def w1_def
    by (auto simp: make_map_def uuid_New_def time_Now_def Let_def split: option.splits sum.splits)
  with assms show ?thesis
    by (intro that [of w2 "fst (uuid_New e w1)"])
      (auto simp: w2_def w1_def make_map_def split: sum.splits)
qed

section \<open>Properties\<close>

text \<open>
  C20. The report of a non-empty batch says what happened to each event. In sequential mode the outcomes are those
  of publishing the events one after the other; in pipelined mode, for events that can all be
  serialised, they are the slots \<open>PublishBatchPipeline\<close> returned for messages that carry the
  events in order. Successes are exactly the nil outcomes, failures exactly the others, and each
  failure is listed once, in order, with its own index, event and error. Without fail-fast every
  event has an outcome and no error is returned; with it, the outcomes end with the first
  failure, which is the error returned. If the pipelined call itself failed, nothing is counted
  and its error is returned. (Pipelined events that cannot be serialised are counted twice.)
\<close>

theorem batch_report_matches_outcomes:
  fixes opts :: "batch_option list"
  defines "cfg \<equiv> fold (\<lambda>opt. opt) opts DefaultBatchConfig"
  assumes "PublishBatch e bsc sc events opts b w = Returns ((r, x), b', w')" "events \<noteq> []"
  shows "(\<not> UsePipelining cfg \<longrightarrow>
      (\<exists>outs. publish_in_turn e sc 0 (take (length outs) events) b w = Returns (outs, b', w') \<and>
         reported (FailFast cfg) events outs r x)) \<and>
    (UsePipelining cfg \<and> (\<forall>ev \<in> set events. \<not> isl (ev_json e ev)) \<longrightarrow>
      (\<exists>ms w1 xs fatal p'. PublishBatchPipeline e (eb_client b) bsc ms (eb_pub b) w1 = Returns ((xs, fatal), p', w') \<and>
         b' = b\<lparr>eb_pub := p'\<rparr> \<and> list_all2 (carries e) events ms \<and> w_calls w1 = w_calls w \<and>
         (case fatal of
            Some err \<Rightarrow> r = report events [] \<and> x = Some err
          | None \<Rightarrow> length xs = length events \<and> (\<exists>k. reported (FailFast cfg) events (take k xs) r x))))"
proof (intro conjI impI)
  let ?r0 = "\<lparr>br_Total = int (length events), br_Success = 0, br_Failed = 0, br_Errors = []\<rparr>"
  assume "\<not> UsePipelining cfg"
  then have "publishBatchSequential e sc 0 events cfg ?r0 b w = Returns ((r, x), b', w')"
    using assms(2,3) by (simp add: PublishBatch_def cfg_def Let_def)
  from publishBatchSequential_outcomes [OF this, of events]
  show "\<exists>outs. publish_in_turn e sc 0 (take (length outs) events) b w = Returns (outs, b', w') \<and>
      reported (FailFast cfg) events outs r x"
    by (simp add: reported_def count_outcomes_report)
next
  let ?r0 = "\<lparr>br_Total = int (length events), br_Success = 0, br_Failed = 0, br_Errors = []\<rparr>"
  assume pipe: "UsePipelining cfg \<and> (\<forall>ev \<in> set events. \<not> isl (ev_json e ev))"
  obtain y ms r1 w1 where m: "marshal_events e (FailFast cfg) 0 events ?r0 w = (y, ms, r1, w1)" by (metis surj_pair)
  from marshal_events_serialised [OF m] pipe
  have ms: "y = None" "r1 = ?r0" "list_all2 (carries e) events ms" "w_calls w1 = w_calls w" by auto
  from assms(2,3) pipe m ms(1,2) obtain xs fatal p' where
    p: "PublishBatchPipeline e (eb_client b) bsc ms (eb_pub b) w1 = Returns ((xs, fatal), p', w')" "b' = b\<lparr>eb_pub := p'\<rparr>"
    "(r, x) = (case fatal of Some err \<Rightarrow> (?r0, Some err)
       | None \<Rightarrow> (case collect_results (FailFast cfg) events 0 xs ?r0 of (x, r2) \<Rightarrow> (r2, x)))"
    by (auto simp: PublishBatch_def publishBatchPipeline_def cfg_def Let_def split: option.splits prod.splits)
  have "case fatal of Some err \<Rightarrow> r = report events [] \<and> x = Some err
    | None \<Rightarrow> length xs = length events \<and> (\<exists>k. reported (FailFast cfg) events (take k xs) r x)"
  proof (cases fatal)
    case None
    then have len: "length xs = length events"
      using PublishBatchPipeline_length p(1) ms(3) by (auto dest: list_all2_lengthD)
    from p(3) None have "collect_results (FailFast cfg) events 0 xs ?r0 = (x, r)" by (simp split: prod.splits)
    from collect_results_outcomes [OF this] len have "\<exists>k. reported (FailFast cfg) events (take k xs) r x"
      by (cases x) (auto simp: reported_def count_outcomes_report intro: exI [of _ "length xs"])
    with len None show ?thesis by simp
  next
    case (Some err)
    with p(3) show ?thesis by (simp add: report_def)
  qed
  with p(1,2) ms(3,4) show "\<exists>ms w1 xs fatal p'. PublishBatchPipeline e (eb_client b) bsc ms (eb_pub b) w1 =
        Returns ((xs, fatal), p', w') \<and> b' = b\<lparr>eb_pub := p'\<rparr> \<and> list_all2 (carries e) events ms \<and> w_calls w1 = w_calls w \<and>
      (case fatal of Some err \<Rightarrow> r = report events [] \<and> x = Some err
       | None \<Rightarrow> length xs = length events \<and> (\<exists>k. reported (FailFast cfg) events (take k xs) r x))"
    by blast
qed

definition order_event :: "gvalue \<Rightarrow> event" where
  "order_event v = \<lparr>ev_Type = ''order.created'', ev_Exchange = ''orders'', ev_Headers = None,
     ev_ToMap = Some [(''type'', VString ''order.created''), (''item'', v)]\<rparr>"

lemma order_event_simps [simp]:
  "ev_Headers (order_event v) = None" "ev_Type (order_event v) = ''order.created''" "ev_Exchange (order_event v) = ''orders''"
  by (simp_all add: order_event_def)

lemma order_event_json: "isl (ev_json plain_env (order_event v)) \<longleftrightarrow> isl (to_json plain_leaf v)"
  by (cases "to_json plain_leaf v") (simp_all add: ev_json_def order_event_def marshal_map_def plain_env_def)

definition plain_bus :: EventBus where
  "plain_bus = \<lparr>eb_client = plain_client, eb_pub = idle_pub, eb_consumer = None, eb_router = None, eb_dlqRouter = None\<rparr>"

definition plain_batch :: batch_script where
  "plain_batch = \<lparr>bs_gap = (\<lambda>_. []), bs_pre = (\<lambda>_. []), bs_mid = (\<lambda>_. []), bs_client = (\<lambda>_. plain_client),
     bs_wait = (\<lambda>_. []), bs_wake = (\<lambda>_. WResult)\<rparr>"

lemma plain_batch_runs:
  "\<exists>r b' w'. PublishBatch plain_env plain_batch (\<lambda>_. plain_script) [order_event (VInt 1), order_event v] []
     plain_bus empty_world = Returns ((r, None), b', w')"
  by (cases "ev_json plain_env (order_event v)"; cases "ev_json plain_env (order_event (VInt 1))")
    (simp_all add: PublishBatch_def publishBatchPipeline_def DefaultBatchConfig_def createDefaultPublishing_def
      order_event_def make_map_def uuid_New_def time_Now_def plain_bus_def PublishBatchPipeline_def
      ensureConfirmsSetup_def plain_client_def DefaultConfig_def plain_batch_def channel_publish_def call_err_eq
      plain_env_def empty_world_def empty_heap_def Let_def split: prod.splits)

lemma plain_batch_in_turn:
  "\<exists>r b' w'. PublishBatch plain_env plain_batch (\<lambda>_. plain_script) [order_event (VInt 1), order_event v] [WithPipelining False]
     plain_bus empty_world = Returns ((r, None), b', w')"
proof -
  have pub: "\<exists>x w'. bus_Publish plain_env plain_script ev plain_bus w = Returns (x, plain_bus, w')" for ev w
    by (cases "createDefaultPublishing plain_env ev w" rule: prod.exhaust, rename_tac m w1, case_tac m)
      (simp_all add: bus_Publish_def plain_bus_def plain_Publish)
  have "\<exists>r b' w'. publishBatchSequential plain_env (\<lambda>_. plain_script) i evs cfg r0 plain_bus w = Returns ((r, None), b', w')"
    if "\<not> FailFast cfg" for i evs cfg r0 w
  proof (induction evs arbitrary: i r0 w)
    case (Cons ev evs)
    obtain x w1 where "bus_Publish plain_env plain_script ev plain_bus w = Returns (x, plain_bus, w1)" using pub by blast
    with Cons.IH that show ?case by (cases x) simp_all
  qed simp
  then show ?thesis
    by (simp add: PublishBatch_def WithPipelining_def DefaultBatchConfig_def Let_def del: publishBatchSequential.simps)
qed

theorem batch_report_matches_outcomes_witness:
  "\<exists>outs r b' w'. PublishBatch plain_env plain_batch (\<lambda>_. plain_script) [order_event (VInt 1), order_event (VOther ''chan'')]
     [WithPipelining False] plain_bus empty_world = Returns ((r, None), b', w') \<and>
   publish_in_turn plain_env (\<lambda>_. plain_script) 0 [order_event (VInt 1), order_event (VOther ''chan'')] plain_bus empty_world
     = Returns (outs, b', w') \<and> length outs = 2 \<and> r = report [order_event (VInt 1), order_event (VOther ''chan'')] outs"
proof -
  let ?evs = "[order_event (VInt 1), order_event (VOther ''chan'')]"
  obtain r b' w' where r: "PublishBatch plain_env plain_batch (\<lambda>_. plain_script) ?evs [WithPipelining False] plain_bus empty_world
      = Returns ((r, None), b', w')"
    using plain_batch_in_turn [of "VOther ''chan''"] by blast
  from batch_report_matches_outcomes [OF r] obtain outs where
    "publish_in_turn plain_env (\<lambda>_. plain_script) 0 (take (length outs) ?evs) plain_bus empty_world = Returns (outs, b', w')"
    "reported False ?evs outs r None"
    by (auto simp: WithPipelining_def DefaultBatchConfig_def)
  moreover from this(2) have "length outs = 2" "r = report ?evs outs" by (simp_all add: reported_def)
  ultimately show ?thesis using r by auto
qed

text \<open>
  C32. Pipelined batches count an unserialisable event twice. Such an event is reported as failed,
  but the zero message stays in its place and is published to the empty exchange and counted
  again: the report's successes and failures exceed the total by the number of such events.
\<close>

theorem unserialisable_counted_twice:
  assumes "PublishBatch e bsc sc events opts b w = Returns ((r, None), b', w')" "events \<noteq> []"
    "UsePipelining (fold (\<lambda>opt. opt) opts DefaultBatchConfig)"
  shows "br_Success r + br_Failed r =
      int (length events) + int (length (filter (\<lambda>ev. isl (ev_json e ev)) events)) \<and>
    (\<exists>ms w1 xs p2 w2. PublishBatchPipeline e (eb_client b) bsc ms (eb_pub b) w1 = Returns ((xs, None), p2, w2) \<and>
      length ms = length events \<and>
      (\<forall>k < length events. isl (ev_json e (events ! k)) \<longrightarrow> ms ! k = zero_PublishMessage))"
proof -
  let ?cfg = "fold (\<lambda>opt. opt) opts DefaultBatchConfig"
  let ?r0 = "\<lparr>br_Total = int (length events), br_Success = 0, br_Failed = 0, br_Errors = []\<rparr>"
  obtain x ms r1 w1 where m: "marshal_events e (FailFast ?cfg) 0 events ?r0 w = (x, ms, r1, w1)" by (metis surj_pair)
  with assms obtain xs p2 w2 where p: "x = None"
    "PublishBatchPipeline e (eb_client b) bsc ms (eb_pub b) w1 = Returns ((xs, None), p2, w2)"
    "collect_results (FailFast ?cfg) events 0 xs r1 = (None, r)"
    by (cases x) (auto simp: PublishBatch_def publishBatchPipeline_def Let_def split: option.splits prod.splits)
  note ms = marshal_events_counts [OF m [unfolded p(1)]]
  have "br_Success r + br_Failed r =
      int (length events) + int (length (filter (\<lambda>ev. isl (ev_json e ev)) events))"
    using ms collect_results_counts [OF p(3)] PublishBatchPipeline_length [OF p(2)] by simp
  then show ?thesis using p(2) ms by blast
qed

theorem unserialisable_counted_twice_witness:
  "\<exists>r b' w'. PublishBatch plain_env plain_batch (\<lambda>_. plain_script)
     [order_event (VInt 1), order_event (VOther ''chan'')] [] plain_bus empty_world =
       Returns ((r, None), b', w') \<and> br_Success r + br_Failed r = 3"
proof -
  obtain r b' w' where r: "PublishBatch plain_env plain_batch (\<lambda>_. plain_script)
      [order_event (VInt 1), order_event (VOther ''chan'')] [] plain_bus empty_world = Returns ((r, None), b', w')"
    using plain_batch_runs by blast
  from unserialisable_counted_twice [OF r] have "br_Success r + br_Failed r = 3"
    by (simp add: order_event_json plain_leaf_def DefaultBatchConfig_def)
  with r show ?thesis by blast
qed

text \<open>The properties a message has when none but content type, delivery mode and priority are set.\<close>

definition other_properties_unset :: "publishing \<Rightarrow> bool" where
  "other_properties_unset m \<longleftrightarrow> p_CorrelationId m = [] \<and> p_MessageId m = [] \<and> p_Type m = [] \<and> p_ReplyTo m = [] \<and>
     p_Expiration m = [] \<and> p_AppId m = [] \<and> p_UserId m = []"

text \<open>
  Requeueing a dead letter restores its message. The copy goes to the exchange and routing key of its
  first death with the same body, content type, delivery mode and priority, and with none of
  the other properties of the dead letter; its headers are the message's, without \<open>x-death\<close>, and with a zero retry count if asked for; the headers of
  the dead letter itself are left as they were. A message whose death record lacks the
  exchange or the key is refused without any library call.
\<close>

theorem requeue_restores_message:
  assumes "RequeueFromDLQ e sc m reset b w = Returns (x, b', w')" "d = mc_Delivery (dm_Context m)"
    "ref_ok (w_heap w) (d_Headers d)"
  shows "map_get (w_heap w') (d_Headers d) = map_get (w_heap w) (d_Headers d) \<and>
    (OriginalExchange m = [] \<or> OriginalRoutingKey m = [] \<longrightarrow> x \<noteq> None \<and> w' = w) \<and>
    (x = None \<longrightarrow> (\<exists>ch msg hdr new. w_calls w' = w_calls w @ new \<and>
      PublishWithContext ch (OriginalExchange m) (OriginalRoutingKey m) False False msg (Some hdr) \<in> set new \<and>
      p_Body msg = d_Body d \<and> p_ContentType msg = d_ContentType d \<and> p_DeliveryMode msg = d_DeliveryMode d \<and>
      p_Priority msg = d_Priority d \<and> other_properties_unset msg \<and>
      hdr = (if reset then (map_get (w_heap w) (d_Headers d))(CountHeader \<mapsto> VInt32 0)
             else map_get (w_heap w) (d_Headers d))(''x-death'' := None)))"
proof (cases "OriginalExchange m = [] \<or> OriginalRoutingKey m = []")
  case True
  then show ?thesis using assms(1) by (auto simp: RequeueFromDLQ_def)
next
  case False
  let ?t = "map_get (w_heap w) (d_Headers d)" and ?a = "hp_next (w_heap w)"
  obtain msg w1 p2 where p: "Publish e (eb_client b) sc (OriginalExchange m) (OriginalRoutingKey m) msg (eb_pub b) w1
      = Returns (x, p2, w')" "w_calls w1 = w_calls w"
    "p_Headers msg = Some ?a" "p_Body msg = d_Body d" "p_ContentType msg = d_ContentType d"
    "p_DeliveryMode msg = d_DeliveryMode d" "p_Priority msg = d_Priority d"
    "hp_map (w_heap w1) ?a = (if reset then ?t(CountHeader \<mapsto> VInt32 0) else ?t)(''x-death'' := None)"
    "\<And>c. c \<noteq> ?a \<Longrightarrow> hp_map (w_heap w1) c = hp_map (w_heap w) c" "other_properties_unset msg"
    using assms(1,2) False
    by (auto simp: other_properties_unset_def zero_publishing_def RequeueFromDLQ_def make_map_def time_Now_def mc_Body_def CountHeader_def Let_def split: if_splits)
  have "map_get (w_heap w1) (d_Headers d) = ?t"
    using assms(3) p(9) by (auto simp: map_get_def ref_ok_def split: option.splits)
  with Publish_world [OF p(1)] have "map_get (w_heap w') (d_Headers d) = ?t" by simp
  moreover obtain new where "no_settle w1 new w'" "x = None \<longrightarrow> (\<exists>ch. PublishWithContext ch (OriginalExchange m)
      (OriginalRoutingKey m) False False msg (map_snapshot (w_heap w1) (p_Headers msg)) \<in> set new)"
    using Publish_world [OF p(1)] by blast
  ultimately show ?thesis using False p by (auto simp: no_settle_def) blast+
qed

definition dead_order :: DLQMessage where
  "dead_order = \<lparr>dm_Context = \<lparr>mc_Delivery = order_delivery (Some 0)\<rparr>, OriginalQueue = ''orders.queue'',
     OriginalExchange = ''orders'', OriginalRoutingKey = ''order.created'', RetryCount = 3, DeathReason = ''rejected'',
     DeathCount = 1, FirstDeathTimestamp = 0\<rparr>"

definition dead_heap :: heap where
  "dead_heap = \<lparr>hp_next = 1, hp_map = (\<lambda>_. [CountHeader \<mapsto> VInt32 3, ''x-death'' \<mapsto> VArray []])\<rparr>"

theorem requeue_restores_message_witness:
  "\<exists>b' w' ch msg hdr. RequeueFromDLQ plain_env plain_script dead_order True plain_bus (empty_world\<lparr>w_heap := dead_heap\<rparr>)
      = Returns (None, b', w') \<and>
    PublishWithContext ch ''orders'' ''order.created'' False False msg (Some hdr) \<in> set (w_calls w') \<and>
    hdr CountHeader = Some (VInt32 0) \<and> hdr ''x-death'' = None \<and>
    hp_map (w_heap w') 0 CountHeader = Some (VInt32 3)"
proof -
  let ?w = "empty_world\<lparr>w_heap := dead_heap\<rparr>"
  obtain b' w' where r: "RequeueFromDLQ plain_env plain_script dead_order True plain_bus ?w = Returns (None, b', w')"
    by (auto simp: RequeueFromDLQ_def dead_order_def plain_bus_def plain_Publish time_Now_def make_map_def Let_def)
  have d: "order_delivery (Some 0) = mc_Delivery (dm_Context dead_order)" "OriginalExchange dead_order = ''orders''"
    "OriginalRoutingKey dead_order = ''order.created''" "d_Headers (order_delivery (Some 0)) = Some 0"
    by (simp_all add: dead_order_def order_delivery_def)
  have h: "ref_ok (w_heap ?w) (d_Headers (order_delivery (Some 0)))" "w_calls ?w = []"
    "map_get (w_heap ?w) (Some 0) = [CountHeader \<mapsto> VInt32 3, ''x-death'' \<mapsto> VArray []]"
    by (simp_all add: d(4) ref_ok_def dead_heap_def empty_world_def)
  have neq: "CountHeader \<noteq> ''x-death''" by (simp add: CountHeader_def)
  note res = requeue_restores_message [OF r d(1) h(1), unfolded h(2,3) d(2-4)]
  obtain ch msg hdr new where c: "w_calls w' = [] @ new"
    "PublishWithContext ch ''orders'' ''order.created'' False False msg (Some hdr) \<in> set new"
    "hdr = (if True then [CountHeader \<mapsto> VInt32 3, ''x-death'' \<mapsto> VArray []](CountHeader \<mapsto> VInt32 0)
       else [CountHeader \<mapsto> VInt32 3, ''x-death'' \<mapsto> VArray []])(''x-death'' := None)"
    using res by blast
  have "map_get (w_heap w') (Some 0) = [CountHeader \<mapsto> VInt32 3, ''x-death'' \<mapsto> VArray []]"
    using res by blast
  then have "hp_map (w_heap w') 0 CountHeader = Some (VInt32 3)" using neq by simp
  moreover have "hdr CountHeader = Some (VInt32 0)" "hdr ''x-death'' = None" using neq by (simp_all add: c(3))
  ultimately show ?thesis using r c(1,2) by auto
qed

text \<open>
  What becomes of dead letters that are requeued one after the other: \<open>RequeueFromDLQ\<close> on each,
  then the settlement its outcome calls for.
\<close>

definition settlement :: "delivery \<Rightarrow> goerror option \<Rightarrow> amqp_call" where
  "settlement d x = (if x = None then AckCall (d_DeliveryTag d) False else NackCall (d_DeliveryTag d) False True)"

fun requeue_each :: "env \<Rightarrow> requeue_script \<Rightarrow> bool \<Rightarrow> nat \<Rightarrow> delivery list \<Rightarrow> EventBus \<Rightarrow> world \<Rightarrow>
    (goerror option list \<times> EventBus \<times> world) exec" where
  "requeue_each e sc reset i [] b w = Returns ([], b, w)"
| "requeue_each e sc reset i (d # ds) b w =
     exec_bind (RequeueFromDLQ e (rq_publish sc i) (NewDLQMessage (w_heap w) \<lparr>mc_Delivery = d\<rparr>) reset b w)
       (\<lambda>(x, b1, w1).
         exec_bind (requeue_each e sc reset (Suc i) ds b1 (snd (call_err e (settlement d x) w1)))
           (\<lambda>(xs, b2, w2). Returns (x # xs, b2, w2)))"

definition requeued :: "goerror option list \<Rightarrow> int" where
  "requeued outs = int (length (filter (\<lambda>x. x = None) outs))"

lemma requeued_simps [simp]:
  "requeued [] = 0" "requeued (x # xs) = (if x = None then 1 + requeued xs else requeued xs)" "0 \<le> requeued xs"
  by (simp_all add: requeued_def)

lemma RequeueFromDLQ_calls:
  assumes "RequeueFromDLQ e sc m reset b w = Returns (x, b', w')"
  shows "\<exists>new. no_settle w new w'"
proof (cases "OriginalExchange m = [] \<or> OriginalRoutingKey m = []")
  case True
  then show ?thesis using assms by (auto simp: RequeueFromDLQ_def intro!: no_settle_refl)
next
  case False
  then obtain msg w1 p2 where p: "Publish e (eb_client b) sc (OriginalExchange m) (OriginalRoutingKey m) msg (eb_pub b) w1
      = Returns (x, p2, w')" "w_calls w1 = w_calls w"
    using assms by (auto simp: RequeueFromDLQ_def make_map_def time_Now_def Let_def)
  then show ?thesis using Publish_world [OF p(1)] by (auto simp: no_settle_def)
qed

lemma requeue_each_settles:
  "requeue_each e sc reset i ds b w = Returns (outs, b', w') \<Longrightarrow>
   length outs = length ds \<and>
   (\<exists>new. w_calls w' = w_calls w @ new \<and> filter is_settle new = map2 settlement ds outs)"
proof (induction ds arbitrary: i b w outs)
  case (Cons d ds)
  then obtain x b1 w1 xs where x: "RequeueFromDLQ e (rq_publish sc i) (NewDLQMessage (w_heap w) \<lparr>mc_Delivery = d\<rparr>) reset b w
      = Returns (x, b1, w1)" "outs = x # xs"
    "requeue_each e sc reset (Suc i) ds b1 (snd (call_err e (settlement d x) w1)) = Returns (xs, b', w')"
    by auto
  obtain pre where pre: "w_calls w1 = w_calls w @ pre" "filter is_settle pre = []"
    using RequeueFromDLQ_calls [OF x(1)] by (auto simp: no_settle_def)
  obtain new where "length xs = length ds" "w_calls w' = w_calls w @ pre @ settlement d x # new"
    "filter is_settle new = map2 settlement ds xs"
    using Cons.IH [OF x(3)] pre(1) by auto
  with pre(2) x(2) show ?case by (auto simp: settlement_def intro!: exI [of _ "pre @ settlement d x # new"])
qed simp

text \<open>How the loop ends: the channel is closed, or the next delivery meets the limit or a cancelled context.\<close>

definition requeue_ends :: "env \<Rightarrow> requeue_script \<Rightarrow> int \<Rightarrow> nat \<Rightarrow> delivery list \<Rightarrow> int \<Rightarrow> goerror option \<Rightarrow>
    world \<Rightarrow> world \<Rightarrow> bool" where
  "requeue_ends e sc maxMessages i rest n x w w' \<longleftrightarrow>
     (case rest of
        [] \<Rightarrow> rq_closed sc \<and> x = None \<and> w' = w
      | d # _ \<Rightarrow> w' = snd (call_err e (NackCall (d_DeliveryTag d) False True) w) \<and>
          (if maxMessages > 0 \<and> n \<ge> maxMessages then x = None else rq_ctx sc i \<noteq> None \<and> x = rq_ctx sc i))"

lemma requeue_loop_outcomes:
  assumes "requeue_loop e sc reset maxMessages i ds n b w = Returns ((n', x), b', w')"
    and "0 \<le> n" "n + int (length ds) < 2 ^ 63"
  shows "\<exists>outs w2. length outs \<le> length ds \<and>
    requeue_each e sc reset i (take (length outs) ds) b w = Returns (outs, b', w2) \<and> n' = n + requeued outs \<and>
    (maxMessages > 0 \<and> n \<le> maxMessages \<longrightarrow> n' \<le> maxMessages) \<and>
    requeue_ends e sc maxMessages (i + length outs) (drop (length outs) ds) n' x w2 w'"
  using assms
proof (induction ds arbitrary: i n b w)
  case Nil
  then show ?case by (auto simp: requeue_ends_def split: if_splits)
next
  case (Cons d ds)
  show ?case
  proof (cases "maxMessages > 0 \<and> n \<ge> maxMessages \<or> rq_ctx sc i \<noteq> None")
    case True
    then show ?thesis
      using Cons.prems(1)
      by (intro exI [of _ "[]"] exI [of _ w]) (auto simp: requeue_ends_def split: if_splits option.splits)
  next
    case False
    then obtain r b1 w1 where r: "RequeueFromDLQ e (rq_publish sc i) (NewDLQMessage (w_heap w) \<lparr>mc_Delivery = d\<rparr>) reset b w
        = Returns (r, b1, w1)"
      using Cons.prems(1) by (auto split: if_splits option.splits)
    have inc: "inc64 n = n + 1" using Cons.prems(2,3) by (simp add: inc64_def wrap64_id is_int64_def)
    let ?n1 = "if r = None then n + 1 else n"
    have loop: "requeue_loop e sc reset maxMessages (Suc i) ds ?n1 b1 (snd (call_err e (settlement d r) w1))
        = Returns ((n', x), b', w')"
      using Cons.prems(1) False r inc by (cases r) (auto simp: settlement_def split: if_splits option.splits)
    have "0 \<le> ?n1" "?n1 + int (length ds) < 2 ^ 63" using Cons.prems(2,3) by auto
    from Cons.IH [OF loop this] obtain outs w2 where o: "length outs \<le> length ds"
      "requeue_each e sc reset (Suc i) (take (length outs) ds) b1 (snd (call_err e (settlement d r) w1)) = Returns (outs, b', w2)"
      "n' = ?n1 + requeued outs" "maxMessages > 0 \<and> ?n1 \<le> maxMessages \<longrightarrow> n' \<le> maxMessages"
      "requeue_ends e sc maxMessages (Suc i + length outs) (drop (length outs) ds) n' x w2 w'" by blast
    have "maxMessages > 0 \<and> n \<le> maxMessages \<longrightarrow> n' \<le> maxMessages" using o(4) False by auto
    with o r show ?thesis by (intro exI [of _ "r # outs"] exI [of _ w2]) auto
  qed
qed

text \<open>
  C36. \<open>RequeueAllFromDLQ\<close> loses no dead letter it has received. Once subscribed, it requeues the
  deliveries one after the other: each is settled exactly once, in order, acknowledged if and
  only if \<open>RequeueFromDLQ\<close> returned nil for it and otherwise rejected alone with requeueing, so that
  it stays queued. The count returned is the number of nil outcomes, never above a positive
  limit. It returns in three ways: all deliveries are done and their channel is closed; the limit
  has been reached and one more delivery came, which is rejected with requeueing; the context was
  cancelled when the next delivery came, which is rejected with requeueing too, and the
  context's error is returned. Without a channel, or when the subscription fails, that error is
  returned and nothing is settled. (It does not cancel its subscription: what the broker sends
  after the last delivery taken stays unsettled.)
\<close>

theorem requeue_all_settles_each:
  fixes ch :: nat and dlqName :: string
  defines "consume \<equiv> Amqp.Consume ch dlqName [] False False False False None"
  assumes "RequeueAllFromDLQ e sc ds dlqName reset maxMessages b w = Returns ((n, x), b', w')"
    and "int (length ds) < 2 ^ 63"
  shows "(\<forall>err. GetChannel (eb_client b) = Inl err \<longrightarrow> n = 0 \<and> x = Some err \<and> w' = w) \<and>
    (\<forall>err. GetChannel (eb_client b) = Inr ch \<and> answer e (w_calls w) consume = RErr err \<longrightarrow>
       n = 0 \<and> x = Some (ConsumeError dlqName (Some err)) \<and> w_calls w' = w_calls w @ [consume]) \<and>
    (GetChannel (eb_client b) = Inr ch \<and> (\<forall>err. answer e (w_calls w) consume \<noteq> RErr err) \<longrightarrow>
      (\<exists>outs w2 new.
        requeue_each e sc reset 0 (take (length outs) ds) b (w\<lparr>w_calls := w_calls w @ [consume]\<rparr>) = Returns (outs, b', w2) \<and>
        w_calls w2 = w_calls w @ consume # new \<and>
        filter is_settle new = map2 settlement (take (length outs) ds) outs \<and>
        n = requeued outs \<and> (maxMessages > 0 \<longrightarrow> n \<le> maxMessages) \<and>
        (length outs = length ds \<and> rq_closed sc \<and> x = None \<and> w' = w2 \<or>
         length outs < length ds \<and>
         w_calls w' = w_calls w2 @ [NackCall (d_DeliveryTag (ds ! length outs)) False True] \<and>
         (maxMessages > 0 \<and> n = maxMessages \<and> x = None \<or> x \<noteq> None \<and> x = rq_ctx sc (length outs)))))"
proof (intro conjI allI impI)
  fix err assume "GetChannel (eb_client b) = Inl err"
  then show "n = 0" "x = Some err" "w' = w" using assms(2) by (auto simp: RequeueAllFromDLQ_def)
next
  fix err assume "GetChannel (eb_client b) = Inr ch \<and> answer e (w_calls w) consume = RErr err"
  then show "n = 0" "x = Some (ConsumeError dlqName (Some err))" "w_calls w' = w_calls w @ [consume]"
    using assms(2) by (auto simp: RequeueAllFromDLQ_def consume_def call_err_eq)
next
  let ?w1 = "w\<lparr>w_calls := w_calls w @ [consume]\<rparr>"
  assume ok: "GetChannel (eb_client b) = Inr ch \<and> (\<forall>err. answer e (w_calls w) consume \<noteq> RErr err)"
  then have "call_err e consume w = (None, ?w1)" by (simp add: call_err_eq split: reply.split)
  then have "requeue_loop e sc reset maxMessages 0 ds 0 b ?w1 = Returns ((n, x), b', w')"
    using assms(2) ok by (simp add: RequeueAllFromDLQ_def consume_def)
  from requeue_loop_outcomes [OF this] assms(3) obtain outs w2 where o: "length outs \<le> length ds"
    "requeue_each e sc reset 0 (take (length outs) ds) b ?w1 = Returns (outs, b', w2)" "n = requeued outs"
    "maxMessages > 0 \<and> 0 \<le> maxMessages \<longrightarrow> n \<le> maxMessages"
    "requeue_ends e sc maxMessages (length outs) (drop (length outs) ds) n x w2 w'" by auto
  have lim: "maxMessages > 0 \<longrightarrow> n \<le> maxMessages" using o(4) by simp
  obtain new where new: "w_calls w2 = w_calls w @ consume # new"
    "filter is_settle new = map2 settlement (take (length outs) ds) outs"
    using requeue_each_settles [OF o(2)] by auto
  have "length outs = length ds \<and> rq_closed sc \<and> x = None \<and> w' = w2 \<or>
      length outs < length ds \<and>
      w_calls w' = w_calls w2 @ [NackCall (d_DeliveryTag (ds ! length outs)) False True] \<and>
      (maxMessages > 0 \<and> n = maxMessages \<and> x = None \<or> x \<noteq> None \<and> x = rq_ctx sc (length outs))"
  proof (cases "drop (length outs) ds")
    case Nil
    then show ?thesis using o(1,5) by (simp add: requeue_ends_def)
  next
    case (Cons d rest)
    then have "d = ds ! length outs" "length outs < length ds" by (metis nth_via_drop, metis drop_all list.simps(3) not_le)
    then show ?thesis using lim o(5) Cons by (auto simp: requeue_ends_def split: if_splits)
  qed
  with o(2,3) lim new show "\<exists>outs w2 new.
        requeue_each e sc reset 0 (take (length outs) ds) b ?w1 = Returns (outs, b', w2) \<and>
        w_calls w2 = w_calls w @ consume # new \<and>
        filter is_settle new = map2 settlement (take (length outs) ds) outs \<and>
        n = requeued outs \<and> (maxMessages > 0 \<longrightarrow> n \<le> maxMessages) \<and>
        (length outs = length ds \<and> rq_closed sc \<and> x = None \<and> w' = w2 \<or>
         length outs < length ds \<and>
         w_calls w' = w_calls w2 @ [NackCall (d_DeliveryTag (ds ! length outs)) False True] \<and>
         (maxMessages > 0 \<and> n = maxMessages \<and> x = None \<or> x \<noteq> None \<and> x = rq_ctx sc (length outs)))"
    by blast
qed

definition letter_heap :: heap where
  "letter_heap = \<lparr>hp_next = 1, hp_map = (\<lambda>_. [''x-death'' \<mapsto> VArray [VTable [(''queue'', VString ''orders.queue''),
     (''exchange'', VString ''orders''), (''routing-keys'', VArray [VString ''order.created''])]]])\<rparr>"

definition closing_script :: requeue_script where
  "closing_script = \<lparr>rq_ctx = (\<lambda>_. None), rq_publish = (\<lambda>_. plain_script), rq_closed = True\<rparr>"

lemma letter_requeued:
  assumes "w_heap w = letter_heap"
  shows "\<exists>w'. RequeueFromDLQ plain_env plain_script (NewDLQMessage (w_heap w) \<lparr>mc_Delivery = order_delivery (Some 0)\<rparr>) True
    plain_bus w = Returns (None, plain_bus, w')"
proof -
  have "OriginalExchange (NewDLQMessage letter_heap \<lparr>mc_Delivery = order_delivery (Some 0)\<rparr>) = ''orders''"
    "OriginalRoutingKey (NewDLQMessage letter_heap \<lparr>mc_Delivery = order_delivery (Some 0)\<rparr>) = ''order.created''"
    by (simp_all add: NewDLQMessage_def letter_heap_def order_delivery_def death_string_def death_routing_key_def Let_def)
  then show ?thesis
    by (simp add: RequeueFromDLQ_def assms plain_bus_def plain_Publish time_Now_def make_map_def Let_def)
qed

theorem requeue_all_settles_each_witness:
  "\<exists>b' w' new. RequeueAllFromDLQ plain_env closing_script [order_delivery (Some 0)] ''dlq.orders'' True 1 plain_bus
     (empty_world\<lparr>w_heap := letter_heap\<rparr>) = Returns ((1, None), b', w') \<and>
   w_calls w' = Amqp.Consume 8 ''dlq.orders'' [] False False False False None # new \<and>
   filter is_settle new = [AckCall 5 False]"
proof -
  let ?w = "empty_world\<lparr>w_heap := letter_heap\<rparr>" and ?d = "order_delivery (Some 0)"
  let ?c = "Amqp.Consume 8 ''dlq.orders'' [] False False False False None"
  let ?w1 = "?w\<lparr>w_calls := w_calls ?w @ [?c]\<rparr>"
  obtain w2 where w2: "RequeueFromDLQ plain_env plain_script (NewDLQMessage (w_heap ?w1) \<lparr>mc_Delivery = ?d\<rparr>) True plain_bus ?w1
      = Returns (None, plain_bus, w2)" using letter_requeued [of ?w1] by auto
  have ch: "GetChannel (eb_client plain_bus) = Inr 8" by (simp add: plain_bus_def plain_client_def GetChannel_def)
  moreover have "call_err plain_env ?c ?w = (None, ?w1)" by (simp add: call_err_eq plain_env_def)
  moreover have "inc64 0 = 1" by (simp add: inc64_def wrap64_def)
  ultimately obtain w' where r: "RequeueAllFromDLQ plain_env closing_script [?d] ''dlq.orders'' True 1 plain_bus ?w
      = Returns ((1, None), plain_bus, w')"
    using w2 by (simp add: RequeueAllFromDLQ_def closing_script_def)
  have ok: "\<forall>err. answer plain_env (w_calls ?w) ?c \<noteq> RErr err" and len: "int (length [?d]) < 2 ^ 63"
    by (simp_all add: plain_env_def)
  from requeue_all_settles_each [OF r len, of 8, THEN conjunct2, THEN conjunct2, THEN mp, OF conjI [OF ch ok]] obtain outs v new where o: "w_calls v = w_calls ?w @ ?c # new"
    "filter is_settle new = map2 settlement (take (length outs) [?d]) outs" "(1 :: int) = requeued outs"
    "length outs = length [?d] \<and> w' = v \<or> length outs < length [?d]"
    by blast
  then obtain y where y: "outs = [y]" "w' = v" by (cases outs) auto
  with o(1-3) show ?thesis
    using r by (auto simp: settlement_def order_delivery_def empty_world_def split: if_splits)
qed

text \<open>Every delivery the loop gets to see leaves it below its limit.\<close>

lemma requeue_loop_stuck:
  assumes "\<not> rq_closed sc" "\<forall>i. rq_ctx sc i = None" "maxMessages \<le> 0 \<or> 0 \<le> n \<and> n + int (length ds) \<le> maxMessages"
    "is_int64 maxMessages"
  shows "requeue_loop e sc reset maxMessages i ds n b w \<noteq> Returns res"
  using assms(3)
proof (induction ds arbitrary: i n b w)
  case Nil
  then show ?case using assms(1) by simp
next
  case (Cons d ds)
  have lt: "\<not> (maxMessages > 0 \<and> n \<ge> maxMessages)" using Cons.prems by auto
  have "0 \<le> n \<Longrightarrow> n < maxMessages \<Longrightarrow> inc64 n = n + 1"
    using assms(4) inc64_below [of maxMessages n] by (simp add: is_int64_between)
  then have "maxMessages \<le> 0 \<or> 0 \<le> inc64 n \<and> inc64 n + int (length ds) \<le> maxMessages"
    and "maxMessages \<le> 0 \<or> 0 \<le> n \<and> n + int (length ds) \<le> maxMessages"
    using Cons.prems by auto
  with Cons.IH lt assms(2) show ?case by (auto split: option.splits)
qed

text \<open>
  C33. \<open>RequeueAllFromDLQ\<close> does not return once the queue is drained. A consumer's delivery channel
  stays open when its queue is empty, so unless one more delivery arrives than the limit
  allows, the call waits for ever: with no limit, and with a limit that is not exceeded by the
  messages there are. The context is only looked at when a delivery arrives.
\<close>

theorem requeue_all_does_not_return:
  assumes "GetChannel (eb_client b) = Inr ch"
    "fst (call_err e (Amqp.Consume ch dlqName [] False False False False None) w) = None"
    "\<not> rq_closed sc" "\<forall>i. rq_ctx sc i = None" "maxMessages \<le> 0 \<or> int (length ds) \<le> maxMessages" "is_int64 maxMessages"
  shows "RequeueAllFromDLQ e sc ds dlqName reset maxMessages b w \<noteq> Returns res"
proof -
  obtain w1 where "call_err e (Amqp.Consume ch dlqName [] False False False False None) w = (None, w1)"
    using assms(2) by (metis prod.collapse)
  moreover have "requeue_loop e sc reset maxMessages 0 ds 0 b w1 \<noteq> Returns res"
    using assms(3-6) by (intro requeue_loop_stuck) auto
  ultimately show ?thesis using assms(1) by (simp add: RequeueAllFromDLQ_def)
qed

theorem requeue_all_does_not_return_witness:
  "\<forall>res. RequeueAllFromDLQ plain_env \<lparr>rq_ctx = (\<lambda>_. None), rq_publish = (\<lambda>_. plain_script), rq_closed = False\<rparr>
     [order_delivery (Some 0)] ''dlq.orders'' True 1 plain_bus (empty_world\<lparr>w_heap := dead_heap\<rparr>) \<noteq> Returns res"
proof
  fix res
  show "RequeueAllFromDLQ plain_env \<lparr>rq_ctx = (\<lambda>_. None), rq_publish = (\<lambda>_. plain_script), rq_closed = False\<rparr>
     [order_delivery (Some 0)] ''dlq.orders'' True 1 plain_bus (empty_world\<lparr>w_heap := dead_heap\<rparr>) \<noteq> Returns res"
    by (rule requeue_all_does_not_return [of _ 8])
      (simp_all add: plain_bus_def plain_client_def GetChannel_def call_err_eq plain_env_def is_int64_def)
qed

text \<open>
  Without any handler \<open>StartConsume\<close> answers \<open>ErrNoHandlersRegistered\<close> and touches nothing; after any
  list of registrations the router the consumer asks finds, for each event type, the handler
  registered last, and none for types that were never registered. Registering a handler never
  changes the dead-letter router.
\<close>

lemma StartConsume_unregistered:
  "eb_router b = None \<Longrightarrow> StartConsume e queue workers b w = (Inl ErrNoHandlersRegistered, b, w)"
  by (simp add: StartConsume_def)

lemma RegisterHandler_fold:
  "eb_router b = Some r \<Longrightarrow> eb_router (fold (\<lambda>(t, svc). RegisterHandler t svc) regs b) =
     Some (fold (\<lambda>(t, svc). Handle t svc) regs r)"
  by (induction regs arbitrary: b r) (auto simp: RegisterHandler_def)

lemma RegisterHandler_dlq: "eb_dlqRouter (fold (\<lambda>(t, svc). RegisterHandler t svc) regs b) = eb_dlqRouter b"
  by (induction regs arbitrary: b) (auto simp: RegisterHandler_def)

lemma registered_handlers:
  assumes "eb_router b = None" "eb_router (fold (\<lambda>(t, svc). RegisterHandler t svc) regs b) = Some r"
  shows "GetHandler r t = (case map_of (rev regs) t of None \<Rightarrow> None | Some svc \<Rightarrow> svc)"
proof -
  obtain t' svc' regs' where "regs = (t', svc') # regs'" using assms by (cases regs) auto
  then have "r = fold (\<lambda>(t, svc). Handle t svc) regs NewRouter"
    using assms RegisterHandler_fold [of "RegisterHandler t' svc' b" "Handle t' svc' NewRouter" regs']
    by (auto simp: RegisterHandler_def)
  then show ?thesis by (simp add: rt.lookup_fold_register rt.lookup_empty split: option.split)
qed

text \<open>A nil answer of \<open>Publish\<close> means that the event's body was sent.\<close>

lemma bus_Publish_sends:
  assumes "bus_Publish e sc ev b w = Returns (None, b', w')"
  obtains ch msg hdr new where "w_calls w' = w_calls w @ new"
    "PublishWithContext ch (ev_Exchange ev) (ev_Type ev) False False msg hdr \<in> set new" "ev_json e ev = Inr (p_Body msg)"
proof -
  obtain m w1 where m: "createDefaultPublishing e ev w = (m, w1)" by fastforce
  from assms(1) m obtain msg p2 where msg: "m = Inr msg"
    and pub: "Publish e (eb_client b) sc (ev_Exchange ev) (ev_Type ev) msg (eb_pub b) w1 = Returns (None, p2, w')"
    by (cases m) (auto simp: bus_Publish_def)
  have w1: "w_calls w1 = w_calls w" using createDefaultPublishing_calls [of e ev w] m by simp
  have "case ev_json e ev of Inl err \<Rightarrow> m = Inl err | Inr body \<Rightarrow> (\<exists>msg. m = Inr msg \<and> p_Body msg = body)"
    by (rule createDefaultPublishing_shape [OF m]) (auto split: sum.splits)
  then have body: "ev_json e ev = Inr (p_Body msg)" using msg by (auto split: sum.splits)
  obtain ch new hdr where "w_calls w' = w_calls w @ new"
    "PublishWithContext ch (ev_Exchange ev) (ev_Type ev) False False msg hdr \<in> set new"
    using Publish_world [OF pub] w1 unfolding no_settle_def by auto
  with body that show thesis by blast
qed

lemma plain_bus_publishes:
  assumes "\<not> isl (to_json plain_leaf v)"
  obtains b' w' where "bus_Publish plain_env plain_script (order_event v) plain_bus empty_world = Returns (None, b', w')"
proof -
  obtain m w1 where m: "createDefaultPublishing plain_env (order_event v) empty_world = (m, w1)" by fastforce
  then obtain msg where "m = Inr msg"
    using createDefaultPublishing_json [of plain_env "order_event v" empty_world] order_event_json [of v] assms
    by (cases m) auto
  with m that show thesis by (simp add: bus_Publish_def plain_bus_def plain_Publish)
qed

text \<open>
  C9. A published event is dispatched to the handler registered for it. If \<open>Publish\<close> returns nil, a
  message went to the event's exchange under its type; any delivery of that body, at a bus whose
  handlers were registered in any order, is looked up under the \<open>type\<close> entry of the event's map and
  finds the handler registered last for it. Escaping, key order and the other entries of the map
  do not interfere, provided no other spelling of \<open>type\<close> in the map holds a value that is not a
  string. The entry decides, not the event's \<open>Type()\<close>: nothing ties the two together.
\<close>

theorem event_reaches_registered_handler:
  assumes "bus_Publish e sc ev b w = Returns (None, b', w')"
    and "ev_ToMap ev = Some kvs" "distinct (map fst kvs)" "type_keys_ok kvs"
    and "map_of kvs ''type'' = Some (VString t)" "utf8_valid t"
    and leaf: "\<And>v j. marshal_leaf e v = Inr j \<Longrightarrow> json_wf j"
    and depth: "\<And>j. to_json (marshal_leaf e) (VTable kvs) = Inr j \<Longrightarrow> json_depth j \<le> maxNestingDepth"
    and reg: "eb_router c = None" "eb_router (fold (\<lambda>(t, svc). RegisterHandler t svc) regs c) = Some r"
  shows "\<exists>ch msg hdr new. w_calls w' = w_calls w @ new \<and>
    PublishWithContext ch (ev_Exchange ev) (ev_Type ev) False False msg hdr \<in> set new \<and>
    (\<forall>d. d_Body d = p_Body msg \<longrightarrow> GetType \<lparr>mc_Delivery = d\<rparr> = t \<and>
      GetHandler r (GetType \<lparr>mc_Delivery = d\<rparr>) = (case map_of (rev regs) t of None \<Rightarrow> None | Some svc \<Rightarrow> svc))"
proof -
  obtain ch msg hdr new where m: "w_calls w' = w_calls w @ new"
    "PublishWithContext ch (ev_Exchange ev) (ev_Type ev) False False msg hdr \<in> set new" "ev_json e ev = Inr (p_Body msg)"
    using assms(1) by (rule bus_Publish_sends)
  have "marshal_map (marshal_leaf e) (Some kvs) = Inr (p_Body msg)" using m(3) assms(2) by (simp add: ev_json_def)
  from marshal_type_field [OF this leaf depth assms(3-5)] have "unmarshal_type (p_Body msg) = Some t"
    using sanitize_valid [OF assms(6)] by simp
  then have "GetType \<lparr>mc_Delivery = d\<rparr> = t" if "d_Body d = p_Body msg" for d
    using that by (simp add: GetType_def)
  with m(1,2) show ?thesis using registered_handlers [OF reg] by metis
qed

lemma order_event_depth:
  assumes "to_json plain_leaf (VTable [(''type'', VString ''order.created''), (''item'', VInt 1)]) = Inr j"
  shows "json_depth j \<le> maxNestingDepth"
  using assms by (auto simp: maxNestingDepth_def)

theorem event_reaches_registered_handler_witness:
  "\<exists>r ch msg hdr b' w'. eb_router (RegisterHandler ''order.created'' (Some reject_all) plain_bus) = Some r \<and>
     bus_Publish plain_env plain_script (order_event (VInt 1)) plain_bus empty_world = Returns (None, b', w') \<and>
     PublishWithContext ch ''orders'' ''order.created'' False False msg hdr \<in> set (w_calls w') \<and>
     (\<forall>d. d_Body d = p_Body msg \<longrightarrow> GetHandler r (GetType \<lparr>mc_Delivery = d\<rparr>) = Some reject_all)"
proof -
  let ?kvs = "[(''type'', VString ''order.created''), (''item'', VInt 1)]"
  let ?regs = "[(''order.created'', Some reject_all)]"
  obtain r where r: "eb_router (fold (\<lambda>(t, svc). RegisterHandler t svc) ?regs plain_bus) = Some r"
    by (simp add: RegisterHandler_def plain_bus_def)
  obtain b' w' where p: "bus_Publish plain_env plain_script (order_event (VInt 1)) plain_bus empty_world = Returns (None, b', w')"
    by (rule plain_bus_publishes [of "VInt 1"]) simp_all
  have "type_keys_ok ?kvs" "utf8_valid ''order.created''"
    by (simp_all add: type_keys_ok_def sanitize.simps utf8_valid.simps to_lower_def byte_def)
  then have "\<exists>ch msg hdr new. w_calls w' = w_calls empty_world @ new \<and>
    PublishWithContext ch ''orders'' ''order.created'' False False msg hdr \<in> set new \<and>
    (\<forall>d. d_Body d = p_Body msg \<longrightarrow> GetType \<lparr>mc_Delivery = d\<rparr> = ''order.created'' \<and>
      GetHandler r (GetType \<lparr>mc_Delivery = d\<rparr>) = (case map_of (rev ?regs) ''order.created'' of None \<Rightarrow> None | Some svc \<Rightarrow> svc))"
    using event_reaches_registered_handler [OF p, of ?kvs "''order.created''" plain_bus ?regs r] r order_event_depth
    by (simp add: order_event_def plain_env_def plain_leaf_def plain_bus_def)
  then show ?thesis using p r by (auto simp: empty_world_def)
qed

text \<open>
  C10. What is published can be read back. If the map of an event holds nil, booleans, 64-bit
  integers, UTF-8 strings, arrays and maps, nested at most as deep as the decoder allows, then
  serialising it cannot fail, and any delivery of the body \<open>Publish\<close> sent binds, in the consumer's
  \<open>BindJSON\<close> into a map, to the same keys and values, every number having become a \<open>float64\<close>. An
  integer below \<open>2 ^ 53\<close> in magnitude keeps its value.
\<close>

theorem published_event_binds_back:
  assumes "ev_ToMap ev = Some kvs" "json_clean (VTable kvs)" "value_depth (VTable kvs) \<le> maxNestingDepth"
  shows "(\<exists>body. ev_json e ev = Inr body) \<and> (\<bar>k\<bar> < 2 ^ 53 \<longrightarrow> float64_to_int (float_of_int k) = k) \<and>
    (bus_Publish e sc ev b w = Returns (None, b', w') \<longrightarrow>
      (\<exists>ch msg hdr new. w_calls w' = w_calls w @ new \<and>
        PublishWithContext ch (ev_Exchange ev) (ev_Type ev) False False msg hdr \<in> set new \<and>
        (\<forall>d. d_Body d = p_Body msg \<longrightarrow> BindJSON \<lparr>mc_Delivery = d\<rparr> = (True, bound_value (VTable kvs)))))"
proof (intro conjI impI)
  obtain body where body: "ev_json e ev = Inr body" "unmarshal_map body = (True, bound_value (VTable kvs))"
    using marshal_round_trip [OF assms(2,3), of "marshal_leaf e"] assms(1) by (auto simp: ev_json_def)
  then show "\<exists>body. ev_json e ev = Inr body" by blast
  show "float64_to_int (float_of_int k) = k" if "\<bar>k\<bar> < 2 ^ 53" using that by (rule float_of_int_exact)
  assume pub: "bus_Publish e sc ev b w = Returns (None, b', w')"
  then obtain ch msg hdr new where m: "w_calls w' = w_calls w @ new"
    "PublishWithContext ch (ev_Exchange ev) (ev_Type ev) False False msg hdr \<in> set new" "ev_json e ev = Inr (p_Body msg)"
    by (rule bus_Publish_sends)
  then show "\<exists>ch msg hdr new. w_calls w' = w_calls w @ new \<and>
        PublishWithContext ch (ev_Exchange ev) (ev_Type ev) False False msg hdr \<in> set new \<and>
        (\<forall>d. d_Body d = p_Body msg \<longrightarrow> BindJSON \<lparr>mc_Delivery = d\<rparr> = (True, bound_value (VTable kvs)))"
    using body by (fastforce simp: BindJSON_def)
qed

theorem published_event_binds_back_witness:
  "\<exists>b' w' ch msg hdr f. bus_Publish plain_env plain_script (order_event (VInt (-3))) plain_bus empty_world = Returns (None, b', w') \<and>
     PublishWithContext ch ''orders'' ''order.created'' False False msg hdr \<in> set (w_calls w') \<and>
     (\<forall>d. d_Body d = p_Body msg \<longrightarrow> BindJSON \<lparr>mc_Delivery = d\<rparr> =
        (True, VTable [(''item'', VFloat64 f), (''type'', VString ''order.created'')])) \<and> float64_to_int f = - 3"
proof -
  let ?kvs = "[(''type'', VString ''order.created''), (''item'', VInt (-3))]"
  have kvs: "ev_ToMap (order_event (VInt (-3))) = Some ?kvs" by (simp add: order_event_def)
  have clean: "json_clean (VTable ?kvs)" "value_depth (VTable ?kvs) \<le> maxNestingDepth"
    by (simp_all add: utf8_valid.simps byte_def is_int64_def maxNestingDepth_def)
  note bound = published_event_binds_back [OF kvs clean, of plain_env "- 3"]
  obtain b' w' where p: "bus_Publish plain_env plain_script (order_event (VInt (-3))) plain_bus empty_world = Returns (None, b', w')"
    by (rule plain_bus_publishes [of "VInt (-3)"]) auto
  have "bound_value (VTable ?kvs) = VTable [(''item'', VFloat64 (float_of_int (- 3))), (''type'', VString ''order.created'')]"
    by (simp add: less_eq_char_def)
  with bound p show ?thesis by (fastforce simp: empty_world_def)
qed

text \<open>
  A published event carries a trace id and leaves the event's own headers alone. The message
  gets a fresh header map: the event's headers, with a generated \<open>trace_id\<close> exactly when the
  event has none or a nil one; it is persistent JSON, typed with the event's type. The header
  map the event returned is not written to. If serialising fails, the error is returned.
\<close>

theorem publishing_of_event:
  assumes "createDefaultPublishing e ev w = (r, w')" "ref_ok (w_heap w) (ev_Headers ev)"
  shows "map_get (w_heap w') (ev_Headers ev) = map_get (w_heap w) (ev_Headers ev) \<and>
    (case ev_json e ev of
       Inl err \<Rightarrow> r = Inl err
     | Inr body \<Rightarrow> (\<exists>msg t. r = Inr msg \<and> p_Body msg = body \<and> p_Type msg = ev_Type ev \<and>
         p_ContentType msg = ''application/json'' \<and> p_DeliveryMode msg = Persistent \<and>
         map_get (w_heap w') (p_Headers msg) =
           (let hs = map_get (w_heap w) (ev_Headers ev)
            in if hs ''trace_id'' = None \<or> hs ''trace_id'' = Some VNil then hs(''trace_id'' \<mapsto> VString t) else hs)))"
proof -
  let ?hs = "map_get (w_heap w) (ev_Headers ev)" and ?a = "hp_next (w_heap w)"
  obtain t and w2 :: world where w2: "hp_map (w_heap w2) = (hp_map (w_heap w))(?a :=
      (if ?hs ''trace_id'' = None \<or> ?hs ''trace_id'' = Some VNil then ?hs(''trace_id'' \<mapsto> VString t) else ?hs))"
    "w_heap w' = w_heap w2" "case ev_json e ev of Inl err \<Rightarrow> r = Inl err
     | Inr body \<Rightarrow> (\<exists>msg. r = Inr msg \<and> p_Headers msg = Some ?a \<and> p_Body msg = body \<and> p_Type msg = ev_Type ev \<and>
         p_ContentType msg = ''application/json'' \<and> p_DeliveryMode msg = Persistent)"
    by (rule createDefaultPublishing_shape [OF assms(1)])
  have "map_get (w_heap w') (ev_Headers ev) = ?hs"
    using assms(2) by (auto simp: w2(1,2) map_get_def ref_ok_def split: option.splits)
  with w2 show ?thesis by (cases "ev_json e ev") (auto simp: Let_def)
qed

theorem publishing_of_event_witness:
  "\<exists>msg w' t. createDefaultPublishing plain_env (order_event (VInt 1)) empty_world = (Inr msg, w') \<and>
     map_get (w_heap w') (p_Headers msg) = [''trace_id'' \<mapsto> VString t]"
proof -
  obtain r w' where r: "createDefaultPublishing plain_env (order_event (VInt 1)) empty_world = (r, w')" by fastforce
  obtain body where "ev_json plain_env (order_event (VInt 1)) = Inr body"
    using order_event_json [of "VInt 1"] by (cases "ev_json plain_env (order_event (VInt 1))") simp_all
  with publishing_of_event [OF r] r show ?thesis by (auto simp: ref_ok_def)
qed

end
