(* ===== verification/Client_Calls.thy ===== *)
theory Client_Calls
  imports Reconnect
begin

text \<open>
  What the client and its reconnection goroutine ask of the AMQP library: they open and close
  connections and channels and declare the topology, but they never publish, subscribe to a
  queue or confirmations, or settle a delivery. Compositions rest on this, since the client works
  beside publishers and workers on one connection.
\<close>

section \<open>Calls of a kind\<close>

definition made :: "(amqp_call \<Rightarrow> bool) \<Rightarrow> world \<Rightarrow> world \<Rightarrow> bool" where
  "made P w w' \<longleftrightarrow> (\<exists>new. w_calls w' = w_calls w @ new \<and> list_all P new)"

fun client_call :: "amqp_call \<Rightarrow> bool" where
  "client_call (AckCall t m) = False"
| "client_call (NackCall t m r) = False"
| "client_call (Amqp.Consume ch q tg a x l n args) = False"
| "client_call (PublishWithContext ch ex rk m i msg h) = False"
| "client_call (NotifyPublish ch) = False"
| "client_call _ = True"

lemma made_mono: "made P w w' \<Longrightarrow> (\<And>c. P c \<Longrightarrow> Q c) \<Longrightarrow> made Q w w'"
  unfolding made_def by (metis list.pred_mono_strong)

lemma made_refl: "w_calls w' = w_calls w \<Longrightarrow> made P w w'"
  by (simp add: made_def)

lemma made_trans: "made P w1 w2 \<Longrightarrow> made P w2 w3 \<Longrightarrow> made P w1 w3"
  unfolding made_def by (metis append.assoc list_all_append)

lemma made_add: "P c \<Longrightarrow> w_calls w2 = w_calls w1 @ [c] \<Longrightarrow> made P w1 w2"
  by (simp add: made_def)

lemma made_call_err: "call_err e c w = (r, w') \<Longrightarrow> P c \<Longrightarrow> made P w w'"
  by (auto simp: call_err_eq intro: made_add)

lemma made_call: "P c \<Longrightarrow> made P w (snd (call e c w))"
  by (auto simp: call_def intro: made_add)

lemma made_call_id: "call_id e c w = (r, w') \<Longrightarrow> P c \<Longrightarrow> made P w w'"
  by (auto simp: call_id_def call_def intro: made_add)

lemma made_log [simp]: "made P w (log l m fs w') = made P w w'" "made P (log l m fs w) w' = made P w w'"
  by (simp_all add: made_def)

section \<open>What the client calls\<close>

lemma setupDLQQueues_made: "setupDLQQueues e ch d qs w = (r, w') \<Longrightarrow> made client_call w w'"
proof (induction qs arbitrary: w)
  case (Cons q qs)
  let ?n = "GetDLQName d (q_Name q)"
  obtain x w1 where 1: "call_err e (QueueDeclare ch ?n (dlq_Durable d) (dlq_AutoDelete d) False False None) w = (x, w1)" by fastforce
  obtain y w2 where 2: "call_err e (QueueBind ch ?n (GetDLXRoutingKey d (q_Name q)) (ExchangeName d) False None) w1 = (y, w2)"
    by fastforce
  have n: "made client_call w w1" "made client_call w1 w2" using made_call_err [OF 1] made_call_err [OF 2] by simp_all
  show ?case
  proof (cases "x = None \<and> y = None")
    case True
    with Cons.prems 1 2 have "made client_call w2 w'" using Cons.IH by (fastforce simp: Let_def)
    with n made_trans show ?thesis by blast
  next
    case False
    with Cons.prems 1 2 have "w' = w1 \<or> w' = w2" by (auto simp: Let_def split: option.splits)
    with n made_trans show ?thesis by blast
  qed
qed (simp add: made_refl)

lemma declareExchanges_made: "declareExchanges e ch exs w = (r, w') \<Longrightarrow> made client_call w w'"
proof (induction exs arbitrary: w)
  case (Cons ex exs)
  obtain x w1 where 1: "call_err e (ExchangeDeclare ch (ex_Name ex) (ex_Type ex) (ex_Durable ex) (ex_AutoDelete ex) (ex_Internal ex)
      False (map_snapshot (w_heap w) (ex_Args ex))) w = (x, w1)" by fastforce
  then have n: "made client_call w w1" by (rule made_call_err) simp
  with Cons 1 show ?case by (cases x) (auto intro: made_trans)
qed (simp add: made_refl)

lemma bindQueueKeys_made: "bindQueueKeys e ch q rks w = (r, w') \<Longrightarrow> made client_call w w'"
proof (induction rks arbitrary: w)
  case (Cons rk rks)
  obtain x w1 where 1: "call_err e (QueueBind ch (q_Name q) rk (q_Exchange q) False None) w = (x, w1)" by fastforce
  then have n: "made client_call w w1" by (rule made_call_err) simp
  with Cons 1 show ?case by (cases x) (auto intro: made_trans)
qed (simp add: made_refl)

lemma declareQueues_made: "declareQueues e ch cfg qs w = (r, w') \<Longrightarrow> made client_call w w'"
proof (induction qs arbitrary: w)
  case (Cons q qs)
  obtain q1 w0 where 0: "(if DLQEnabled cfg
      then (case configQueueWithDLX q (DLQConf cfg) (w_heap w) of (q', h') \<Rightarrow> (q', w\<lparr>w_heap := h'\<rparr>)) else (q, w)) = (q1, w0)"
    by fastforce
  then have n0: "made client_call w w0" by (intro made_refl) (auto split: if_splits prod.splits)
  obtain x w1 where 1: "call_err e (QueueDeclare ch (q_Name q1) (q_Durable q1) (q_AutoDelete q1) (q_Exclusive q1) False
      (map_snapshot (w_heap w0) (q_Args q1))) w0 = (x, w1)" by fastforce
  then have n1: "made client_call w w1" using made_call_err [OF 1] made_trans [OF n0] by simp
  obtain y w2 where 2: "(if q_Exchange q1 \<noteq> [] then bindQueueKeys e ch q1 (q_RoutingKeys q1) w1 else (None, w1)) = (y, w2)"
    by fastforce
  then have "made client_call w1 w2" by (auto split: if_splits intro: made_refl bindQueueKeys_made)
  with n1 have n2: "made client_call w w2" by (rule made_trans)
  from Cons.prems 0 1 2 consider "w' = w1" | "w' = w2" | "declareQueues e ch cfg qs w2 = (r, w')"
    by (auto simp: Let_def split: option.splits)
  then show ?case using n1 n2 Cons.IH made_trans by cases blast+
qed (simp add: made_refl)

lemma setupTopology_made:
  assumes "setupTopology e ch cfg w = (r, w')"
  shows "made client_call w w'"
proof -
  obtain x w1 where 1: "(if DLQEnabled cfg then setupDLQ e ch cfg w else (None, w)) = (x, w1)" by fastforce
  have n1: "made client_call w w1"
  proof (cases "DLQEnabled cfg")
    case True
    let ?d = "DLQConf cfg"
    obtain y v where y: "call_err e (ExchangeDeclare ch (ExchangeName ?d) (ExchangeType ?d) (dlq_Durable ?d) (dlq_AutoDelete ?d)
        False False None) w = (y, v)" by fastforce
    then have "made client_call w v" by (rule made_call_err) simp
    moreover have "w1 = v \<or> made client_call v w1"
      using True 1 y setupDLQQueues_made by (fastforce simp: setupDLQ_def Let_def split: option.splits)
    ultimately show ?thesis using made_trans by blast
  qed (use 1 in \<open>simp add: made_refl\<close>)
  obtain y w2 where 2: "declareExchanges e ch (Exchanges cfg) w1 = (y, w2)" by fastforce
  have n2: "made client_call w w2" using n1 declareExchanges_made [OF 2] by (rule made_trans)
  from assms 1 2 consider "w' = w1" | "w' = w2" | "declareQueues e ch cfg (Queues cfg) w2 = (r, w')"
    by (auto simp: setupTopology_def split: option.splits)
  then show ?thesis using n1 n2 declareQueues_made made_trans by cases blast+
qed

lemma close_both_made: "made client_call w (close_both e ch conn w)"
  by (simp add: close_both_def call_def made_def)

lemma watch_made: "made client_call w (watch e conn ch w)"
  by (simp add: watch_def call_def made_def)

lemma enableConfirms_made: "enableConfirms e ch cfg w = (r, w') \<Longrightarrow> made client_call w w'"
  by (auto simp: enableConfirms_def made_refl split: if_splits prod.splits option.splits dest: made_call_err [where P = client_call])

text \<open>
  A connection attempt either leaves the client's channel as it is or installs the channel it
  has just opened. It changes neither the configuration nor the closed flag.
\<close>

definition new_channel :: "env \<Rightarrow> world \<Rightarrow> nat \<Rightarrow> world \<Rightarrow> bool" where
  "new_channel e w ch w' \<longleftrightarrow> (\<exists>conn w1 w2. made client_call w w1 \<and>
     call_id e (OpenChannel conn) w1 = (Inr ch, w2) \<and> made client_call w2 w')"

lemma connect_made:
  assumes "connect e c w = (r, c', w')"
  shows "made client_call w w' \<and> cl_config c' = cl_config c \<and> cl_closed c' = cl_closed c \<and>
    (cl_channel c' = cl_channel c \<or> (\<exists>ch. cl_channel c' = Some ch \<and> new_channel e w ch w'))"
proof (cases "cl_closed c")
  case False
  obtain x w1 where 1: "call_id e (Dial (URI (cl_config c))) w = (x, w1)" by fastforce
  then have n1: "made client_call w w1" by (rule made_call_id) simp
  show ?thesis
  proof (cases x)
    case (Inr conn)
    obtain y w2 where 2: "call_id e (OpenChannel conn) w1 = (y, w2)" by fastforce
    then have n2: "made client_call w w2" using made_call_id [OF 2] made_trans [OF n1] by simp
    show ?thesis
    proof (cases y)
      case (Inl err)
      with assms False 1 Inr 2 have "w' = snd (call e (CloseConnection conn) w2)" "c' = c" by (simp_all add: connect_def)
      then show ?thesis using n2 made_call [of client_call "CloseConnection conn" w2 e] made_trans by auto
    next
      case (Inr ch)
      obtain z w3 where 3: "call_err e (Qos ch (PrefetchCount (cl_config c)) 0 False) w2 = (z, w3)" by fastforce
      then have n3: "made client_call w2 w3" by (rule made_call_err) simp
      obtain u w4 where 4: "enableConfirms e ch (cl_config c) w3 = (u, w4)" by fastforce
      have n4: "made client_call w2 w4" using n3 enableConfirms_made [OF 4] by (rule made_trans)
      obtain v w5 where 5: "setupTopology e ch (cl_config c) w4 = (v, w5)" by fastforce
      have n5: "made client_call w2 w5" using n4 setupTopology_made [OF 5] by (rule made_trans)
      have c': "c' = c\<lparr>cl_conn := Some conn, cl_channel := Some ch\<rparr>"
        "w' \<in> {close_both e ch conn w3, close_both e ch conn w4, close_both e ch conn w5, watch e conn ch w5}"
        using assms False 1 \<open>x = Inr conn\<close> 2 Inr 3 4 5 by (auto simp: connect_def Let_def split: option.splits)
      then have w': "made client_call w2 w'" using n3 n4 n5 close_both_made watch_made made_trans by blast
      then have "new_channel e w ch w'" using n1 2 Inr unfolding new_channel_def by blast
      with w' n2 c'(1) made_trans show ?thesis by auto
    qed
  qed (use assms False 1 n1 in \<open>simp add: connect_def\<close>)
qed (use assms in \<open>simp add: connect_def made_refl\<close>)

lemma broker_New_channel:
  assumes "broker_New e cfg w = (Inr cl, w')"
  shows "connect e \<lparr>cl_config = cfg, cl_conn = None, cl_channel = None, cl_closed = False\<rparr> w = (None, cl, w')"
    "cl_config cl = cfg" "\<exists>ch. cl_channel cl = Some ch"
proof -
  show c: "connect e \<lparr>cl_config = cfg, cl_conn = None, cl_channel = None, cl_closed = False\<rparr> w = (None, cl, w')"
    using assms by (auto simp: broker_New_def split: prod.splits option.splits)
  show "cl_config cl = cfg" using connect_made [OF c] by simp
  have "cl_channel cl \<noteq> None"
    using c by (auto simp: connect_def Let_def split: if_splits sum.splits prod.splits option.splits)
  then show "\<exists>ch. cl_channel cl = Some ch" by blast
qed

lemma any_step_made:
  assumes "any_step e s t"
  shows "made client_call (rs_world s) (rs_world t)"
proof -
  from assms obtain l where "rstep e s l t" by (auto simp: any_step_def)
  then show ?thesis
  proof cases
    case close
    then show ?thesis
      using made_call made_trans
      by (auto simp: close_step_def client_Close_def Let_def call_def made_def split: option.splits)
  next
    case handler
    have "made client_call w (snd (client_IsConnected e c w))" for c w
      by (auto simp: client_IsConnected_def call_def made_def split: option.splits)
    then have alive: "client_IsConnected e c w = (b, w') \<Longrightarrow> made client_call w w'" for c w b w' by (metis snd_conv)
    show ?thesis
      using handler by (cases "rs_pc s") (auto simp: handler_step_def made_refl split: prod.splits if_splits
          dest: connect_made alive)
  qed (auto simp: made_refl client_Reconnect_def)
qed

lemma any_step_channel:
  assumes "any_step e s t"
  shows "cl_config (rs_client t) = cl_config (rs_client s) \<and> (cl_channel (rs_client t) = cl_channel (rs_client s) \<or>
    (\<exists>ch. cl_channel (rs_client t) = Some ch \<and> new_channel e (rs_world s) ch (rs_world t)))"
proof -
  from assms obtain l where "rstep e s l t" by (auto simp: any_step_def)
  then show ?thesis
  proof cases
    case close
    then show ?thesis by (auto simp: close_step_def client_Close_def Let_def)
  next
    case handler
    show ?thesis
    proof (cases "rs_pc s = Connecting")
      case True
      obtain r c w where "connect e (rs_client s) (rs_world s) = (r, c, w)" by (metis prod.collapse)
      with connect_made [OF this] True handler show ?thesis by (simp add: handler_step_def)
    next
      case False
      then have "rs_client t = rs_client s"
        using handler by (cases "rs_pc s") (auto simp: handler_step_def split: prod.splits)
      then show ?thesis by simp
    qed
  qed (auto simp: client_Reconnect_def)
qed

end
