(* ===== verification/System.thy ===== *)
theory System
  imports Event_Bus Workers Client_Calls
begin

text \<open>
  A bus at work: the reconnection goroutine of its client (\<open>Reconnect\<close>), the workers of its consumer
  (\<open>Workers\<close>) and the rest of the application, on one client and one world. A step is a step of one of
  them. The workers use the client's current state whenever they look at it; the application may
  do anything but settle deliveries of the workers or start another consumer.
\<close>

section \<open>Calls that neither settle nor subscribe\<close>

fun neutral :: "amqp_call \<Rightarrow> bool" where
  "neutral (AckCall t m) = False"
| "neutral (NackCall t m r) = False"
| "neutral (Amqp.Consume ch q tg a x l n args) = False"
| "neutral _ = True"

abbreviation neutral_calls :: "world \<Rightarrow> world \<Rightarrow> bool" where
  "neutral_calls \<equiv> made neutral"

lemma client_call_neutral: "client_call c \<Longrightarrow> neutral c"
  by (cases c) simp_all

lemma any_step_neutral: "any_step e s t \<Longrightarrow> neutral_calls (rs_world s) (rs_world t)"
  by (rule made_mono [OF any_step_made client_call_neutral])

lemma neutral_not_settle: "list_all neutral cs \<Longrightarrow> settled_tags cs = []"
proof (induction cs)
  case (Cons c cs)
  then show ?case by (cases c) (simp_all add: settled_tags_def)
qed simp

section \<open>The composed system\<close>

record system =
  sy_rs :: rstate
  sy_pool :: pool

text \<open>The workers see the client and the world as they are now.\<close>

definition pool_of :: "system \<Rightarrow> pool" where
  "pool_of s = (sy_pool s)\<lparr>pl_cs := (pl_cs (sy_pool s))\<lparr>cs_client := rs_client (sy_rs s)\<rparr>, pl_world := rs_world (sy_rs s)\<rparr>"

definition bus_system :: "EventBus \<Rightarrow> Router \<Rightarrow> breaker option \<Rightarrow> int list \<Rightarrow> world \<Rightarrow> system" where
  "bus_system b r cb ids w = \<lparr>sy_rs = started (eb_client b) w, sy_pool = start_workers ids (bus_consumer b r cb) w\<rparr>"

inductive sys_step :: "env \<Rightarrow> system \<Rightarrow> system \<Rightarrow> bool" for e where
  net: "any_step e (sy_rs s) r \<Longrightarrow> sys_step e s (s\<lparr>sy_rs := r\<rparr>)"
| worker: "pool_step e (pool_of s) q \<Longrightarrow> cs_client (pl_cs q) = rs_client (sy_rs s) \<Longrightarrow>
    sys_step e s (s\<lparr>sy_pool := q, sy_rs := (sy_rs s)\<lparr>rs_world := pl_world q\<rparr>\<rparr>)"
| app: "neutral_calls (rs_world (sy_rs s)) w \<Longrightarrow> sys_step e s (s\<lparr>sy_rs := (sy_rs s)\<lparr>rs_world := w\<rparr>\<rparr>)"

section \<open>The workers in the system\<close>

text \<open>The steps of a pool whose client and world others change as well.\<close>

definition open_pool_step :: "env \<Rightarrow> pool \<Rightarrow> pool \<Rightarrow> bool" where
  "open_pool_step e s t \<longleftrightarrow> pool_step e s t \<or>
     (\<exists>cl w. neutral_calls (pl_world s) w \<and> t = s\<lparr>pl_cs := (pl_cs s)\<lparr>cs_client := cl\<rparr>, pl_world := w\<rparr>)"

lemma pool_inv_neutral:
  assumes "pool_inv r w0 s" "neutral_calls (pl_world s) w"
  shows "pool_inv r w0 (s\<lparr>pl_cs := (pl_cs s)\<lparr>cs_client := cl\<rparr>, pl_world := w\<rparr>)" (is "pool_inv r w0 ?t")
proof -
  obtain more where more: "w_calls w = w_calls (pl_world s) @ more" "settled_tags more = []"
    using assms(2) neutral_not_settle by (auto simp: made_def)
  have "held ?t = held s" by (rule held_cong) simp_all
  then have "\<exists>new. w_calls w = w_calls w0 @ new \<and>
      mset (settled_tags new) + mset (held ?t) = mset (map d_DeliveryTag (pl_delivered s))" if h: "handlers_leave r"
  proof -
    obtain new where new: "w_calls (pl_world s) = w_calls w0 @ new"
      "mset (settled_tags new) + mset (held s) = mset (map d_DeliveryTag (pl_delivered s))"
      using assms(1) h unfolding pool_inv_def by blast
    with more \<open>held ?t = held s\<close> show ?thesis by (intro exI [of _ "new @ more"]) simp
  qed
  then show ?thesis using assms(1) by (simp add: pool_inv_def)
qed

interpretation workers: simulation "\<lambda>s. s = start_workers ids (bus_consumer b r cb) w0" "open_pool_step e" "pool_inv r w0"
    "\<lambda>s. s = bus_system b r cb ids w0" "sys_step e" pool_of
  for ids b r cb w0 e
proof
  show "pool_inv r w0 s" if "s = start_workers ids (bus_consumer b r cb) w0" for s
    using that by (auto simp: pool_inv_def start_workers_def bus_consumer_def held_def comp_def)
  show "pool_inv r w0 t" if "open_pool_step e s t" "pool_inv r w0 s" for s t
    using that pool_inv_step pool_inv_neutral unfolding open_pool_step_def by blast
  show "pool_of s = start_workers ids (bus_consumer b r cb) w0" if "s = bus_system b r cb ids w0" for s
    using that by (simp add: pool_of_def bus_system_def started_def start_workers_def bus_consumer_def)
  show "pool_of t = pool_of s \<or> open_pool_step e (pool_of s) (pool_of t)" if "sys_step e s t" for s t
    using that
  proof (induction rule: sys_step.induct)
    case (net s r)
    then have "neutral_calls (pl_world (pool_of s)) (rs_world r)" using any_step_neutral by (simp add: pool_of_def)
    then show ?case unfolding open_pool_step_def by (intro disjI2 exI [of _ "rs_client r"] exI [of _ "rs_world r"]) (simp add: pool_of_def)
  next
    case (worker s q)
    then have "pool_of (s\<lparr>sy_pool := q, sy_rs := (sy_rs s)\<lparr>rs_world := pl_world q\<rparr>\<rparr>) = q" by (simp add: pool_of_def)
    with worker(1) show ?case by (simp add: open_pool_step_def)
  next
    case (app s w)
    then have "neutral_calls (pl_world (pool_of s)) w" by (simp add: pool_of_def)
    then show ?case unfolding open_pool_step_def
      by (intro disjI2 exI [of _ "rs_client (sy_rs s)"] exI [of _ w]) (simp add: pool_of_def)
  qed
qed

section \<open>A pool whose workers have ended\<close>

definition ended :: "delivery list \<Rightarrow> system \<Rightarrow> bool" where
  "ended ds s \<longleftrightarrow> \<not> pl_open (sy_pool s) \<and> pl_queue (sy_pool s) = [] \<and> pl_delivered (sy_pool s) = ds \<and>
     (\<forall>c \<in> set (pl_pcs (sy_pool s)). c = Ended)"

lemma ended_pool_step:
  assumes "pool_step e s t" "\<not> pl_open s" "pl_queue s = []" "\<forall>c \<in> set (pl_pcs s). c = Ended"
  shows "pl_open t = pl_open s \<and> pl_queue t = [] \<and> pl_delivered t = pl_delivered s \<and> pl_pcs t = pl_pcs s \<and>
    w_calls (pl_world t) = w_calls (pl_world s)"
  using assms
proof (induction rule: pool_step.induct)
  case (take i s d ds)
  then show ?case by simp
next
  case (work i s sc c cs w)
  then have "pl_pcs s ! i = Ended" using nth_mem by blast
  with work show ?case by simp
next
  case (finish i s)
  then have "pl_pcs s ! i = Ended" using nth_mem by blast
  with finish show ?case by simp
next
  case (manual_reset s ok cs w)
  then show ?case by (auto simp: ResetCircuitBreaker_def time_Now_def split: option.splits)
qed auto

lemma ended_step:
  assumes "sys_step e s t" "ended ds s"
  shows "ended ds t \<and> neutral_calls (rs_world (sy_rs s)) (rs_world (sy_rs t))"
  using assms
proof (induction rule: sys_step.induct)
  case (net s r)
  then show ?case using any_step_neutral by (simp add: ended_def)
next
  case (worker s q)
  from ended_pool_step [OF worker(1)] worker(3) show ?case by (simp add: ended_def pool_of_def made_refl)
qed (simp add: ended_def)

lemma ended_star:
  "(sys_step e)\<^sup>*\<^sup>* s t \<Longrightarrow> ended ds s \<Longrightarrow> ended ds t \<and> neutral_calls (rs_world (sy_rs s)) (rs_world (sy_rs t))"
proof (induction rule: rtranclp_induct)
  case (step t u)
  then show ?case using ended_step made_trans by blast
qed (simp add: made_refl)

lemma sys_worker_quiet:
  assumes "pool_step e (pool_of s) q" "cs_client (pl_cs q) = rs_client (sy_rs s)" "pl_world q = rs_world (sy_rs s)"
  shows "sys_step e s (s\<lparr>sy_pool := q\<rparr>)"
proof -
  have "s\<lparr>sy_pool := q, sy_rs := (sy_rs s)\<lparr>rs_world := pl_world q\<rparr>\<rparr> = s\<lparr>sy_pool := q\<rparr>"
    using assms(3) by (cases s, cases "sy_rs s") simp
  with worker [OF assms(1,2)] show ?thesis by simp
qed

lemma net_star: "(any_step e)\<^sup>*\<^sup>* (sy_rs s) r \<Longrightarrow> (sys_step e)\<^sup>*\<^sup>* s (s\<lparr>sy_rs := r\<rparr>)"
proof (induction rule: rtranclp_induct)
  case (step r r')
  have "sys_step e (s\<lparr>sy_rs := r\<rparr>) (s\<lparr>sy_rs := r\<rparr>\<lparr>sy_rs := r'\<rparr>)" using step(2) by (intro net) simp
  with step(3) show ?case by (simp add: rtranclp.rtrancl_into_rtrancl)
qed simp

text \<open>When the channel of deliveries is closed and drained, the workers leave their loops one by one.\<close>

lemma length_filter_update:
  "i < length xs \<Longrightarrow> xs ! i = a \<Longrightarrow> b \<noteq> a \<Longrightarrow> Suc (length (filter ((=) a) (xs[i := b]))) = length (filter ((=) a) xs)"
proof (induction xs arbitrary: i)
  case (Cons x xs)
  then show ?case by (cases i) auto
qed simp

lemma workers_end:
  assumes "\<not> pl_open (sy_pool s)" "pl_queue (sy_pool s) = []" "\<forall>c \<in> set (pl_pcs (sy_pool s)). c = Fetch \<or> c = Ended"
  shows "\<exists>t. (sys_step e)\<^sup>*\<^sup>* s t \<and> sy_rs t = sy_rs s \<and> ended (pl_delivered (sy_pool s)) t"
  using assms
proof (induction "length (filter ((=) Fetch) (pl_pcs (sy_pool s)))" arbitrary: s)
  case 0
  then have "ended (pl_delivered (sy_pool s)) s" by (auto simp: ended_def filter_empty_conv)
  then show ?case by blast
next
  case (Suc n)
  let ?cs = "pl_pcs (sy_pool s)"
  have "Fetch \<in> set ?cs" using Suc.hyps(2) by (metis filter_False length_0_conv nat.distinct(1))
  then obtain i where i: "i < length ?cs" "?cs ! i = Fetch" by (auto simp: in_set_conv_nth)
  let ?q = "(pool_of s)\<lparr>pl_pcs := ?cs[i := Ended]\<rparr>" let ?t = "s\<lparr>sy_pool := ?q\<rparr>"
  have step: "sys_step e s ?t"
  proof (rule sys_worker_quiet)
    show "pool_step e (pool_of s) ?q"
      using finish [of i "pool_of s" e] i Suc.prems by (simp add: pool_of_def)
  qed (simp_all add: pool_of_def)
  have q: "pl_pcs ?q = ?cs[i := Ended]" by simp
  have "n = length (filter ((=) Fetch) (pl_pcs (sy_pool ?t)))"
    using Suc.hyps(2) i length_filter_update [of i ?cs Fetch Ended] by simp
  moreover have "\<forall>c \<in> set (pl_pcs (sy_pool ?t)). c = Fetch \<or> c = Ended"
    using Suc.prems(3) set_update_subset_insert [of ?cs i Ended] by fastforce
  ultimately obtain t where "(sys_step e)\<^sup>*\<^sup>* ?t t" "sy_rs t = sy_rs ?t" "ended (pl_delivered (sy_pool ?t)) t"
    using Suc.hyps(1) [of ?t] Suc.prems by (auto simp: pool_of_def)
  then show ?case using step by (intro exI [of _ t]) (auto simp: pool_of_def intro: converse_rtranclp_into_rtranclp)
qed

section \<open>Properties\<close>

text \<open>
  C7. Every delivery is settled exactly once, in the running system too. With the reconnection
  goroutine, confirmations, resets and the application at work between any two stages of any
  worker, what was acknowledged or rejected since the start, what the workers hold and what waits
  in the channel are together exactly what the broker delivered.
\<close>

theorem system_settles_each_once:
  assumes "reach (\<lambda>s. s = bus_system b r cb ids w0) (sys_step e) s" "handlers_leave r"
  shows "\<exists>new. w_calls (rs_world (sy_rs s)) = w_calls w0 @ new \<and>
    mset (settled_tags new) + mset (held (sy_pool s)) = mset (map d_DeliveryTag (pl_delivered (sy_pool s)))"
proof -
  have "pool_inv r w0 (pool_of s)" using assms(1) by (rule workers.abs_inv)
  moreover have "held (pool_of s) = held (sy_pool s)" by (rule held_cong) (simp_all add: pool_of_def)
  ultimately show ?thesis using assms(2) by (simp add: pool_inv_def pool_of_def)
qed

theorem system_settles_each_once_witness:
  "\<exists>s. reach (\<lambda>s. s = bus_system plain_bus NewRouter None [0, 1] empty_world) (sys_step plain_env) s \<and>
     mset (held (sy_pool s)) = {#5#}"
proof -
  let ?init = "bus_system plain_bus NewRouter None [0, 1] empty_world" and ?d = "order_delivery None"
  let ?R = "reach (\<lambda>s. s = bus_system plain_bus NewRouter None [0, 1] empty_world) (sys_step plain_env)"
  let ?q = "(pool_of ?init)\<lparr>pl_delivered := pl_delivered (pool_of ?init) @ [?d], pl_queue := pl_queue (pool_of ?init) @ [?d]\<rparr>"
  let ?s = "?init\<lparr>sy_pool := ?q\<rparr>"
  have "pool_step plain_env (pool_of ?init) ?q"
    by (rule deliver) (simp add: pool_of_def bus_system_def start_workers_def)
  then have "sys_step plain_env ?init ?s" by (rule sys_worker_quiet [of plain_env ?init ?q]) (simp_all add: pool_of_def)
  moreover have "?R ?init" by (rule reach_init) simp
  ultimately have r: "?R ?s" using reach_step by fast
  have "handlers_leave NewRouter" by (simp add: handlers_leave_def rt.lookup_empty)
  from system_settles_each_once [OF r this] have "mset (held ?q) = mset (map d_DeliveryTag (pl_delivered ?q))"
    by (auto simp: bus_system_def started_def empty_world_def)
  then show ?thesis using r
    by (intro exI [of _ ?s]) (simp add: pool_of_def bus_system_def start_workers_def order_delivery_def)
qed

text \<open>
  C24. A reconnect does not resume consumption. When the connection is lost, the channel of
  deliveries is closed and the workers leave their loops; the handler reconnects and declares
  the topology again, but nothing subscribes to the queue again. From then on the bus is connected
  and serving, and yet no worker is left, no message is received and no \<open>Consume\<close> is issued, whatever
  the library and an application that does not call \<open>StartConsume\<close> again may do.
\<close>

theorem reconnect_does_not_resume:
  assumes "rs_pc (sy_rs s) = Waiting" "\<not> cl_closed (rs_client (sy_rs s))" "(conn, ch) \<in> set (rs_watchers (sy_rs s))"
    "s1 = handler_step e (handler_step e (send_signal (watcher_fires conn ch (Some err) (sy_rs s))))"
    "reconnect_loop e n s1 = Some r" "pl_queue (sy_pool s) = []" "\<forall>c \<in> set (pl_pcs (sy_pool s)). c = Fetch"
  shows "\<exists>t. (sys_step e)\<^sup>*\<^sup>* s t \<and> sy_rs t = r \<and> serving r \<and> (\<forall>u. (sys_step e)\<^sup>*\<^sup>* t u \<longrightarrow>
    (\<forall>c \<in> set (pl_pcs (sy_pool u)). c = Ended) \<and> pl_delivered (sy_pool u) = pl_delivered (sy_pool s) \<and>
    neutral_calls (rs_world r) (rs_world (sy_rs u)))"
proof -
  have r: "(any_step e)\<^sup>*\<^sup>* (sy_rs s) r" "serving r" using connection_loss [OF assms(1-4), of n] assms(5) by blast+
  let ?q = "(pool_of s)\<lparr>pl_open := False\<rparr>" let ?s1 = "s\<lparr>sy_pool := ?q\<rparr>"
  have "sys_step e s ?s1" by (rule sys_worker_quiet [OF close_deliveries]) (simp_all add: pool_of_def)
  moreover obtain s2 where s2: "(sys_step e)\<^sup>*\<^sup>* ?s1 s2" "sy_rs s2 = sy_rs s" "ended (pl_delivered (sy_pool s)) s2"
    using workers_end [of ?s1 e] assms(6,7) by (auto simp: pool_of_def)
  moreover have "(sys_step e)\<^sup>*\<^sup>* s2 (s2\<lparr>sy_rs := r\<rparr>)" using r(1) s2(2) by (intro net_star) simp
  ultimately have star: "(sys_step e)\<^sup>*\<^sup>* s (s2\<lparr>sy_rs := r\<rparr>)" by (meson converse_rtranclp_into_rtranclp rtranclp_trans)
  have "ended (pl_delivered (sy_pool s)) (s2\<lparr>sy_rs := r\<rparr>)" using s2(3) by (simp add: ended_def)
  from ended_star [OF _ this] have "ended (pl_delivered (sy_pool s)) u \<and> neutral_calls (rs_world r) (rs_world (sy_rs u))"
    if "(sys_step e)\<^sup>*\<^sup>* (s2\<lparr>sy_rs := r\<rparr>) u" for u using that by simp
  then show ?thesis using star r(2) by (intro exI [of _ "s2\<lparr>sy_rs := r\<rparr>"]) (auto simp: ended_def)
qed

theorem reconnect_does_not_resume_witness:
  "\<exists>t. (sys_step plain_env)\<^sup>*\<^sup>* \<lparr>sy_rs = served, sy_pool = start_workers [0, 1] (order_consumer NewRouter None) empty_world\<rparr> t \<and>
     serving (sy_rs t) \<and> (\<forall>c \<in> set (pl_pcs (sy_pool t)). c = Ended)"
proof -
  let ?s = "\<lparr>sy_rs = served, sy_pool = start_workers [0, 1] (order_consumer NewRouter None) empty_world\<rparr>"
  let ?s1 = "handler_step plain_env (handler_step plain_env (send_signal (watcher_fires 1 2 (Some ErrNoConnection) served)))"
  obtain r where r: "reconnect_loop plain_env 1 ?s1 = Some r" by (rule served_reconnects)
  have "rs_pc served = Waiting" "\<not> cl_closed (rs_client served)" "(1, 2) \<in> set (rs_watchers served)"
    by (simp_all add: served_def started_def fresh_client_def)
  then show ?thesis
    using reconnect_does_not_resume [of ?s 1 2 ?s1 plain_env ErrNoConnection 1 r] r by (auto simp: start_workers_def)
qed

end
