(* ===== verification/Senders.thy ===== *)
theory Senders
  imports Publisher
begin

text \<open>
  Several calls of \<open>Publish\<close> at the same time (\<open>internal/broker/publisher.go\<close>, \<open>Publish\<close> with confirms
  enabled, on a channel that stays). A call takes a delivery tag from an atomic counter, stores its
  entry in the table, sends the message and waits; nothing keeps the first and the third of these
  together. The broker numbers the messages of a channel in the order in which it receives them,
  starting with one, and confirms by that number: \<open>sn_wire\<close> lists the calls whose messages went out,
  in that order, and \<open>sn_answers\<close> the positions it has answered, with the answers.
\<close>

section \<open>State and steps\<close>

datatype sender =
    SIdle
  | STagged tag
  | SStored tag nat
  | SSent tag nat
  | SReturned tag "goerror option"

record senders =
  sn_pub :: pub
  sn_pcs :: "sender list"
  sn_wire :: "nat list"
  sn_answers :: "(nat \<times> bool) list"

definition senders_init :: "pub \<Rightarrow> nat \<Rightarrow> senders" where
  "senders_init p n = \<lparr>sn_pub = p, sn_pcs = replicate n SIdle, sn_wire = [], sn_answers = []\<rparr>"

text \<open>
  The next step of call \<open>i\<close>: \<open>r\<close> is the result of \<open>PublishWithContext\<close>, \<open>wk\<close> the branch its \<open>select\<close> takes.
\<close>

definition sender_step :: "goerror option \<Rightarrow> wake \<Rightarrow> nat \<Rightarrow> senders \<Rightarrow> senders" where
  "sender_step r wk i s =
     (case sn_pcs s ! i of
        SIdle \<Rightarrow>
          (case nextTag (sn_pub s) of (t, p) \<Rightarrow> s\<lparr>sn_pub := p, sn_pcs := (sn_pcs s)[i := STagged t]\<rparr>)
      | STagged t \<Rightarrow>
          (case registerPending t (sn_pub s) of (c, p) \<Rightarrow> s\<lparr>sn_pub := p, sn_pcs := (sn_pcs s)[i := SStored t c]\<rparr>)
      | SStored t c \<Rightarrow>
          (case r of
             Some err \<Rightarrow>
               s\<lparr>sn_pub := deletePending t (sn_pub s), sn_pcs := (sn_pcs s)[i := SReturned t (Some err)]\<rparr>
           | None \<Rightarrow> s\<lparr>sn_pcs := (sn_pcs s)[i := SSent t c], sn_wire := sn_wire s @ [i]\<rparr>)
      | SSent t c \<Rightarrow>
          (let x = await c wk (sn_pub s)
           in s\<lparr>sn_pub := (if x = None then sn_pub s else deletePending t (sn_pub s)),
                sn_pcs := (sn_pcs s)[i := SReturned t x]\<rparr>)
      | SReturned t x \<Rightarrow> s)"

text \<open>The broker's number of the message at a position of the wire.\<close>

definition wire_tag :: "nat \<Rightarrow> tag" where
  "wire_tag k = of_nat (Suc k)"

inductive senders_step :: "senders \<Rightarrow> senders \<Rightarrow> bool" where
  sender: "i < length (sn_pcs s) \<Longrightarrow> senders_step s (sender_step r wk i s)"
| confirmed: "k < length (sn_wire s) \<Longrightarrow> k \<notin> fst ` set (sn_answers s) \<Longrightarrow>
    processConfirmation (wire_tag k) v (sn_pub s) = Returns p \<Longrightarrow>
    senders_step s (s\<lparr>sn_pub := p, sn_answers := sn_answers s @ [(k, v)]\<rparr>)"

text \<open>A call that has its tag and has not sent its message yet.\<close>

fun in_flight :: "sender \<Rightarrow> bool" where
  "in_flight (STagged t) = True"
| "in_flight (SStored t c) = True"
| "in_flight _ = False"

text \<open>
  Steps under the discipline the code does not enforce: a tag is taken only while no other call
  is in flight, and sending does not fail.
\<close>

inductive ordered_step :: "senders \<Rightarrow> senders \<Rightarrow> bool" where
  take_turn: "i < length (sn_pcs s) \<Longrightarrow> sn_pcs s ! i = SIdle \<Longrightarrow> \<forall>c \<in> set (sn_pcs s). \<not> in_flight c \<Longrightarrow>
    ordered_step s (sender_step None wk i s)"
| proceed: "i < length (sn_pcs s) \<Longrightarrow> sn_pcs s ! i \<noteq> SIdle \<Longrightarrow> ordered_step s (sender_step None wk i s)"
| answered: "k < length (sn_wire s) \<Longrightarrow> k \<notin> fst ` set (sn_answers s) \<Longrightarrow>
    processConfirmation (wire_tag k) v (sn_pub s) = Returns p \<Longrightarrow>
    ordered_step s (s\<lparr>sn_pub := p, sn_answers := sn_answers s @ [(k, v)]\<rparr>)"

lemma ordered_is_step: "ordered_step s t \<Longrightarrow> senders_step s t"
  by (induction rule: ordered_step.induct) (auto intro: senders_step.intros)

section \<open>One call alone\<close>

text \<open>
  The steps of a single call, with other goroutines at work only while it waits, are \<open>Publish\<close>.
\<close>

lemma sender_is_Publish:
  assumes "ensureConfirmsSetup e cl p w = Returns (p0, w0)" "\<not> cl_closed cl" "cl_channel cl \<noteq> None"
    "PublisherConfirms (cl_config cl)" "sc_pre sc = []" "sc_mid sc = []"
    "channel_publish e (sc_client sc) ex rk msg w0 = Returns (r, w1)"
    "s = sender_step (map_option (\<lambda>err. NewPublishError ex rk (Some err)) r) wk 0
           (sender_step r' wk' 0 (sender_step r'' wk'' 0 (senders_init p0 1)))"
  shows "case r of
      Some err \<Rightarrow> Publish e cl sc ex rk msg p w = Returns (Some (NewPublishError ex rk (Some err)), sn_pub s, w1) \<and>
        sn_pcs s = [SReturned (pb_deliveryTag p0 + 1) (Some (NewPublishError ex rk (Some err)))]
    | None \<Rightarrow> (\<exists>c. sn_pcs s = [SSent (pb_deliveryTag p0 + 1) c] \<and>
        (\<forall>p3. bg_run (sc_wait sc) (sn_pub s) = Returns p3 \<longrightarrow>
          (\<exists>w2. Publish e cl sc ex rk msg p w =
            Returns (await c (sc_wake sc) p3, sn_pub (sender_step None (sc_wake sc) 0 (s\<lparr>sn_pub := p3\<rparr>)), w2))))"
  using assms
  by (auto simp: Publish_def sender_step_def senders_init_def nextTag_def registerPending_def make_chan_def Let_def
      split: option.split prod.split)

section \<open>The invariant of ordered calls\<close>

definition confirms_of :: "senders \<Rightarrow> bg_event set" where
  "confirms_of s = (\<lambda>(k, v). BgConfirm (wire_tag k) v) ` set (sn_answers s)"

fun sender_ok :: "senders \<Rightarrow> nat \<Rightarrow> sender \<Rightarrow> bool" where
  "sender_ok s i SIdle = True"
| "sender_ok s i (STagged t) = (t = wire_tag (length (sn_wire s)))"
| "sender_ok s i (SStored t c) = (t = wire_tag (length (sn_wire s)) \<and> tracked t c (confirms_of s) (sn_pub s))"
| "sender_ok s i (SSent t c) =
     ((\<exists>k < length (sn_wire s). sn_wire s ! k = i \<and> t = wire_tag k) \<and> tracked t c (confirms_of s) (sn_pub s))"
| "sender_ok s i (SReturned t x) =
     ((\<exists>k < length (sn_wire s). sn_wire s ! k = i \<and> t = wire_tag k) \<and> (x = None \<longrightarrow> BgConfirm t True \<in> confirms_of s))"

definition some_in_flight :: "sender list \<Rightarrow> bool" where
  "some_in_flight cs \<longleftrightarrow> (\<exists>i < length cs. in_flight (cs ! i))"

definition one_in_flight :: "sender list \<Rightarrow> bool" where
  "one_in_flight cs \<longleftrightarrow> (\<forall>i < length cs. \<forall>j < length cs. in_flight (cs ! i) \<longrightarrow> in_flight (cs ! j) \<longrightarrow> i = j)"

definition ordered_inv :: "senders \<Rightarrow> bool" where
  "ordered_inv s \<longleftrightarrow> pub_inv (sn_pub s) \<and> one_in_flight (sn_pcs s) \<and>
     pb_deliveryTag (sn_pub s) = of_nat (length (sn_wire s) + (if some_in_flight (sn_pcs s) then 1 else 0)) \<and>
     (\<forall>i < length (sn_pcs s). sender_ok s i (sn_pcs s ! i)) \<and> (\<forall>(k, v) \<in> set (sn_answers s). k < length (sn_wire s))"

lemma tracked_mono: "tracked t c E p \<Longrightarrow> E \<subseteq> E' \<Longrightarrow> tracked t c E' p"
  by (auto simp: tracked_def)

text \<open>What a step of another call or a confirmation leaves of what holds of a call.\<close>

lemma sender_ok_frame:
  assumes "sender_ok s i c" "\<And>t d. tracked t d (confirms_of s) (sn_pub s) \<Longrightarrow> tracked t d (confirms_of s') (sn_pub s')"
    "sn_wire s' = sn_wire s @ ys" "ys = [] \<or> \<not> in_flight c" "confirms_of s \<subseteq> confirms_of s'"
  shows "sender_ok s' i c"
proof (cases c)
  case (SReturned t x)
  with assms(1,3,5) show ?thesis by (auto simp: nth_append intro: exI [of _ k for k])
next
  case (SSent t d)
  with assms(1-3) show ?thesis by (auto simp: nth_append)
qed (use assms in auto)

lemma some_in_flight_set: "some_in_flight cs = (\<exists>c \<in> set cs. in_flight c)"
  by (metis some_in_flight_def in_set_conv_nth)

lemma in_flight_keep:
  assumes "i < length cs" "in_flight (cs ! i) = in_flight c"
  shows "some_in_flight (cs[i := c]) = some_in_flight cs" "one_in_flight (cs[i := c]) = one_in_flight cs"
  using assms by (auto simp: some_in_flight_def one_in_flight_def nth_list_update)

lemma in_flight_start:
  assumes "i < length cs" "\<not> some_in_flight cs" "in_flight c"
  shows "some_in_flight (cs[i := c])" "one_in_flight (cs[i := c])"
  using assms by (auto simp: some_in_flight_def one_in_flight_def nth_list_update)

lemma in_flight_land:
  assumes "i < length cs" "in_flight (cs ! i)" "\<not> in_flight c" "one_in_flight cs"
  shows "some_in_flight cs" "\<not> some_in_flight (cs[i := c])" "one_in_flight (cs[i := c])"
  using assms by (auto simp: some_in_flight_def one_in_flight_def nth_list_update)

text \<open>A step of call \<open>i\<close>, given what becomes of the table, the counter and the wire.\<close>

lemma ordered_invI:
  assumes "ordered_inv s" "i < length (sn_pcs s)" "sn_pcs s' = (sn_pcs s)[i := c]" "sn_answers s' = sn_answers s"
    "sn_wire s' = sn_wire s @ ys" "sender_ok s' i c"
    "\<And>t d. tracked t d (confirms_of s) (sn_pub s) \<Longrightarrow> tracked t d (confirms_of s) (sn_pub s')" "pub_inv (sn_pub s')"
    "ys = [] \<or> \<not> some_in_flight (sn_pcs s')" "one_in_flight (sn_pcs s')"
    "pb_deliveryTag (sn_pub s') = of_nat (length (sn_wire s') + (if some_in_flight (sn_pcs s') then 1 else 0))"
  shows "ordered_inv s'"
proof -
  have E: "confirms_of s' = confirms_of s" by (simp add: confirms_of_def assms(4))
  have "sender_ok s' j (sn_pcs s' ! j)" if j: "j < length (sn_pcs s')" for j
  proof (cases "j = i")
    case False
    then have n: "sn_pcs s' ! j = sn_pcs s ! j" using assms(3) by simp
    have "ys = [] \<or> \<not> in_flight (sn_pcs s ! j)" using assms(9) j n by (auto simp: some_in_flight_def)
    moreover have "sender_ok s j (sn_pcs s ! j)" using assms(1,3) j by (simp add: ordered_inv_def)
    ultimately show ?thesis unfolding n using assms(5,7) by (intro sender_ok_frame [of s j _ s' ys]) (auto simp: E)
  qed (use assms(2,3,6) in simp)
  moreover have "\<forall>(k, v) \<in> set (sn_answers s'). k < length (sn_wire s')" using assms(1,4,5) by (auto simp: ordered_inv_def)
  ultimately show ?thesis using assms(8,10,11) by (simp add: ordered_inv_def)
qed

lemma wire_tag_next: "of_nat n + 1 = wire_tag n"
  by (simp add: wire_tag_def)

lemma ordered_take:
  assumes "ordered_inv s" "i < length (sn_pcs s)" "sn_pcs s ! i = SIdle" "\<not> some_in_flight (sn_pcs s)"
  shows "ordered_inv (sender_step r wk i s)"
proof -
  let ?p = "snd (nextTag (sn_pub s))" and ?t = "wire_tag (length (sn_wire s))"
  let ?s = "s\<lparr>sn_pub := ?p, sn_pcs := (sn_pcs s)[i := STagged ?t]\<rparr>"
  have tag: "pb_deliveryTag (sn_pub s) = of_nat (length (sn_wire s))" using assms(1,4) by (simp add: ordered_inv_def)
  then have s': "sender_step r wk i s = ?s" using assms(3) by (simp add: sender_step_def nextTag_def wire_tag_def add.commute)
  have inv: "pub_inv ?p" using assms(1) by (intro nextTag_inv) (simp add: ordered_inv_def)
  show ?thesis unfolding s'
  proof (rule ordered_invI [OF assms(1,2)])
    show "tracked t d (confirms_of s) (sn_pub ?s)" if "tracked t d (confirms_of s) (sn_pub s)" for t d
      using tracked_nextTag [OF that] by simp
    show "pb_deliveryTag (sn_pub ?s) = of_nat (length (sn_wire ?s) + (if some_in_flight (sn_pcs ?s) then 1 else 0))"
      using in_flight_start [OF assms(2,4), of "STagged ?t"] tag by (simp add: nextTag_def)
  qed (use inv in_flight_start [OF assms(2,4), of "STagged ?t"] in auto)
qed

lemma ordered_store:
  assumes "ordered_inv s" "i < length (sn_pcs s)" "sn_pcs s ! i = STagged t"
  shows "ordered_inv (sender_step r wk i s)"
proof -
  obtain c p where r: "registerPending t (sn_pub s) = (c, p)" by fastforce
  let ?s = "s\<lparr>sn_pub := p, sn_pcs := (sn_pcs s)[i := SStored t c]\<rparr>"
  have s': "sender_step r wk i s = ?s" using assms(3) r by (simp add: sender_step_def)
  have inv: "pub_inv (sn_pub s)" using assms(1) by (simp add: ordered_inv_def)
  note keep = in_flight_keep [OF assms(2), of "SStored t c"]
  have ok: "sender_ok s i (STagged t)" using assms by (metis ordered_inv_def)
  show ?thesis unfolding s'
  proof (rule ordered_invI [OF assms(1,2)])
    show "sender_ok ?s i (SStored t c)"
      using ok registered_tracked [OF inv r, of "confirms_of ?s"] by simp
    show "tracked t' d (confirms_of s) (sn_pub ?s)" if "tracked t' d (confirms_of s) (sn_pub s)" for t' d
      using tracked_register [OF that, of t] r by simp
    show "pb_deliveryTag (sn_pub ?s) = of_nat (length (sn_wire ?s) + (if some_in_flight (sn_pcs ?s) then 1 else 0))"
      using assms(1,3) keep(1) by (simp add: ordered_inv_def registerPending_simps [OF r])
  qed (use assms(1,3) keep registerPending_inv [OF inv r] in \<open>auto simp: ordered_inv_def\<close>)
qed

lemma ordered_send:
  assumes "ordered_inv s" "i < length (sn_pcs s)" "sn_pcs s ! i = SStored t c"
  shows "ordered_inv (sender_step None wk i s)"
proof -
  let ?s = "s\<lparr>sn_pcs := (sn_pcs s)[i := SSent t c], sn_wire := sn_wire s @ [i]\<rparr>"
  have s': "sender_step None wk i s = ?s" using assms(3) by (simp add: sender_step_def)
  have land: "some_in_flight (sn_pcs s)" "\<not> some_in_flight (sn_pcs ?s)" "one_in_flight (sn_pcs ?s)"
    using in_flight_land [OF assms(2), of "SSent t c"] assms(1,3) by (simp_all add: ordered_inv_def)
  have ok: "sender_ok s i (SStored t c)" using assms by (metis ordered_inv_def)
  show ?thesis unfolding s'
  proof (rule ordered_invI [OF assms(1,2), where ys = "[i]"])
    have "\<exists>k < length (sn_wire ?s). sn_wire ?s ! k = i \<and> t = wire_tag k"
      using ok by (intro exI [of _ "length (sn_wire s)"]) simp
    moreover have "confirms_of ?s = confirms_of s" by (simp add: confirms_of_def)
    moreover have "tracked t c (confirms_of s) (sn_pub s)" using ok by (elim sender_ok.elims) simp_all
    ultimately show "sender_ok ?s i (SSent t c)" by simp
    show "pb_deliveryTag (sn_pub ?s) = of_nat (length (sn_wire ?s) + (if some_in_flight (sn_pcs ?s) then 1 else 0))"
      using assms(1) land(1,2) by (simp add: ordered_inv_def)
  qed (use assms(1) land in \<open>auto simp: ordered_inv_def\<close>)
qed

lemma ordered_return:
  assumes "ordered_inv s" "i < length (sn_pcs s)" "sn_pcs s ! i = SSent t c"
  shows "ordered_inv (sender_step r wk i s)"
proof -
  let ?x = "await c wk (sn_pub s)"
  let ?s = "s\<lparr>sn_pub := (if ?x = None then sn_pub s else deletePending t (sn_pub s)), sn_pcs := (sn_pcs s)[i := SReturned t ?x]\<rparr>"
  have s': "sender_step r wk i s = ?s" using assms(3) by (simp add: sender_step_def Let_def)
  have inv: "pub_inv (sn_pub s)" using assms(1) by (simp add: ordered_inv_def)
  note keep = in_flight_keep [OF assms(2), of "SReturned t ?x"]
  have ok: "sender_ok s i (SSent t c)" using assms by (metis ordered_inv_def)
  show ?thesis unfolding s'
  proof (rule ordered_invI [OF assms(1,2)])
    show "sender_ok ?s i (SReturned t ?x)"
      using ok await_None [of c wk "sn_pub s"] by (auto simp: confirms_of_def tracked_def)
    show "tracked t' d (confirms_of s) (sn_pub ?s)" if "tracked t' d (confirms_of s) (sn_pub s)" for t' d
      using that tracked_delete [OF that, of t] by simp
    show "pb_deliveryTag (sn_pub ?s) = of_nat (length (sn_wire ?s) + (if some_in_flight (sn_pcs ?s) then 1 else 0))"
      using assms(1,3) keep(1) by (simp add: ordered_inv_def deletePending_def)
  qed (use assms(1,3) keep inv deletePending_inv in \<open>auto simp: ordered_inv_def\<close>)
qed

lemma ordered_answer:
  assumes "ordered_inv s" "k < length (sn_wire s)" "processConfirmation (wire_tag k) v (sn_pub s) = Returns p"
  shows "ordered_inv (s\<lparr>sn_pub := p, sn_answers := sn_answers s @ [(k, v)]\<rparr>)" (is "ordered_inv ?s")
proof -
  have E: "confirms_of ?s = insert (BgConfirm (wire_tag k) v) (confirms_of s)" by (simp add: confirms_of_def)
  have inv: "pub_inv (sn_pub s)" using assms(1) by (simp add: ordered_inv_def)
  have tr: "tracked t d (confirms_of ?s) p" if "tracked t d (confirms_of s) (sn_pub s)" for t d
  proof -
    have "tracked t d (confirms_of ?s) (sn_pub s)" using that by (rule tracked_mono) (auto simp: E)
    from tracked_step [OF this, of "BgConfirm (wire_tag k) v"] assms(3) show ?thesis by (simp add: E)
  qed
  have "sender_ok ?s j (sn_pcs s ! j)" if "j < length (sn_pcs s)" for j
    using assms(1) that tr by (intro sender_ok_frame [of s j _ ?s "[]"]) (auto simp: ordered_inv_def E)
  moreover have "pub_inv p" "pb_deliveryTag p = pb_deliveryTag (sn_pub s)"
    using processConfirmation_inv [OF inv, of "wire_tag k" v] assms(3) processConfirmation_hit [OF inv, of "wire_tag k" _ v]
    by (auto simp: processConfirmation_def split: option.splits)
  ultimately show ?thesis using assms(1,2) by (auto simp: ordered_inv_def)
qed

lemma sender_stays: "sn_pcs s ! i = SReturned t x \<Longrightarrow> sender_step r wk i s = s"
  by (simp add: sender_step_def)

lemma ordered_inv_step:
  assumes "ordered_step s t" "ordered_inv s"
  shows "ordered_inv t"
  using assms
proof (induction rule: ordered_step.induct)
  case (take_turn i s wk)
  then show ?case by (intro ordered_take) (auto simp: some_in_flight_set)
next
  case (proceed i s wk)
  then show ?case
    by (cases "sn_pcs s ! i") (auto intro: ordered_store ordered_send ordered_return simp: sender_stays)
next
  case (answered k s v p)
  then show ?case by (intro ordered_answer)
qed

interpretation ordered: invariant_system "\<lambda>s. s = senders_init p n \<and> pub_inv p \<and> pb_deliveryTag p = 0" ordered_step ordered_inv for p n
proof
  show "ordered_inv s" if "s = senders_init p n \<and> pub_inv p \<and> pb_deliveryTag p = 0" for s
    using that by (auto simp: senders_init_def ordered_inv_def one_in_flight_def some_in_flight_def)
qed (rule ordered_inv_step)

section \<open>Properties\<close>

lemma wire_tag_inj: "wire_tag j = wire_tag k \<Longrightarrow> j < n \<Longrightarrow> k < n \<Longrightarrow> n < 2 ^ 64 \<Longrightarrow> j = k"
proof -
  assume "wire_tag j = wire_tag k" "j < n" "k < n" "n < 2 ^ 64"
  then have "unat (wire_tag j) = unat (wire_tag k)" "Suc j < 2 ^ 64" "Suc k < 2 ^ 64" by simp_all
  then show ?thesis by (simp only: wire_tag_def unat_of_nat) (simp add: take_bit_eq_mod)
qed

text \<open>
  C11. When the messages leave in the order of their tags, a call that reports success owns a
  confirmed message. If every call takes its tag and sends its message before the next one
  takes a tag, and no send fails, then under every interleaving of waits and confirmations a
  \<open>Publish\<close> that returns nil has its own message on the wire, and the broker accepted exactly that
  one.
\<close>

theorem ordered_publishers_own_answer:
  assumes "reach (\<lambda>s. s = senders_init p n \<and> pub_inv p \<and> pb_deliveryTag p = 0) ordered_step s"
    "i < length (sn_pcs s)" "sn_pcs s ! i = SReturned t None" "length (sn_wire s) < 2 ^ 64"
  shows "\<exists>k < length (sn_wire s). sn_wire s ! k = i \<and> t = wire_tag k \<and> (k, True) \<in> set (sn_answers s)"
proof -
  have inv: "ordered_inv s" using assms(1) by (rule ordered.reach_inv)
  then have "sender_ok s i (SReturned t None)" using assms(2,3) by (metis ordered_inv_def)
  then obtain k where k: "k < length (sn_wire s)" "sn_wire s ! k = i" "t = wire_tag k" "BgConfirm t True \<in> confirms_of s"
    by auto
  then obtain j where j: "(j, True) \<in> set (sn_answers s)" "t = wire_tag j" by (auto simp: confirms_of_def)
  then have "j < length (sn_wire s)" using inv by (auto simp: ordered_inv_def)
  then have "j = k" using wire_tag_inj [OF _ _ k(1) assms(4), of j] j(2) k(3) by simp
  then show ?thesis using j(1) k by blast
qed

theorem ordered_publishers_own_answer_witness:
  "\<exists>s t. reach (\<lambda>s. s = senders_init idle_pub 1 \<and> pub_inv idle_pub \<and> pb_deliveryTag idle_pub = 0) ordered_step s \<and>
     sn_pcs s ! 0 = SReturned t None \<and> (0, True) \<in> set (sn_answers s)"
proof -
  let ?R = "reach (\<lambda>s. s = senders_init idle_pub 1 \<and> pub_inv idle_pub \<and> pb_deliveryTag idle_pub = 0) ordered_step"
  let ?s0 = "senders_init idle_pub 1"
  define s1 where "s1 = sender_step None WResult 0 ?s0"
  define s2 where "s2 = sender_step None WResult 0 s1"
  define s3 where "s3 = sender_step None WResult 0 s2"
  have pcs: "sn_pcs s1 = [STagged 1]" "sn_pcs s2 = [SStored 1 0]" "sn_pcs s3 = [SSent 1 0]" "sn_wire s3 = [0]"
    "sn_answers s3 = []"
    by (simp_all add: s1_def s2_def s3_def sender_step_def senders_init_def nextTag_def registerPending_def make_chan_def idle_pub_def)
  have "?R ?s0" using idle_pub_inv by (intro reach_init) (simp add: idle_pub_def)
  then have "?R s1" unfolding s1_def by (rule reach_step) (rule take_turn, simp_all add: senders_init_def)
  then have "?R s2" unfolding s2_def by (rule reach_step) (rule proceed, simp_all add: pcs)
  then have R3: "?R s3" unfolding s3_def by (rule reach_step) (rule proceed, simp_all add: pcs)
  obtain q where q: "processConfirmation (wire_tag 0) True (sn_pub s3) = Returns q" "recv_chan 0 q = Got True"
    by (simp add: s1_def s2_def s3_def sender_step_def senders_init_def nextTag_def registerPending_def make_chan_def idle_pub_def wire_tag_def
        processConfirmation_def send_chan_def close_chan_def deletePending_def recv_chan_def)
  let ?s4 = "s3\<lparr>sn_pub := q, sn_answers := sn_answers s3 @ [(0, True)]\<rparr>" let ?s5 = "sender_step None WResult 0 ?s4"
  from R3 have "?R ?s4" by (rule reach_step) (rule answered, simp_all add: pcs q(1))
  then have R5: "?R ?s5" by (rule reach_step) (rule proceed, simp_all add: pcs)
  have s5: "length (sn_pcs ?s5) = 1" "sn_pcs ?s5 ! 0 = SReturned 1 None" "length (sn_wire ?s5) = 1"
    using q(2) pcs by (simp_all add: sender_step_def await_def Let_def)
  have "\<exists>k < length (sn_wire ?s5). sn_wire ?s5 ! k = 0 \<and> 1 = wire_tag k \<and> (k, True) \<in> set (sn_answers ?s5)"
    using ordered_publishers_own_answer [OF R5, of 0 1] s5 by simp
  then have "(0, True) \<in> set (sn_answers ?s5)" using s5(3) by auto
  with R5 s5(2) show ?thesis by blast
qed

text \<open>
  C22. Concurrent calls can exchange their answers. The code does not keep the tag and the send
  together: of two calls on a fresh channel, the one with the second tag may be the first on
  the wire. If the broker then refuses the first message it received and accepts the second,
  the call whose message was refused returns nil, and the call whose message was accepted
  reports it as not confirmed.
\<close>

theorem concurrent_publishers_swap_answers:
  assumes "pub_inv p" "pb_pending p = []" "pb_deliveryTag p = 0"
  shows "\<exists>s. reach (\<lambda>s. s = senders_init p 2) senders_step s \<and> sn_wire s = [1, 0] \<and>
    sn_answers s = [(0, False), (1, True)] \<and> sn_pcs s = [SReturned 1 (Some ErrPublishNotConfirmed), SReturned 2 None]"
proof -
  let ?R = "reach (\<lambda>s. s = senders_init p 2) senders_step" and ?n = "pb_nchans p"
  let ?step = "sender_step None WResult"
  let ?s0 = "senders_init p 2"
  define s6 where "s6 = ?step 0 (?step 1 (?step 1 (?step 0 (?step 1 (?step 0 ?s0)))))"
  have step: "?R (?step i s)" if "?R s" "i < length (sn_pcs s)" for i s using that by (intro reach_step [OF that(1)] sender)
  have "?R ?s0" by (rule reach_init) simp
  moreover note step
  moreover have "length (sn_pcs (?step i s)) = length (sn_pcs s)" for i s
    by (simp add: sender_step_def Let_def split: sender.split prod.split)
  ultimately have R6: "?R s6" by (simp add: s6_def senders_init_def)
  have 6: "sn_wire s6 = [1, 0]" "sn_answers s6 = []" "sn_pcs s6 = [SSent 1 ?n, SSent 2 (Suc ?n)]"
    "pb_pending (sn_pub s6) = [(1, ?n), (2, Suc ?n)]"
    "pb_chans (sn_pub s6) ?n = \<lparr>rc_buf = [], rc_closed = False\<rparr>"
    "pb_chans (sn_pub s6) (Suc ?n) = \<lparr>rc_buf = [], rc_closed = False\<rparr>"
    using assms(2,3)
    by (simp_all add: s6_def sender_step_def senders_init_def nextTag_def registerPending_def make_chan_def numeral_2_eq_2)
  obtain q where q: "processConfirmation (wire_tag 0) False (sn_pub s6) = Returns q" "pb_chans q ?n = \<lparr>rc_buf = [False], rc_closed = True\<rparr>"
    "pb_pending q = [(2, Suc ?n)]" "pb_chans q (Suc ?n) = \<lparr>rc_buf = [], rc_closed = False\<rparr>"
    using 6(4-6) by (simp add: processConfirmation_def send_chan_def close_chan_def deletePending_def recv_chan_def wire_tag_def)
  let ?s7 = "s6\<lparr>sn_pub := q, sn_answers := sn_answers s6 @ [(0, False)]\<rparr>"
  have R7: "?R ?s7" by (rule reach_step [OF R6]) (rule confirmed, simp_all add: 6 q(1))
  obtain u where u: "processConfirmation (wire_tag 1) True q = Returns u" "recv_chan ?n u = Got False" "recv_chan (Suc ?n) u = Got True"
    using q(2-4) by (simp add: processConfirmation_def send_chan_def close_chan_def deletePending_def recv_chan_def wire_tag_def)
  let ?s8 = "?s7\<lparr>sn_pub := u, sn_answers := sn_answers ?s7 @ [(1, True)]\<rparr>"
  have R8: "?R ?s8" by (rule reach_step [OF R7]) (rule confirmed, use u(1) in \<open>simp_all add: 6\<close>)
  let ?s9 = "?s8\<lparr>sn_pcs := [SSent 1 ?n, SReturned 2 None]\<rparr>"
  let ?s10 = "?s9\<lparr>sn_pub := deletePending 1 u, sn_pcs := [SReturned 1 (Some ErrPublishNotConfirmed), SReturned 2 None]\<rparr>"
  have "?step 1 ?s8 = ?s9" using u(3) 6(3) by (simp add: sender_step_def await_def Let_def)
  with step [OF R8, of 1] have R9: "?R ?s9" by (simp add: 6(3))
  have "?step 0 ?s9 = ?s10" using u(2) by (simp add: sender_step_def await_def Let_def)
  with step [OF R9, of 0] have "?R ?s10" by simp
  then show ?thesis using 6(1,2) by (intro exI [of _ ?s10]) simp
qed

theorem concurrent_publishers_swap_answers_witness:
  "\<exists>s. reach (\<lambda>s. s = senders_init idle_pub 2) senders_step s \<and> sn_pcs s ! 1 = SReturned 2 None \<and>
     sn_wire s ! 0 = 1 \<and> (0, False) \<in> set (sn_answers s)"
proof -
  from concurrent_publishers_swap_answers [OF idle_pub_inv] obtain s where
    s: "reach (\<lambda>s. s = senders_init idle_pub 2) senders_step s" "sn_wire s = [1, 0]" "sn_answers s = [(0, False), (1, True)]"
      "sn_pcs s = [SReturned 1 (Some ErrPublishNotConfirmed), SReturned 2 None]"
    by (auto simp: idle_pub_def)
  then show ?thesis by (intro exI [of _ s]) simp
qed

end
