(* ===== verification/Broker_Tags.thy ===== *)
theory Broker_Tags
  imports Client_Calls Publisher
begin

text \<open>
  The publisher numbers its messages itself and starts over when it meets a new channel
  (\<open>ensureConfirmsSetup\<close>); the broker numbers the messages of a channel in the order in which they
  are sent. This theory puts the publisher next to the reconnection goroutine and relates
  the two numberings: they agree as long as no call of \<open>Publish\<close> overlaps another one or a
  reconnect and no send failed on the current channel, across any number of reconnects, and then a reported
  success is the broker's confirmation of that very message. A reconnect in the middle of a
  call breaks the agreement for the rest of the channel's life.
\<close>

section \<open>The broker's numbering\<close>

fun published_on :: "nat \<Rightarrow> amqp_call \<Rightarrow> bool" where
  "published_on k (PublishWithContext ch ex rk m i msg h) = (ch = k)"
| "published_on k _ = False"

text \<open>How many messages have been sent on a channel: if none was refused, the number the broker gives the last of them.\<close>

definition sent_on :: "nat \<Rightarrow> amqp_call list \<Rightarrow> nat" where
  "sent_on k cs = length (filter (published_on k) cs)"

lemma sent_on_simps [simp]:
  "sent_on k [] = 0" "sent_on k (cs @ ds) = sent_on k cs + sent_on k ds"
  "sent_on k (c # cs) = (if published_on k c then 1 else 0) + sent_on k cs"
  by (simp_all add: sent_on_def)

lemma client_calls_sent: "made client_call w w' \<Longrightarrow> sent_on k (w_calls w') = sent_on k (w_calls w)"
proof -
  have "\<not> published_on k c" if "client_call c" for c using that by (cases c) simp_all
  then have "list_all client_call cs \<Longrightarrow> sent_on k cs = 0" for cs by (induction cs) (auto simp: sent_on_def)
  then show "made client_call w w' \<Longrightarrow> ?thesis" by (auto simp: made_def)
qed

text \<open>How far the publisher's count is behind the broker's on the client's channel.\<close>

definition lag :: "pub \<Rightarrow> nat \<Rightarrow> amqp_call list \<Rightarrow> tag" where
  "lag p ch cs = of_nat (sent_on ch cs) - (if pb_channelID p = Some ch then pb_deliveryTag p else 0)"

section \<open>Calls that nothing overlaps\<close>

text \<open>Events that neither take a tag nor reset the table: confirmations, closed streams, cleanups.\<close>

fun keeps_tag :: "bg_event \<Rightarrow> bool" where
  "keeps_tag BgNextTag = False"
| "keeps_tag (BgReset k) = False"
| "keeps_tag _ = True"

definition alone :: "publish_script \<Rightarrow> bool" where
  "alone sc \<longleftrightarrow> list_all keeps_tag (sc_pre sc @ sc_mid sc @ sc_wait sc)"

lemma close_all_tag: "close_all cs p = Returns p' \<Longrightarrow> pb_deliveryTag p' = pb_deliveryTag p \<and> pb_channelID p' = pb_channelID p"
proof (induction cs arbitrary: p)
  case (Cons c cs)
  then show ?case by (fastforce simp: close_chan_def split: if_splits)
qed simp

lemma keeps_tag_step:
  assumes "bg_step x p = Returns p'" "keeps_tag x"
  shows "pb_deliveryTag p' = pb_deliveryTag p \<and> pb_channelID p' = pb_channelID p"
proof (cases x)
  case BgConfirmsClosed
  then show ?thesis using assms(1) close_all_tag by (auto simp: clearPending_def)
qed (use assms in \<open>auto simp: processConfirmation_def send_chan_def close_chan_def deletePending_def registerPending_def
    make_chan_def split: option.splits if_splits\<close>)

lemma keeps_tag_run:
  "bg_run xs p = Returns p' \<Longrightarrow> list_all keeps_tag xs \<Longrightarrow>
    pb_deliveryTag p' = pb_deliveryTag p \<and> pb_channelID p' = pb_channelID p"
proof (induction xs arbitrary: p)
  case (Cons x xs)
  then obtain q where "bg_step x p = Returns q" "bg_run xs q = Returns p'" by auto
  with Cons keeps_tag_step show ?case by fastforce
qed simp

lemma setup_tag:
  assumes "ensureConfirmsSetup e cl p w = Returns (p0, w0)" "PublisherConfirms (cl_config cl)" "cl_channel cl = Some ch"
  shows "pb_channelID p0 = Some ch \<and> pb_deliveryTag p0 = (if pb_channelID p = Some ch then pb_deliveryTag p else 0) \<and>
    (if pb_channelID p = Some ch then w_calls w0 = w_calls w else w_calls w0 = w_calls w @ [NotifyPublish ch])"
proof (cases "pb_channelID p = Some ch")
  case True
  then show ?thesis using assms by (auto simp: ensureConfirmsSetup_def)
next
  case False
  then have "\<exists>q. confirmReset (Some ch) p = Returns q \<and> pb_deliveryTag p0 = pb_deliveryTag q \<and> pb_channelID p0 = pb_channelID q \<and>
      w_calls w0 = w_calls w @ [NotifyPublish ch]"
    using assms by (auto simp: ensureConfirmsSetup_def close_done_def call_def Let_def split: if_splits)
  then show ?thesis
    using False by (auto simp: confirmReset_def clearPending_def Let_def split: if_splits dest: close_all_tag)
qed

lemma tag_cleanup [simp]:
  "pb_deliveryTag (deletePending t p) = pb_deliveryTag p" "pb_channelID (deletePending t p) = pb_channelID p"
  by (simp_all add: deletePending_def)

text \<open>What a call does to the two counts, sends that fail included.\<close>

lemma Publish_numbers:
  assumes "Publish e cl sc ex rk msg p w = Returns (x, p', w')" "pub_inv p" "PublisherConfirms (cl_config cl)" "alone sc"
    "cl_channel cl = Some ch" "cl_channel (sc_client sc) = Some ch'" "n = (if cl_closed cl then 0 else 1)"
  shows "pub_inv p' \<and> pb_channelID p' = Some ch \<and>
    pb_deliveryTag p' = (if pb_channelID p = Some ch then pb_deliveryTag p else 0) + of_nat n \<and>
    (\<exists>new. w_calls w' = w_calls w @ new \<and> (pb_channelID p = Some ch \<or> NotifyPublish ch \<in> set new) \<and>
      (\<forall>k. sent_on k new = (if k = ch' then n else 0)))"
proof (cases "cl_closed cl")
  case True
  then obtain p0 w0 where 0: "ensureConfirmsSetup e cl p w = Returns (p0, w0)" "p' = p0" "w' = w0"
    using assms(1) by (auto simp: Publish_def)
  from setup_tag [OF 0(1) assms(3,5)] setup_inv [OF assms(2) 0(1)] show ?thesis
    using True assms(7) 0 by (auto split: if_splits)
next
  case False
  have ne: "cl_channel cl \<noteq> None" using assms(5) by simp
  obtain p0 w0 t pr c p1 p2 k r w1 where st: "ensureConfirmsSetup e cl p w = Returns (p0, w0)" "t = pb_deliveryTag p0 + 1"
    "bg_run (sc_pre sc) (snd (nextTag p0)) = Returns pr" "pub_inv pr" "registerPending t pr = (c, p1)"
    "bg_run (sc_mid sc) p1 = Returns p2" "cl_channel (sc_client sc) = Some k"
    "call_err e (PublishWithContext k ex rk False False msg (map_snapshot (w_heap w0) (p_Headers msg))) w0 = (r, w1)"
    and fail: "\<And>err. r = Some err \<Longrightarrow> x = Some (NewPublishError ex rk (Some err)) \<and> p' = deletePending t p2"
    and ok: "r = None \<Longrightarrow> \<exists>p3. bg_run (sc_wait sc) p2 = Returns p3 \<and> x = await c (sc_wake sc) p3 \<and>
       p' = (if x = None then p3 else deletePending t p3) \<and> w_calls w' = w_calls w1"
    and w': "w_calls w' = w_calls w1"
    by (rule Publish_stages [OF assms(1-3) False ne]) (rule that, assumption+)
  have inv2: "pub_inv p2" using bg_table.run_inv [OF registerPending_inv [OF st(4,5)] st(6)] .
  have last: "pub_inv p' \<and> pb_deliveryTag p' = pb_deliveryTag p2 \<and> pb_channelID p' = pb_channelID p2"
  proof (cases r)
    case None
    with ok obtain p3 where p3: "bg_run (sc_wait sc) p2 = Returns p3" "p' = (if x = None then p3 else deletePending t p3)" by blast
    have "pub_inv p3" using bg_table.run_inv [OF inv2 p3(1)] .
    then show ?thesis using p3(2) deletePending_inv keeps_tag_run [OF p3(1)] assms(4) by (simp add: alone_def)
  next
    case (Some err)
    then show ?thesis using fail inv2 deletePending_inv by simp
  qed
  have "pb_channelID p1 = pb_channelID pr" using st(5) by (auto simp: registerPending_def make_chan_def)
  then have "pb_deliveryTag p' = pb_deliveryTag p0 + 1 \<and> pb_channelID p' = pb_channelID p0"
    using keeps_tag_run [OF st(3)] keeps_tag_run [OF st(6)] registerPending_simps [OF st(5)] assms(4) last
    by (auto simp: alone_def nextTag_def)
  moreover have "w_calls w' = w_calls w0 @ [PublishWithContext ch' ex rk False False msg (map_snapshot (w_heap w0) (p_Headers msg))]"
    using call_err_calls [OF st(8)] w' st(7) assms(6) by simp
  ultimately show ?thesis
    using last setup_tag [OF st(1) assms(3,5)] False assms(7) by (auto split: if_splits)
qed

section \<open>Publisher and client side by side\<close>

text \<open>One call, on the client as it is throughout the call.\<close>

inductive publish_step :: "env \<Rightarrow> client \<Rightarrow> pub \<times> world \<Rightarrow> pub \<times> world \<Rightarrow> bool" for e cl where
  publish_step: "Publish e cl sc ex rk msg p w = Returns (x, p', w') \<Longrightarrow> alone sc \<Longrightarrow> sc_client sc = cl \<Longrightarrow>
    \<forall>err. x \<noteq> Some (NewPublishError ex rk (Some err)) \<Longrightarrow> publish_step e cl (p, w) (p', w')"

record link =
  lk_rs :: rstate
  lk_pub :: pub
  lk_failed :: "nat list"

text \<open>\<open>lk_failed\<close> lists the channels on which a send failed.\<close>

inductive link_step :: "env \<Rightarrow> link \<Rightarrow> link \<Rightarrow> bool" for e where
  net: "any_step e (lk_rs s) r \<Longrightarrow> link_step e s (s\<lparr>lk_rs := r\<rparr>)"
| send: "publish_step e (rs_client (lk_rs s)) (lk_pub s, rs_world (lk_rs s)) (p, w) \<Longrightarrow>
    link_step e s (s\<lparr>lk_pub := p, lk_rs := (lk_rs s)\<lparr>rs_world := w\<rparr>\<rparr>)"
| send_failed: "Publish e (rs_client (lk_rs s)) sc ex rk msg (lk_pub s) (rs_world (lk_rs s)) =
      Returns (Some (NewPublishError ex rk (Some err)), p, w) \<Longrightarrow> alone sc \<Longrightarrow> sc_client sc = rs_client (lk_rs s) \<Longrightarrow>
    cl_channel (rs_client (lk_rs s)) = Some ch \<Longrightarrow>
    link_step e s (s\<lparr>lk_pub := p, lk_rs := (lk_rs s)\<lparr>rs_world := w\<rparr>, lk_failed := ch # lk_failed s\<rparr>)"
| between: "bg_step x (lk_pub s) = Returns p \<Longrightarrow> keeps_tag x \<Longrightarrow> link_step e s (s\<lparr>lk_pub := p\<rparr>)"

text \<open>The state after \<open>New\<close> and \<open>NewPublisher\<close>.\<close>

definition link_init :: "env \<Rightarrow> Config \<Rightarrow> link \<Rightarrow> bool" where
  "link_init e cfg s \<longleftrightarrow> (\<exists>w cl w1 p w2. broker_New e cfg w = (Inr cl, w1) \<and> NewPublisher e cl w1 = (p, w2) \<and>
     s = \<lparr>lk_rs = started cl w2, lk_pub = p, lk_failed = []\<rparr>)"

text \<open>A channel the broker opens is a new one: it has not been published on or listened to.\<close>

fun uses_channel :: "nat \<Rightarrow> amqp_call \<Rightarrow> bool" where
  "uses_channel k (PublishWithContext ch ex rk m i msg h) = (ch = k)"
| "uses_channel k (NotifyPublish ch) = (ch = k)"
| "uses_channel k _ = False"

definition fresh_channels :: "env \<Rightarrow> bool" where
  "fresh_channels e \<longleftrightarrow> (\<forall>conn w ch w'. call_id e (OpenChannel conn) w = (Inr ch, w') \<longrightarrow> \<not> list_ex (uses_channel ch) (w_calls w))"

definition link_inv :: "link \<Rightarrow> bool" where
  "link_inv s \<longleftrightarrow> PublisherConfirms (cl_config (rs_client (lk_rs s))) \<and> pub_inv (lk_pub s) \<and>
     (\<forall>k. pb_channelID (lk_pub s) = Some k \<longrightarrow> NotifyPublish k \<in> set (w_calls (rs_world (lk_rs s)))) \<and>
     (\<exists>ch. cl_channel (rs_client (lk_rs s)) = Some ch \<and>
       (ch \<notin> set (lk_failed s) \<longrightarrow> lag (lk_pub s) ch (w_calls (rs_world (lk_rs s))) = 0))"

lemma publish_step_lag:
  assumes "publish_step e cl (p, w) (p', w')" "pub_inv p" "PublisherConfirms (cl_config cl)" "cl_channel cl = Some ch"
  shows "pub_inv p' \<and> pb_channelID p' = Some ch \<and> lag p' ch (w_calls w') = lag p ch (w_calls w) \<and>
    set (w_calls w) \<subseteq> set (w_calls w') \<and> (pb_channelID p = Some ch \<or> NotifyPublish ch \<in> set (w_calls w'))"
  using assms(1)
proof cases
  case (publish_step sc ex rk msg x)
  then have "cl_channel (sc_client sc) = Some ch" using assms(4) by simp
  from Publish_numbers [OF publish_step(1) assms(2,3) publish_step(2) assms(4) this refl]
  show ?thesis by (auto simp: lag_def)
qed

lemma new_channel_unused:
  assumes "new_channel e w ch w'" "fresh_channels e"
  shows "sent_on ch (w_calls w') = 0 \<and> NotifyPublish ch \<notin> set (w_calls w')"
proof -
  obtain conn w1 w2 where n: "made client_call w w1" "call_id e (OpenChannel conn) w1 = (Inr ch, w2)" "made client_call w2 w'"
    using assms(1) by (auto simp: new_channel_def)
  have unused: "\<not> list_ex (uses_channel ch) (w_calls w1)" using assms(2) n(2) by (auto simp: fresh_channels_def)
  have "published_on ch c \<Longrightarrow> uses_channel ch c" for c by (cases c) simp_all
  with unused have "sent_on ch (w_calls w1) = 0" by (auto simp: sent_on_def list_ex_iff filter_empty_conv)
  moreover have "w_calls w2 = w_calls w1 @ [OpenChannel conn]" using n(2) by (auto simp: call_id_def call_def)
  moreover obtain new where "w_calls w' = w_calls w2 @ new" "list_all client_call new" using n(3) by (auto simp: made_def)
  ultimately show ?thesis
    using client_calls_sent [OF n(3), of ch] unused by (force simp: list_ex_iff list_all_iff)
qed

lemma link_inv_step:
  assumes "link_step e s t" "fresh_channels e" "link_inv s"
  shows "link_inv t"
  using assms(1,3)
proof (induction rule: link_step.induct)
  case (net s r)
  let ?w = "rs_world (lk_rs s)" and ?p = "lk_pub s"
  have calls: "made client_call ?w (rs_world r)" using net(1) by (rule any_step_made)
  then have sub: "set (w_calls ?w) \<subseteq> set (w_calls (rs_world r))" by (auto simp: made_def)
  note ch = any_step_channel [OF net(1)]
  from net(2) obtain k where k: "cl_channel (rs_client (lk_rs s)) = Some k"
    "k \<notin> set (lk_failed s) \<longrightarrow> lag ?p k (w_calls ?w) = 0" by (auto simp: link_inv_def)
  have "\<exists>ch. cl_channel (rs_client r) = Some ch \<and> (ch \<notin> set (lk_failed s) \<longrightarrow> lag ?p ch (w_calls (rs_world r)) = 0)"
  proof (cases "cl_channel (rs_client r) = Some k")
    case True
    then show ?thesis using k(2) client_calls_sent [OF calls, of k] by (simp add: lag_def)
  next
    case False
    then obtain n where n: "cl_channel (rs_client r) = Some n" "new_channel e ?w n (rs_world r)" using ch k(1) by auto
    have "pb_channelID ?p \<noteq> Some n"
      using new_channel_unused [OF n(2) assms(2)] net(2) sub by (auto simp: link_inv_def)
    then show ?thesis using n new_channel_unused [OF n(2) assms(2)] by (simp add: lag_def)
  qed
  then show ?case using net(2) ch sub by (auto simp: link_inv_def)
next
  case (send s p w)
  then obtain ch where "cl_channel (rs_client (lk_rs s)) = Some ch"
    "ch \<notin> set (lk_failed s) \<longrightarrow> lag (lk_pub s) ch (w_calls (rs_world (lk_rs s))) = 0" by (auto simp: link_inv_def)
  with publish_step_lag [OF send(1)] send(2) show ?case by (auto simp: link_inv_def)
next
  case (send_failed s sc ex rk msg err p w ch)
  then have "cl_channel (sc_client sc) = Some ch" "pub_inv (lk_pub s)" "PublisherConfirms (cl_config (rs_client (lk_rs s)))"
    by (simp_all add: link_inv_def)
  from Publish_numbers [OF send_failed(1) this(2,3) send_failed(2,4) this(1) refl] send_failed(4,5) show ?case
    by (auto simp: link_inv_def)
next
  case (between x s p)
  then have "pub_inv p" using bg_step_inv [of "lk_pub s" x] by (auto simp: link_inv_def)
  moreover have "pb_channelID p = pb_channelID (lk_pub s)" "lag p = lag (lk_pub s)"
    using keeps_tag_step [OF between(1,2)] by (simp_all add: lag_def fun_eq_iff)
  ultimately show ?case using between(3) by (simp add: link_inv_def)
qed

lemma link_inv_init:
  assumes "link_init e cfg s" "fresh_channels e" "PublisherConfirms cfg"
  shows "link_inv s"
proof -
  obtain w cl w1 p w2 where s: "broker_New e cfg w = (Inr cl, w1)" "NewPublisher e cl w1 = (p, w2)"
    "s = \<lparr>lk_rs = started cl w2, lk_pub = p, lk_failed = []\<rparr>" using assms(1) by (auto simp: link_init_def)
  note new = broker_New_channel [OF s(1)]
  obtain ch where ch: "cl_channel cl = Some ch" "new_channel e w ch w1" "cl_config cl = cfg"
    using connect_made [OF new(1)] new(2,3) by auto
  have "sent_on ch (w_calls w1) = 0" using new_channel_unused [OF ch(2) assms(2)] by simp
  then show ?thesis
    using s(2,3) ch(1,3) assms(3)
    by (auto simp: link_inv_def NewPublisher_def setupConfirms_def started_def pub_inv_def lag_def call_def Let_def)
qed

interpretation link: invariant_system "link_init e cfg" "link_step e"
    "\<lambda>s. fresh_channels e \<longrightarrow> PublisherConfirms cfg \<longrightarrow> link_inv s" for e cfg
  by unfold_locales (auto intro: link_inv_init link_inv_step)

text \<open>With a lag of \<open>n\<close>, a success is owed to the confirmation of the message \<open>n\<close> places earlier.\<close>

lemma success_answer:
  assumes "Publish e cl sc ex rk msg p w = Returns (None, p', w')" "pub_inv p" "PublisherConfirms (cl_config cl)" "alone sc"
    "cl_channel cl = Some ch" "sc_client sc = cl"
  shows "\<exists>hdr. last (w_calls w') = PublishWithContext ch ex rk False False msg hdr \<and> 0 < sent_on ch (w_calls w') \<and>
    BgConfirm (of_nat (sent_on ch (w_calls w')) - lag p ch (w_calls w)) True \<in> set (sc_mid sc @ sc_wait sc)"
proof -
  obtain p0 w0 where p0: "ensureConfirmsSetup e cl p w = Returns (p0, w0)"
    "w_calls w' = w_calls w0 @ [PublishWithContext ch ex rk False False msg (map_snapshot (w_heap w0) (p_Headers msg))]"
    "BgConfirm (pb_deliveryTag p0 + 1) True \<in> set (sc_mid sc @ sc_wait sc)"
    using Publish_acked [OF assms(2,3,1)] assms(5,6) by auto
  have "pb_deliveryTag p0 + 1 = of_nat (sent_on ch (w_calls w')) - lag p ch (w_calls w)"
    using setup_tag [OF p0(1) assms(3,5)] p0(2) by (auto simp: lag_def split: if_splits)
  with p0(2,3) show ?thesis by auto
qed

lemma publish_star_lag:
  assumes "(publish_step e cl)\<^sup>*\<^sup>* x y" "pub_inv (fst x)" "PublisherConfirms (cl_config cl)" "cl_channel cl = Some ch"
  shows "pub_inv (fst y) \<and> lag (fst y) ch (w_calls (snd y)) = lag (fst x) ch (w_calls (snd x)) \<and>
    sent_on ch (w_calls (snd x)) \<le> sent_on ch (w_calls (snd y))"
  using assms(1)
proof (induction rule: rtranclp_induct)
  case (step y z)
  obtain p w p' w' where yz: "y = (p, w)" "z = (p', w')" by (metis prod.collapse)
  then obtain sc ex rk msg r where st: "Publish e cl sc ex rk msg p w = Returns (r, p', w')" "alone sc" "sc_client sc = cl"
    "\<forall>err. r \<noteq> Some (NewPublishError ex rk (Some err))" using step(2) by (auto elim: publish_step.cases)
  have "pub_inv p" using step(3) yz by simp
  from Publish_numbers [OF st(1) this assms(3) st(2) assms(4) _ refl] st(3) assms(4)
  have "sent_on ch (w_calls w) \<le> sent_on ch (w_calls w')" by auto
  moreover have "pub_inv p' \<and> lag p' ch (w_calls w') = lag p ch (w_calls w)"
    using publish_step_lag [OF _ \<open>pub_inv p\<close> assms(3,4)] step(2) yz by auto
  ultimately show ?case using step(3) yz by simp
qed (use assms(2) in simp)

section \<open>Properties\<close>

text \<open>
  C4. A reported success is the broker's confirmation of that very message, across reconnects.
  From \<open>New\<close> and \<open>NewPublisher\<close> on, however often the connection was lost and replaced, if calls of
  \<open>Publish\<close> do not overlap each other or a reconnect and no send failed on the current channel (on
  earlier ones any number may have), then a call that returns nil has sent its message as number \<open>n\<close> of its channel, and the processor
  received a positive confirmation with tag \<open>n\<close> after the entry was stored. The broker is only
  assumed to open new channels as new ones.
\<close>

theorem success_confirms_own_message:
  assumes "fresh_channels e" "PublisherConfirms cfg" "reach (link_init e cfg) (link_step e) s"
    "\<forall>ch \<in> set (lk_failed s). cl_channel (rs_client (lk_rs s)) \<noteq> Some ch"
    "Publish e (rs_client (lk_rs s)) sc ex rk msg (lk_pub s) (rs_world (lk_rs s)) = Returns (None, p', w')"
    "alone sc" "sc_client sc = rs_client (lk_rs s)"
  shows "\<exists>ch hdr. last (w_calls w') = PublishWithContext ch ex rk False False msg hdr \<and>
    BgConfirm (of_nat (sent_on ch (w_calls w'))) True \<in> set (sc_mid sc @ sc_wait sc)"
proof -
  have "link_inv s" using link.reach_inv [OF assms(3)] assms(1,2) by simp
  then obtain ch where "cl_channel (rs_client (lk_rs s)) = Some ch" "lag (lk_pub s) ch (w_calls (rs_world (lk_rs s))) = 0"
    "pub_inv (lk_pub s)" "PublisherConfirms (cl_config (rs_client (lk_rs s)))" using assms(4) by (auto simp: link_inv_def)
  with success_answer [OF assms(5) _ _ assms(6) _ assms(7)] show ?thesis by force
qed

text \<open>
  C23. A reconnect in the middle of a call shifts the answers of all later calls. \<open>Publish\<close> takes its
  tag for the channel it found at its entry and sends on the channel the client has by then. If
  that is a new channel \<open>b\<close>, the broker counts the message there and the publisher does not: from then on
  every later call on \<open>b\<close>, however many there have been, reports success on the confirmation of the
  message sent before its own.
\<close>

theorem reconnect_during_publish_shifts_tags:
  assumes "pub_inv p" "PublisherConfirms (cl_config cl)" "\<not> cl_closed cl" "cl_channel cl = Some a" "pb_channelID p = Some a"
    "cl' = cl\<lparr>cl_conn := Some conn, cl_channel := Some b\<rparr>" "b \<noteq> a" "sent_on b (w_calls w) = 0"
    "Publish e cl sc ex rk msg p w = Returns (x, p1, w1)" "alone sc" "sc_client sc = cl'"
    "\<forall>err. x \<noteq> Some (NewPublishError ex rk (Some err))"
    "(publish_step e cl')\<^sup>*\<^sup>* (p1, w1) (p2, w2)"
    "Publish e cl' sc' ex' rk' msg' p2 w2 = Returns (None, p3, w3)" "alone sc'" "sc_client sc' = cl'"
  shows "\<exists>n hdr. last (w_calls w3) = PublishWithContext b ex' rk' False False msg' hdr \<and>
    sent_on b (w_calls w3) = Suc n \<and> BgConfirm (of_nat n) True \<in> set (sc_mid sc' @ sc_wait sc')"
proof -
  have b: "cl_channel cl' = Some b" "PublisherConfirms (cl_config cl')" using assms(2,6) by simp_all
  have "cl_channel (sc_client sc) = Some b" using assms(11) b(1) by simp
  note first = Publish_numbers [OF assms(9,1,2,10,4) this refl]
  then have "pub_inv p1" "lag p1 b (w_calls w1) = 1" using assms(3,7,8) by (auto simp: lag_def)
  then have "pub_inv p2" "lag p2 b (w_calls w2) = 1" using publish_star_lag [OF assms(13) _ b(2,1)] by simp_all
  with success_answer [OF assms(14) _ b(2) assms(15) b(1) assms(16)] obtain hdr where
    "last (w_calls w3) = PublishWithContext b ex' rk' False False msg' hdr" "0 < sent_on b (w_calls w3)"
    "BgConfirm (of_nat (sent_on b (w_calls w3)) - 1) True \<in> set (sc_mid sc' @ sc_wait sc')" by auto
  then show ?thesis by (intro exI [of _ "sent_on b (w_calls w3) - 1"] exI [of _ hdr]) simp
qed

section \<open>Witnesses\<close>

lemma setup_returns:
  assumes "pub_inv p" "\<not> pb_doneClosed p (pb_done p)"
  shows "\<exists>p0 w0. ensureConfirmsSetup e cl p w = Returns (p0, w0)"
proof -
  obtain q where "confirmReset (cl_channel cl) p = Returns q" "pb_doneClosed q = pb_doneClosed p"
    using confirmReset_eq [OF assms(1), of "cl_channel cl"] by auto
  then show ?thesis using assms(2) by (cases "cl_channel cl") (auto simp: ensureConfirmsSetup_def close_done_def Let_def)
qed

text \<open>A broker that numbers its channels above all it has seen.\<close>

fun channel_no :: "amqp_call \<Rightarrow> nat" where
  "channel_no (PublishWithContext ch ex rk m i msg h) = ch"
| "channel_no (NotifyPublish ch) = ch"
| "channel_no _ = 0"

definition counting_env :: env where
  "counting_env = plain_env\<lparr>answer := (\<lambda>cs c. case c of Dial u \<Rightarrow> RId 7
     | OpenChannel n \<Rightarrow> RId (Suc (sum_list (map channel_no cs))) | _ \<Rightarrow> ROk)\<rparr>"

lemma counting_env_fresh: "fresh_channels counting_env"
proof -
  have "uses_channel k c \<Longrightarrow> channel_no c = k" for k c by (cases c) simp_all
  then have "uses_channel k c \<Longrightarrow> c \<in> set cs \<Longrightarrow> k \<le> sum_list (map channel_no cs)" for k c cs
    using member_le_sum_list [of "channel_no c" "map channel_no cs"] by auto
  then show ?thesis
    by (auto simp: fresh_channels_def call_id_def call_def counting_env_def list_ex_iff) fastforce
qed

abbreviation "confirm_config \<equiv> DefaultConfig\<lparr>PublisherConfirms := True\<rparr>"

definition first_link :: link where
  "first_link = (case broker_New counting_env confirm_config empty_world of (Inr cl, w) \<Rightarrow>
     (case NewPublisher counting_env cl w of (p, w') \<Rightarrow> \<lparr>lk_rs = started cl w', lk_pub = p, lk_failed = []\<rparr>))"

lemmas connecting = broker_New_def connect_def call_id_def call_def call_err_eq enableConfirms_def setupTopology_def
  counting_env_def DefaultConfig_def NewPublisher_def setupConfirms_def started_def

lemma first_link_init: "link_init counting_env confirm_config first_link"
  unfolding link_init_def first_link_def by (rule exI [of _ empty_world]) (simp add: connecting)

lemma first_link_eq:
  "rs_client (lk_rs first_link) = \<lparr>cl_config = confirm_config, cl_conn = Some 7, cl_channel = Some 1, cl_closed = False\<rparr>"
  "pb_channelID (lk_pub first_link) = Some 1" "pb_deliveryTag (lk_pub first_link) = 0" "pb_pending (lk_pub first_link) = []"
  by (simp_all add: first_link_def connecting empty_world_def Let_def)

lemma first_link_ok: "lk_failed first_link = []"
  by (simp add: first_link_def connecting)

text \<open>A call that nothing disturbs and whose tag is confirmed.\<close>

definition answered_script :: "client \<Rightarrow> tag \<Rightarrow> publish_script" where
  "answered_script cl t = \<lparr>sc_client = cl, sc_pre = [], sc_mid = [], sc_wait = [BgConfirm t True], sc_wake = WResult\<rparr>"

lemma alone_answered [simp]: "alone (answered_script cl t)" "sc_client (answered_script cl t) = cl"
  by (simp_all add: alone_def answered_script_def)

lemma answered_Publish:
  assumes "ensureConfirmsSetup e cl p w = Returns (p0, w0)" "PublisherConfirms (cl_config cl)" "\<not> cl_closed cl"
    "cl_channel cl = Some ch" "\<And>cs. answer e cs (PublishWithContext ch ex rk False False msg (map_snapshot (w_heap w0) (p_Headers msg))) = ROk"
    "t = pb_deliveryTag p0 + 1"
  shows "\<exists>p' w'. Publish e cl (answered_script cl t) ex rk msg p w = Returns (None, p', w')"
  using assms
  by (simp add: Publish_def answered_script_def channel_publish_def call_err_eq nextTag_def registerPending_def make_chan_def
      processConfirmation_def send_chan_def close_chan_def await_def recv_chan_def deletePending_def update_conv' Let_def)

theorem success_confirms_own_message_witness:
  "\<exists>p' w' ch hdr. Publish counting_env (rs_client (lk_rs first_link)) (answered_script (rs_client (lk_rs first_link)) 1) ''orders'' ''k''
      zero_publishing (lk_pub first_link) (rs_world (lk_rs first_link)) = Returns (None, p', w') \<and>
    last (w_calls w') = PublishWithContext ch ''orders'' ''k'' False False zero_publishing hdr \<and>
    of_nat (sent_on ch (w_calls w')) = (1 :: tag)"
proof -
  let ?s = first_link let ?cl = "rs_client (lk_rs ?s)" let ?sc = "answered_script ?cl 1"
  have "ensureConfirmsSetup counting_env ?cl (lk_pub ?s) (rs_world (lk_rs ?s)) = Returns (lk_pub ?s, rs_world (lk_rs ?s))"
    by (simp add: ensureConfirmsSetup_def first_link_eq)
  from answered_Publish [OF this, of 1 "''orders''" "''k''" zero_publishing 1] obtain p' w' where
    r: "Publish counting_env ?cl ?sc ''orders'' ''k'' zero_publishing (lk_pub ?s) (rs_world (lk_rs ?s)) = Returns (None, p', w')"
    by (auto simp: first_link_eq counting_env_def)
  have "reach (link_init counting_env confirm_config) (link_step counting_env) ?s" using first_link_init by (rule reach_init)
  then obtain ch hdr where "last (w_calls w') = PublishWithContext ch ''orders'' ''k'' False False zero_publishing hdr"
    "BgConfirm (of_nat (sent_on ch (w_calls w'))) True \<in> set (sc_mid ?sc @ sc_wait ?sc)"
    using success_confirms_own_message [OF counting_env_fresh _ _ _ r, of confirm_config] first_link_ok by auto
  with r show ?thesis by (auto simp: answered_script_def)
qed

theorem reconnect_during_publish_shifts_tags_witness:
  "\<exists>p1 w1 p2 w2 hdr. Publish plain_env confirm_client
      \<lparr>sc_client = confirm_client\<lparr>cl_conn := Some 9, cl_channel := Some 10\<rparr>, sc_pre = [], sc_mid = [], sc_wait = [], sc_wake = WTimeout\<rparr>
      ''orders'' ''k'' zero_publishing idle_pub empty_world = Returns (Some ErrPublishConfirmTimeout, p1, w1) \<and>
    Publish plain_env (confirm_client\<lparr>cl_conn := Some 9, cl_channel := Some 10\<rparr>)
      (answered_script (confirm_client\<lparr>cl_conn := Some 9, cl_channel := Some 10\<rparr>) 1) ''orders'' ''k'' zero_publishing p1 w1
      = Returns (None, p2, w2) \<and>
    last (w_calls w2) = PublishWithContext 10 ''orders'' ''k'' False False zero_publishing hdr \<and>
    (\<exists>n. sent_on 10 (w_calls w2) = Suc n \<and> of_nat n = (1 :: tag))"
proof -
  let ?cl = "confirm_client\<lparr>cl_conn := Some 9, cl_channel := Some 10\<rparr>"
  let ?sc = "\<lparr>sc_client = ?cl, sc_pre = [], sc_mid = [], sc_wait = [], sc_wake = WTimeout\<rparr>"
  obtain p1 w1 where 1: "Publish plain_env confirm_client ?sc ''orders'' ''k'' zero_publishing idle_pub empty_world
      = Returns (Some ErrPublishConfirmTimeout, p1, w1)" "pb_channelID p1 = Some 8" "pub_inv p1" "\<not> pb_doneClosed p1 (pb_done p1)"
    unfolding Publish_def idle_setup
    by (simp add: confirm_client_def channel_publish_def call_err_eq plain_env_def nextTag_def idle_pub_def
        registerPending_def make_chan_def Let_def await_def await_log_def deletePending_def empty_world_def pub_inv_def)
  then obtain p0 w0 where 0: "ensureConfirmsSetup plain_env ?cl p1 w1 = Returns (p0, w0)"
    using setup_returns by blast
  have "pb_deliveryTag p0 = 0" using setup_tag [OF 0] 1(2) by (simp add: confirm_client_def)
  with answered_Publish [OF 0, of 10 "''orders''" "''k''" zero_publishing 1] obtain p2 w2 where
    2: "Publish plain_env ?cl (answered_script ?cl 1) ''orders'' ''k'' zero_publishing p1 w1 = Returns (None, p2, w2)"
    by (auto simp: confirm_client_def plain_env_def)
  have sc: "alone ?sc" by (simp add: alone_def)
  have "\<exists>n hdr. last (w_calls w2) = PublishWithContext 10 ''orders'' ''k'' False False zero_publishing hdr \<and>
      sent_on 10 (w_calls w2) = Suc n \<and> BgConfirm (of_nat n) True \<in> set (sc_mid (answered_script ?cl 1) @ sc_wait (answered_script ?cl 1))"
    using reconnect_during_publish_shifts_tags [OF idle_pub_inv _ _ _ _ refl _ _ 1(1) sc _ _ rtranclp.rtrancl_refl 2, of 8]
    by (simp add: confirm_client_def idle_pub_def empty_world_def NewPublishError_def)
  then show ?thesis using 1(1) 2 by (auto simp: answered_script_def)
qed
end
