(* ===== verification/Progress.thy ===== *)
theory Progress
  imports Event_Bus Client_Calls
begin

text \<open>
  The workers keep going. A call of \<open>Publish\<close> can only panic by closing a \<open>done\<close> channel twice or by
  sending on a client without a channel, and can only block on a table that is out of order.
  Until the publisher is closed, and as long as no two resets overlap, none of this happens:
  every call returns and leaves the publisher ready for the next one, so a worker gets through
  any number of deliveries, across reconnects and beside other users of the publisher.
\<close>

section \<open>A publisher that is ready\<close>

text \<open>
  With confirms, a processor is running, its \<open>done\<close> channel is open, and so are the channels that will
  be made later.
\<close>

definition processing :: "pub \<Rightarrow> bool" where
  "processing p \<longleftrightarrow> pb_started p \<and> pb_done p < pb_ndone p \<and> (\<forall>d. pb_done p \<le> d \<longrightarrow> \<not> pb_doneClosed p d)"

definition ready :: "Config \<Rightarrow> pub \<Rightarrow> bool" where
  "ready cfg p \<longleftrightarrow> pub_inv p \<and> (PublisherConfirms cfg \<longrightarrow> processing p)"

text \<open>Events of other goroutines, short of a reset.\<close>

fun no_reset :: "bg_event \<Rightarrow> bool" where
  "no_reset (BgReset k) = False"
| "no_reset _ = True"

definition undisturbed :: "publish_script \<Rightarrow> bool" where
  "undisturbed sc \<longleftrightarrow> list_all no_reset (sc_pre sc @ sc_mid sc @ sc_wait sc) \<and> cl_channel (sc_client sc) \<noteq> None"

lemma processing_simps [simp]:
  "processing (p\<lparr>pb_pending := x\<rparr>) = processing p" "processing (p\<lparr>pb_deliveryTag := t\<rparr>) = processing p"
  "processing (p\<lparr>pb_chans := f\<rparr>) = processing p" "processing (p\<lparr>pb_nchans := n\<rparr>) = processing p"
  "processing (p\<lparr>pb_log := l\<rparr>) = processing p" "processing (p\<lparr>pb_channelID := c\<rparr>) = processing p"
  by (simp_all add: processing_def)

lemma processing_step:
  assumes "bg_step x p = Returns p'" "no_reset x" "pub_inv p" "processing p"
  shows "processing p'"
proof (cases x)
  case BgConfirmsClosed
  then show ?thesis using assms clearPending_eq [OF assms(3)] by auto
qed (use assms in \<open>auto simp: processConfirmation_def send_chan_def close_chan_def deletePending_def registerPending_def
    make_chan_def nextTag_def split: option.splits if_splits\<close>)

lemma processing_run:
  "list_all no_reset xs \<Longrightarrow> pub_inv p \<Longrightarrow> \<exists>p'. bg_run xs p = Returns p' \<and> pub_inv p' \<and> (processing p \<longrightarrow> processing p')"
proof (induction xs arbitrary: p)
  case (Cons x xs)
  obtain q where q: "bg_step x p = Returns q" "pub_inv q" using bg_step_inv [OF Cons.prems(2)] by blast
  with Cons.IH [of q] Cons.prems obtain p' where "bg_run xs q = Returns p'" "pub_inv p'" "processing q \<longrightarrow> processing p'" by auto
  then show ?case using q Cons.prems processing_step [OF q(1)] by auto
qed simp

section \<open>Every call returns\<close>

lemma setup_ready:
  assumes "ready (cl_config cl) p" "cl_channel cl \<noteq> None"
  shows "\<exists>p0 w0. ensureConfirmsSetup e cl p w = Returns (p0, w0) \<and> ready (cl_config cl) p0"
proof (cases "PublisherConfirms (cl_config cl) \<and> cl_channel cl \<noteq> pb_channelID p")
  case False
  then show ?thesis using assms(1) by (auto simp: ensureConfirmsSetup_def Let_def)
next
  case True
  obtain ch where ch: "cl_channel cl = Some ch" using assms(2) by auto
  have p: "pub_inv p" "processing p" using assms(1) True by (simp_all add: ready_def)
  let ?q = "p\<lparr>pb_done := pb_ndone p, pb_ndone := Suc (pb_ndone p), pb_started := False, pb_deliveryTag := 0\<rparr>"
  have "pub_inv ?q" using p(1) by (simp add: pub_inv_def chan_open_def)
  from clearPending_eq [OF this] obtain f where "confirmReset (Some ch) p = Returns (?q\<lparr>pb_chans := f, pb_pending := [], pb_channelID := Some ch\<rparr>)"
    using p(2) by (auto simp: confirmReset_def processing_def Let_def)
  then obtain p0 w0 where p0: "ensureConfirmsSetup e cl p w = Returns (p0, w0)"
    "p0 = ?q\<lparr>pb_chans := f, pb_pending := [], pb_channelID := Some ch, pb_doneClosed := (pb_doneClosed p)(pb_done p := True), pb_started := True\<rparr>"
    using True p(2) ch by (simp add: ensureConfirmsSetup_def close_done_def processing_def Let_def)
  then have "ready (cl_config cl) p0" using p(2) by (auto simp: ready_def pub_inv_def processing_def)
  with p0(1) show ?thesis by blast
qed

lemma Publish_ready:
  assumes "ready (cl_config cl) p" "cl_channel cl \<noteq> None" "undisturbed sc"
  shows "\<exists>x p' w'. Publish e cl sc ex rk msg p w = Returns (x, p', w') \<and> ready (cl_config cl) p'"
proof -
  obtain p0 w0 where 0: "ensureConfirmsSetup e cl p w = Returns (p0, w0)" "ready (cl_config cl) p0"
    using setup_ready [OF assms(1,2)] by blast
  obtain ch where ch: "cl_channel (sc_client sc) = Some ch" using assms(3) by (auto simp: undisturbed_def)
  obtain r w1 where r: "channel_publish e (sc_client sc) ex rk msg w0 = Returns (r, w1)"
    by (cases "call_err e (PublishWithContext ch ex rk False False msg (map_snapshot (w_heap w0) (p_Headers msg))) w0")
      (simp add: channel_publish_def ch)
  consider "cl_closed cl" | "\<not> cl_closed cl" "\<not> PublisherConfirms (cl_config cl)" | "\<not> cl_closed cl" "PublisherConfirms (cl_config cl)" by blast
  then show ?thesis
  proof cases
    case 3
    obtain t pt where t: "nextTag p0 = (t, pt)" by fastforce
    then have pt: "pub_inv pt" "processing pt" using 0(2) 3 nextTag_inv [of p0] by (auto simp: ready_def nextTag_def)
    obtain pr where pr: "bg_run (sc_pre sc) pt = Returns pr" "pub_inv pr" "processing pr"
      using processing_run [OF _ pt(1), of "sc_pre sc"] pt(2) assms(3) by (auto simp: undisturbed_def)
    obtain c p1 where c: "registerPending t pr = (c, p1)" by fastforce
    have p1: "pub_inv p1" "processing p1"
      using registerPending_inv [OF pr(2) c] pr(3) c by (auto simp: registerPending_def make_chan_def)
    obtain p2 where p2: "bg_run (sc_mid sc) p1 = Returns p2" "pub_inv p2" "processing p2"
      using processing_run [OF _ p1(1), of "sc_mid sc"] p1(2) assms(3) by (auto simp: undisturbed_def)
    obtain p3 where p3: "bg_run (sc_wait sc) p2 = Returns p3" "pub_inv p3" "processing p3"
      using processing_run [OF _ p2(2), of "sc_wait sc"] p2(3) assms(3) by (auto simp: undisturbed_def)
    have "ready (cl_config cl) (deletePending t q)" if "pub_inv q" "processing q" for q
      using that deletePending_inv [of q t] by (simp add: ready_def deletePending_def)
    then show ?thesis
      using 0 3 assms(2) t pr(1) c p2 p3 r by (cases r) (auto simp: Publish_def ready_def Let_def)
  qed (use 0 assms(2) r in \<open>cases r; auto simp: Publish_def\<close>)+
qed

section \<open>Every iteration returns\<close>

lemma Retry_ready:
  assumes "ready (cl_config cl) p" "cl_channel cl \<noteq> None" "undisturbed sc"
  shows "\<exists>x p' w'. Retry e cl sc rh d p w = Returns (x, p', w') \<and> ready (cl_config cl) p'"
proof (cases "GetRetryCount (w_heap w) \<lparr>mc_Delivery = d\<rparr> < rh_maxRetries rh")
  case True
  then obtain a h1 w2 where "Retry e cl sc rh d p w = Publish e cl sc (d_Exchange d) (d_RoutingKey d)
      (retry_message d a (clock e (w_ticks w))) p w2"
    by (rule Retry_publishes [of w d rh e cl sc p]) blast
  then show ?thesis using Publish_ready [OF assms] by simp
next
  case False
  then show ?thesis using assms(1) Retry_exceeded [of rh w d e cl sc p] by simp
qed

lemma worker_step_ready:
  assumes "ready (cl_config (cs_client cs)) (cs_pub cs)" "cl_channel (cs_client cs) \<noteq> None" "undisturbed (ws_publish ws)"
  shows "\<exists>cs' w'. worker_step e ws i d cs w = Returns (cs', w') \<and> ready (cl_config (cs_client cs)) (cs_pub cs') \<and>
    cs_client cs' = cs_client cs \<and> cs_router cs' = cs_router cs"
proof -
  have fail: "\<exists>cs' w'. handle_failure e ws i t d' mc err c v = Returns (cs', w') \<and> ready (cl_config (cs_client cs)) (cs_pub cs') \<and>
      cs_client cs' = cs_client cs \<and> cs_router cs' = cs_router cs"
    if "cs_client c = cs_client cs" "cs_pub c = cs_pub cs" "cs_router c = cs_router cs" for t d' mc err c v
  proof -
    obtain cb v2 where cb: "record_failure e (cs_breaker c) (log_handler_error i mc err v) = (cb, v2)" by fastforce
    obtain x p' w' where "Retry e (cs_client cs) (ws_publish ws) (NewHandler (MaxRetries (cl_config (cs_client cs)))) d' (cs_pub cs) v2
        = Returns (x, p', w')" "ready (cl_config (cs_client cs)) p'" using Retry_ready [OF assms] by blast
    then show ?thesis using that cb by (simp add: handle_failure_def Let_def)
  qed
  obtain t d1 w1 where tr: "trace_delivery e d w = (t, d1, w1)" by (metis prod.collapse)
  obtain ok cb w3 where al: "allow_delivery e (cs_breaker cs) (log_received e i t d1 w1) = (ok, cb, w3)" by (metis prod.collapse)
  show ?thesis
  proof (cases "GetHandler (cs_router cs) (GetType \<lparr>mc_Delivery = d1\<rparr>)")
    case None
    then show ?thesis using tr al assms(1) by (simp add: worker_step_def Let_def)
  next
    case (Some svc)
    obtain r mc w4 where svc: "svc \<lparr>mc_Delivery = d1\<rparr> w3 = (r, mc, w4)" by (metis prod.collapse)
    let ?c = "cs\<lparr>cs_breaker := map_option (cb_run (ws_others ws)) cb\<rparr>"
    obtain cs2 w5 where hs: "handle_success e i t mc ?c w4 = (cs2, w5)" by (metis prod.collapse)
    then have cs2: "cs_client cs2 = cs_client cs" "cs_pub cs2 = cs_pub cs" "cs_router cs2 = cs_router cs"
      by (auto simp: handle_success_def Let_def split: prod.splits)
    consider "\<not> ok" | "ok" "r = None" | err where "ok" "r = Some err" by (cases r) auto
    then show ?thesis
    proof cases
      case 1
      then show ?thesis using tr al assms(1) by (simp add: worker_step_def Let_def)
    next
      case 2
      then have "worker_step e ws i d cs w = Returns (cs2, w5)" using tr al Some svc hs by (simp add: worker_step_def Let_def)
      then show ?thesis using cs2 assms(1) by simp
    next
      case 3
      then have "worker_step e ws i d cs w = handle_failure e ws i t d1 mc err ?c w4" using tr al Some svc by (simp add: worker_step_def Let_def)
      then show ?thesis using fail [of ?c t d1 mc err w4] by simp
    qed
  qed
qed

section \<open>Properties\<close>

lemma settled_tags_filter: "settled_tags cs = settled_tags (filter is_settle cs)"
proof (induction cs)
  case (Cons c cs)
  then show ?case by (cases c) (simp_all add: settled_tags_def)
qed simp

section \<open>A worker among others\<close>

text \<open>
  What other goroutines do between two iterations of a worker: an event on the table of
  confirmations, a call that gets through \<open>ensureConfirmsSetup\<close> with the client as it is then (and
  so resets the publisher if the channel is a new one), or library calls of their own.
\<close>

datatype between = OtherEvent bg_event | OtherSetup client | OtherCalls "amqp_call list"

fun interlude :: "env \<Rightarrow> between list \<Rightarrow> pub \<Rightarrow> world \<Rightarrow> (pub \<times> world) exec" where
  "interlude e [] p w = Returns (p, w)"
| "interlude e (OtherEvent x # xs) p w = exec_bind (bg_step x p) (\<lambda>p1. interlude e xs p1 w)"
| "interlude e (OtherSetup cl # xs) p w = exec_bind (ensureConfirmsSetup e cl p w) (\<lambda>(p1, w1). interlude e xs p1 w1)"
| "interlude e (OtherCalls cs # xs) p w = interlude e xs p (w\<lparr>w_calls := w_calls w @ cs\<rparr>)"

text \<open>
  One turn of the worker's loop: what happened since the last one, the client as the iteration
  finds it (a reconnect may have given it another connection and channel), and the iteration.
\<close>

record turn =
  tn_between :: "between list"
  tn_client :: client
  tn_script :: worker_script
  tn_id :: int
  tn_delivery :: delivery

fun worker_loop :: "env \<Rightarrow> turn list \<Rightarrow> consumer \<Rightarrow> world \<Rightarrow> (consumer \<times> world) exec" where
  "worker_loop e [] c w = Returns (c, w)"
| "worker_loop e (t # ts) c w =
     exec_bind (interlude e (tn_between t) (cs_pub c) w) (\<lambda>(p, w1).
       exec_bind (worker_step e (tn_script t) (tn_id t) (tn_delivery t) (c\<lparr>cs_client := tn_client t, cs_pub := p\<rparr>) w1)
         (\<lambda>(c1, w2). worker_loop e ts c1 w2))"

text \<open>A client of the configuration with a channel, as every client is that has been connected once.\<close>

definition in_use :: "Config \<Rightarrow> client \<Rightarrow> bool" where
  "in_use cfg cl \<longleftrightarrow> cl_config cl = cfg \<and> cl_channel cl \<noteq> None"

fun orderly :: "Config \<Rightarrow> between \<Rightarrow> bool" where
  "orderly cfg (OtherEvent x) = no_reset x"
| "orderly cfg (OtherSetup cl) = in_use cfg cl"
| "orderly cfg (OtherCalls cs) = (filter is_settle cs = [])"

text \<open>No other goroutine is in the middle of a reset while the iteration runs.\<close>

definition orderly_turn :: "Config \<Rightarrow> turn \<Rightarrow> bool" where
  "orderly_turn cfg t \<longleftrightarrow> list_all (orderly cfg) (tn_between t) \<and> in_use cfg (tn_client t) \<and>
     undisturbed (ws_publish (tn_script t))"

lemma setup_calls: "ensureConfirmsSetup e cl p w = Returns (p', w') \<Longrightarrow> \<exists>new. no_settle w new w'"
  by (auto simp: ensureConfirmsSetup_def close_done_def no_settle_def call_def Let_def
      split: if_splits option.splits exec.splits)

lemma interlude_ready:
  assumes "ready cfg p" "list_all (orderly cfg) xs"
  shows "\<exists>p' w' new. interlude e xs p w = Returns (p', w') \<and> ready cfg p' \<and> no_settle w new w'"
  using assms
proof (induction xs arbitrary: p w)
  case Nil
  then show ?case by (auto intro: no_settle_refl)
next
  case (Cons x xs)
  show ?case
  proof (cases x)
    case (OtherEvent y)
    obtain q where q: "bg_step y p = Returns q" "pub_inv q" using bg_step_inv Cons.prems(1) by (auto simp: ready_def)
    moreover from q(1) have "ready cfg q"
      using q(2) Cons.prems OtherEvent processing_step [of y p q] by (auto simp: ready_def)
    ultimately show ?thesis using Cons.IH [of q w] Cons.prems OtherEvent by auto
  next
    case (OtherSetup cl)
    then have cl: "cl_config cl = cfg" "cl_channel cl \<noteq> None" using Cons.prems(2) by (auto simp: in_use_def)
    obtain p0 w0 where 0: "ensureConfirmsSetup e cl p w = Returns (p0, w0)" "ready cfg p0"
      using setup_ready [of cl p e w] Cons.prems(1) cl by auto
    obtain new0 where "no_settle w new0 w0" using setup_calls [OF 0(1)] by blast
    moreover obtain p' w' new where "interlude e xs p0 w0 = Returns (p', w')" "ready cfg p'" "no_settle w0 new w'"
      using Cons.IH [OF 0(2), of w0] Cons.prems(2) by auto
    ultimately show ?thesis using OtherSetup 0(1) no_settle_trans by fastforce
  next
    case (OtherCalls cs)
    then obtain p' w' new where r: "interlude e xs p (w\<lparr>w_calls := w_calls w @ cs\<rparr>) = Returns (p', w')" "ready cfg p'"
      "no_settle (w\<lparr>w_calls := w_calls w @ cs\<rparr>) new w'"
      using Cons.IH [OF Cons.prems(1), of "w\<lparr>w_calls := w_calls w @ cs\<rparr>"] Cons.prems(2) by auto
    then have "no_settle w (cs @ new) w'" using OtherCalls Cons.prems(2) by (simp add: no_settle_def)
    with OtherCalls r show ?thesis by auto
  qed
qed

lemma worker_loop_ready:
  assumes "ready cfg (cs_pub c)" "list_all (orderly_turn cfg) ts"
    "\<And>t svc. GetHandler (cs_router c) t = Some svc \<Longrightarrow> leaves_settling svc"
  shows "\<exists>c' w' new. worker_loop e ts c w = Returns (c', w') \<and> ready cfg (cs_pub c') \<and>
    w_calls w' = w_calls w @ new \<and> settled_tags new = map (\<lambda>t. d_DeliveryTag (tn_delivery t)) ts"
  using assms
proof (induction ts arbitrary: c w)
  case Nil
  then show ?case by (simp add: settled_tags_def)
next
  case (Cons t ts)
  let ?d = "tn_delivery t"
  have t: "list_all (orderly cfg) (tn_between t)" "cl_config (tn_client t) = cfg" "cl_channel (tn_client t) \<noteq> None"
    "undisturbed (ws_publish (tn_script t))" using Cons.prems(2) by (auto simp: orderly_turn_def in_use_def)
  obtain p w1 new1 where 1: "interlude e (tn_between t) (cs_pub c) w = Returns (p, w1)" "ready cfg p" "no_settle w new1 w1"
    using interlude_ready [OF Cons.prems(1) t(1)] by blast
  let ?c = "c\<lparr>cs_client := tn_client t, cs_pub := p\<rparr>"
  obtain c2 w2 where 2: "worker_step e (tn_script t) (tn_id t) ?d ?c w1 = Returns (c2, w2)" "ready cfg (cs_pub c2)"
    "cs_router c2 = cs_router c"
    using worker_step_ready [of ?c "tn_script t" e "tn_id t" ?d w1] 1(2) t by auto
  obtain new2 x where x: "w_calls w2 = w_calls w1 @ new2" "filter is_settle new2 = [x]"
    "x = NackCall (d_DeliveryTag ?d) False False \<or> x = AckCall (d_DeliveryTag ?d) False"
    using iteration_settles [OF 2(1)] Cons.prems(3) by auto
  have "settled_tags new2 = [d_DeliveryTag ?d]" using settled_tags_filter [of new2] x(2,3) by (auto simp: settled_tags_def)
  moreover have "settled_tags new1 = []" using 1(3) settled_tags_none by (auto simp: no_settle_def)
  moreover obtain c' w' new where "worker_loop e ts c2 w2 = Returns (c', w')" "ready cfg (cs_pub c')"
    "w_calls w' = w_calls w2 @ new" "settled_tags new = map (\<lambda>t. d_DeliveryTag (tn_delivery t)) ts"
    using Cons.IH [OF 2(2), of w2] Cons.prems(2,3) 2(3) by auto
  ultimately show ?case
    using 1(1,3) 2(1) x(1)
    by (intro exI [of _ c'] exI [of _ w'] exI [of _ "new1 @ new2 @ new"]) (simp add: settled_tags_def no_settle_def)
qed

lemma NewPublisher_ready:
  "NewPublisher e cl w = (p, w') \<Longrightarrow> cl_channel cl \<noteq> None \<Longrightarrow> ready (cl_config cl) p"
  by (auto simp: NewPublisher_def setupConfirms_def ready_def pub_inv_def processing_def Let_def split: if_splits)

lemma NewEventBus_ready:
  assumes "NewEventBus e cfg opts w0 = (Inr b, w1)"
  shows "ready (cl_config (eb_client b)) (eb_pub b) \<and> cl_channel (eb_client b) \<noteq> None"
proof -
  define cfg1 where "cfg1 = (if Logger (applyOptions opts cfg) = None then (applyOptions opts cfg)\<lparr>Logger := Some DefaultLoggerRef\<rparr>
    else applyOptions opts cfg)"
  have "\<exists>v. broker_New e cfg1 w0 = (Inr (eb_client b), v) \<and> NewPublisher e (eb_client b) v = (eb_pub b, w1)"
    using assms by (auto simp: NewEventBus_def cfg1_def [symmetric] Let_def split: option.splits prod.splits sum.splits)
  then obtain v where n: "broker_New e cfg1 w0 = (Inr (eb_client b), v)" "NewPublisher e (eb_client b) v = (eb_pub b, w1)" by blast
  have "cl_channel (eb_client b) \<noteq> None" using broker_New_channel(3) [OF n(1)] by auto
  with NewPublisher_ready [OF n(2)] show ?thesis by simp
qed

text \<open>
  C8. A worker never stops. On a bus that \<open>NewEventBus\<close> made and that has not been closed, a worker gets
  through any sequence of deliveries, across any number of reconnects: no iteration panics or
  blocks, whatever the handlers answer, however the broker answers the retries, whichever channel
  the client has at each iteration and at the retry's send, and whatever other goroutines do to
  the publisher in between, complete resets for a new channel included. It settles the deliveries
  one by one, each once and in order, and leaves the publisher ready. Two things are assumed: the
  registered handlers leave settling to the worker, and no other goroutine is in the middle of a
  reset while one of its iterations is under way (two overlapping resets close the same \<open>done\<close>
  channel twice and panic).
\<close>

theorem worker_never_stops:
  assumes "NewEventBus e cfg opts w0 = (Inr b, w1)"
    "list_all (orderly_turn (cl_config (eb_client b))) ts"
    "\<And>t svc. GetHandler r t = Some svc \<Longrightarrow> leaves_settling svc"
  shows "\<exists>c' w' new. worker_loop e ts (bus_consumer b r cb) w = Returns (c', w') \<and>
    ready (cl_config (eb_client b)) (cs_pub c') \<and> w_calls w' = w_calls w @ new \<and>
    settled_tags new = map (\<lambda>t. d_DeliveryTag (tn_delivery t)) ts"
  using worker_loop_ready [of "cl_config (eb_client b)" "bus_consumer b r cb" ts e w] NewEventBus_ready [OF assms(1)] assms(2,3)
  by (simp add: bus_consumer_def)

abbreviation "local_config \<equiv> DefaultConfig\<lparr>URI := ''amqp://localhost''\<rparr>"

lemma local_bus:
  obtains b w1 where "NewEventBus plain_env local_config [] empty_world = (Inr b, w1)"
proof -
  have "Validate local_config = None" "applyOptions [] local_config = local_config" "Logger local_config \<noteq> None"
    by (simp_all add: Validate_def applyOptions_def DefaultConfig_def Second_def)
  moreover obtain cl w where "broker_New plain_env local_config empty_world = (Inr cl, w)"
    by (simp add: broker_New_def connect_def call_id_def call_def call_err_eq enableConfirms_def setupTopology_def plain_env_def
        DefaultConfig_def)
  moreover obtain p w1 where "NewPublisher plain_env cl w = (p, w1)" by (metis prod.collapse)
  ultimately show thesis using that by (auto simp: NewEventBus_def)
qed

lemma local_bus_config:
  assumes "NewEventBus plain_env local_config [] empty_world = (Inr b, w1)"
  shows "cl_config (eb_client b) = local_config"
proof -
  have "Validate local_config = None" "applyOptions [] local_config = local_config" "Logger local_config \<noteq> None"
    by (simp_all add: Validate_def applyOptions_def DefaultConfig_def Second_def)
  with assms show ?thesis
    by (auto simp: NewEventBus_def broker_New_def connect_def call_id_def call_def call_err_eq enableConfirms_def
        setupTopology_def plain_env_def DefaultConfig_def Let_def split: prod.splits)
qed

text \<open>Two turns, the second after a reconnect to channel 9 that another publisher noticed first.\<close>

definition first_turn :: turn where
  "first_turn = \<lparr>tn_between = [], tn_client = plain_client\<lparr>cl_config := local_config\<rparr>, tn_script = plain_worker, tn_id = 0,
     tn_delivery = order_delivery None\<rparr>"

definition second_turn :: turn where
  "second_turn = \<lparr>tn_between = [OtherSetup (plain_client\<lparr>cl_config := local_config, cl_channel := Some 9\<rparr>)],
     tn_client = plain_client\<lparr>cl_config := local_config, cl_channel := Some 9\<rparr>, tn_script = plain_worker, tn_id = 0,
     tn_delivery = order_delivery (Some 0)\<rparr>"

theorem worker_never_stops_witness:
  "\<exists>b w1 c' w' new. NewEventBus plain_env local_config [] empty_world = (Inr b, w1) \<and>
    worker_loop plain_env [first_turn, second_turn] (bus_consumer b rejecting_router None) w1 = Returns (c', w') \<and>
    w_calls w' = w_calls w1 @ new \<and> settled_tags new = [5, 5]"
proof -
  obtain b w1 where b: "NewEventBus plain_env local_config [] empty_world = (Inr b, w1)" by (rule local_bus)
  have "leaves_settling reject_all" by (auto simp: leaves_settling_def reject_all_def intro: no_settle_refl)
  then have svc: "leaves_settling svc" if "GetHandler rejecting_router t = Some svc" for t svc
    using that by (auto simp: rejecting_router_def rt.lookup_register rt.lookup_empty split: if_splits)
  have "list_all (orderly_turn (cl_config (eb_client b))) [first_turn, second_turn]"
    unfolding local_bus_config [OF b]
    by (simp add: orderly_turn_def first_turn_def second_turn_def in_use_def undisturbed_def plain_worker_def
        plain_script_def plain_client_def)
  then have "\<exists>c' w' new. worker_loop plain_env [first_turn, second_turn] (bus_consumer b rejecting_router None) w1 = Returns (c', w') \<and>
      ready (cl_config (eb_client b)) (cs_pub c') \<and> w_calls w' = w_calls w1 @ new \<and>
      settled_tags new = map (\<lambda>t. d_DeliveryTag (tn_delivery t)) [first_turn, second_turn]"
    by (rule worker_never_stops [OF b]) (rule svc)
  then obtain c' w' new where
    "worker_loop plain_env [first_turn, second_turn] (bus_consumer b rejecting_router None) w1 = Returns (c', w')"
    "w_calls w' = w_calls w1 @ new"
    "settled_tags new = map (\<lambda>t. d_DeliveryTag (tn_delivery t)) [first_turn, second_turn]" by blast
  moreover have "map (\<lambda>t. d_DeliveryTag (tn_delivery t)) [first_turn, second_turn] = [5, 5]"
    by (simp add: first_turn_def second_turn_def order_delivery_def)
  ultimately show ?thesis using b by metis
qed

end
