(* ===== verification/Dead_Letters.thy ===== *)
theory Dead_Letters
  imports Event_Bus
begin

text \<open>
  The life of a message that fails for good: the consumer rejects it, the broker moves it to the
  dead letter queue of \<open>setupDLQ\<close>, a handler of \<open>RegisterDLQHandler\<close> or \<open>RequeueFromDLQ\<close> takes it from
  there. The broker's part is a hypothesis, \<open>dead_lettered\<close>, in the words of RabbitMQ's documentation
  of dead lettering; everything else is the library's own code.
\<close>

section \<open>What the broker does to a dead letter\<close>

text \<open>
  A message \<open>x\<close> rejected from queue \<open>q\<close> arrives as \<open>y\<close>: the body and the properties the library copies
  are unchanged; the headers that the broker does not own keep their text; the retry count
  reads as before (it may arrive at another integer width); \<open>x-death\<close> is an array whose first
  entry names the queue, and the exchange and the routing keys the message was published with.
\<close>

definition dead_lettered :: "string \<Rightarrow> heap \<times> delivery \<Rightarrow> heap \<times> delivery \<Rightarrow> bool" where
  "dead_lettered q x y \<longleftrightarrow> (case (x, y) of ((h, d), (h', d')) \<Rightarrow>
     d_Body d' = d_Body d \<and> d_ContentType d' = d_ContentType d \<and> d_DeliveryMode d' = d_DeliveryMode d \<and>
     d_Priority d' = d_Priority d \<and> count_of y = count_of x \<and>
     (\<forall>k s. take 2 k \<noteq> ''x-'' \<longrightarrow> map_get h (d_Headers d) k = Some (VString s) \<longrightarrow>
        map_get h' (d_Headers d') k = Some (VString s)) \<and>
     (\<exists>death more rks. map_get h' (d_Headers d') ''x-death'' = Some (VArray (VTable death # more)) \<and>
        map_of death ''queue'' = Some (VString q) \<and> map_of death ''exchange'' = Some (VString (d_Exchange d)) \<and>
        map_of death ''routing-keys'' = Some (VArray (VString (d_RoutingKey d) # rks))))"

text \<open>A message published with headers \<open>hdr\<close> is delivered: same body, and a count that reads as the one sent.\<close>

definition delivered_as :: "publishing \<Rightarrow> gtable \<Rightarrow> heap \<times> delivery \<Rightarrow> bool" where
  "delivered_as msg hdr y \<longleftrightarrow> d_Body (snd y) = p_Body msg \<and>
     count_of y = (case hdr CountHeader of None \<Rightarrow> 0 | Some v \<Rightarrow> retry_count_of v)"

lemma dead_lettered_reads:
  assumes "dead_lettered q (h0, d0) (h, d)"
  shows "OriginalQueue (NewDLQMessage h \<lparr>mc_Delivery = d\<rparr>) = q"
    "OriginalExchange (NewDLQMessage h \<lparr>mc_Delivery = d\<rparr>) = d_Exchange d0"
    "OriginalRoutingKey (NewDLQMessage h \<lparr>mc_Delivery = d\<rparr>) = d_RoutingKey d0"
    "RetryCount (NewDLQMessage h \<lparr>mc_Delivery = d\<rparr>) = count_of (h0, d0)"
    "mc_Delivery (dm_Context (NewDLQMessage h \<lparr>mc_Delivery = d\<rparr>)) = d"
  using assms
  by (auto simp: dead_lettered_def NewDLQMessage_def death_string_def death_routing_key_def count_of_def Let_def)

section \<open>A worker that fails a message\<close>

text \<open>A handler that reports an error and touches neither the broker nor the message.\<close>

definition fails_plainly :: "handler \<Rightarrow> bool" where
  "fails_plainly svc \<longleftrightarrow> (\<forall>mc w. fst (svc mc w) \<noteq> None \<and> fst (snd (svc mc w)) = mc \<and>
     w_calls (snd (snd (svc mc w))) = w_calls w \<and> w_heap (snd (snd (svc mc w))) = w_heap w)"

lemma fails_plainlyE:
  assumes "fails_plainly svc"
  obtains err w' where "svc mc w = (Some err, mc, w')" "w_calls w' = w_calls w" "w_heap w' = w_heap w"
  using assms unfolding fails_plainly_def by (metis not_None_eq prod.collapse)

text \<open>Giving a delivery its trace id leaves its retry count alone.\<close>

lemma trace_delivery_count:
  assumes "trace_delivery e d0 w0 = (t, d, w1)"
  shows "count_of (w_heap w1, d) = count_of (w_heap w0, d0)"
proof -
  have "CountHeader \<noteq> ''trace_id''" by (simp add: CountHeader_def)
  then show ?thesis
    using assms
    by (cases "d_Headers d0")
      (auto simp: trace_delivery_def count_of_def GetRetryCount_def header_map_def make_map_def map_put_def uuid_New_def Let_def
        split: option.splits gvalue.splits if_splits)
qed

lemma failed_delivery:
  assumes "GetHandler (cs_router cs) (GetType \<lparr>mc_Delivery = d\<rparr>) = Some svc" "fails_plainly svc"
    "MaxRetries (cl_config (cs_client cs)) \<le> count_of (w_heap w, d)"
  shows "\<exists>cs' w'. worker_step e ws i d cs w = Returns (cs', w') \<and> cs_pub cs' = cs_pub cs \<and>
    w_calls w' = w_calls w @ [NackCall (d_DeliveryTag d) False False]"
proof -
  obtain t d1 w1 where tr: "trace_delivery e d w = (t, d1, w1)" by (metis prod.collapse)
  obtain ok cb w3 where al: "allow_delivery e (cs_breaker cs) (log_received e i t d1 w1) = (ok, cb, w3)"
    by (metis prod.collapse)
  obtain h where d1: "d1 = d\<lparr>d_Headers := h\<rparr>" and w1: "w_calls w1 = w_calls w"
    using trace_delivery_world [OF tr] by blast
  have w3: "w_calls w3 = w_calls w" "w_heap w3 = w_heap w1" using allow_delivery_world [OF al] w1 by simp_all
  have count: "MaxRetries (cl_config (cs_client cs)) \<le> GetRetryCount (w_heap w3) \<lparr>mc_Delivery = d1\<rparr>"
    using trace_delivery_count [OF tr] assms(3) w3 by (simp add: count_of_def)
  show ?thesis
  proof (cases ok)
    case False
    then show ?thesis using tr al w3 d1 by (simp add: worker_step_def mc_Nack_calls Let_def)
  next
    case True
    obtain err w4 where svc: "svc \<lparr>mc_Delivery = d1\<rparr> w3 = (Some err, \<lparr>mc_Delivery = d1\<rparr>, w4)"
      "w_calls w4 = w_calls w3" "w_heap w4 = w_heap w3" using assms(2) by (rule fails_plainlyE)
    let ?cs = "cs\<lparr>cs_breaker := map_option (cb_run (ws_others ws)) cb\<rparr>"
    obtain cb2 w5 where rf: "record_failure e (cs_breaker ?cs) (log_handler_error i \<lparr>mc_Delivery = d1\<rparr> err w4) = (cb2, w5)"
      by (metis prod.collapse)
    have w5: "w_calls w5 = w_calls w" "w_heap w5 = w_heap w3" using record_failure_world [OF rf] svc w3 by simp_all
    have "Retry e (cs_client cs) (ws_publish ws) (NewHandler (MaxRetries (cl_config (cs_client cs)))) d1 (cs_pub cs) w5
        = Returns (Some ErrMaxRetriesExceeded, cs_pub cs, w5)"
      using count w5 by (intro Retry_exceeded) (simp add: NewHandler_def)
    then have "handle_failure e ws i t d1 \<lparr>mc_Delivery = d1\<rparr> err ?cs w4 =
        Returns (?cs\<lparr>cs_breaker := cb2, cs_pub := cs_pub cs\<rparr>, settle_retry e i t \<lparr>mc_Delivery = d1\<rparr> (Some ErrMaxRetriesExceeded) w5)"
      using rf by (simp add: handle_failure_def Let_def)
    moreover have "worker_step e ws i d cs w = handle_failure e ws i t d1 \<lparr>mc_Delivery = d1\<rparr> err ?cs w4"
      using tr al True svc assms(1) by (simp add: worker_step_def d1 Let_def)
    ultimately show ?thesis using w5 by (simp add: settle_retry_calls d1)
  qed
qed

section \<open>The dead letter queues that are declared\<close>

fun dead_letters_again :: "amqp_call \<Rightarrow> bool" where
  "dead_letters_again (QueueDeclare ch n du ad ex nw args) = (\<exists>t. args = Some t \<and> t ''x-dead-letter-exchange'' \<noteq> None)"
| "dead_letters_again _ = False"

lemma run_plan_calls: "\<exists>n. snd (run_plan e ps cs) = cs @ map fst (take n ps)"
proof (induction e ps cs rule: run_plan.induct)
  case (2 e c f ps cs)
  show ?case
  proof (cases "\<exists>x. answer e cs c = RErr x")
    case True
    then show ?thesis by (intro exI [of _ 1]) auto
  next
    case False
    with 2 obtain n where "snd (run_plan e ps (cs @ [c])) = (cs @ [c]) @ map fst (take n ps)" by (cases "answer e cs c") auto
    with False show ?thesis by (intro exI [of _ "Suc n"]) (cases "answer e cs c"; simp)
  qed
qed simp

lemma setupDLQ_calls:
  "\<exists>new. w_calls (snd (setupDLQ e ch cfg w)) = w_calls w @ new \<and> \<not> list_ex dead_letters_again new"
proof -
  obtain n where n: "snd (run_plan e (plan_dlq ch cfg) (w_calls w)) = w_calls w @ map fst (take n (plan_dlq ch cfg))"
    using run_plan_calls by blast
  have "\<not> dead_letters_again c" if "c \<in> fst ` set (plan_dlq ch cfg)" for c
    using that by (auto simp: plan_dlq_def plan_dlq_queue_def Let_def)
  then have "\<not> list_ex dead_letters_again (map fst (take n (plan_dlq ch cfg)))"
    by (auto simp: list_ex_iff dest: in_set_takeD)
  moreover have "w_calls (snd (setupDLQ e ch cfg w)) = snd (run_plan e (plan_dlq ch cfg) (w_calls w))"
    using setupDLQ_plan(1) [of e ch cfg w] by (simp add: outcome_def prod_eq_iff)
  ultimately show ?thesis using n by auto
qed

section \<open>Properties\<close>

text \<open>
  C21. A dead letter comes back to where it was first published. When a rejected message has reached the dead letter
  queue, \<open>NewDLQMessage\<close> reads from it the queue that rejected it and its last retry count, and
  \<open>RequeueFromDLQ\<close>, if it succeeds, publishes it to the exchange and with the routing key it was
  first published with: same body, content type, delivery mode and priority, the application's
  text headers kept, no \<open>x-death\<close>. The other properties do not survive: correlation id, message
  id, type, reply-to, expiration, application and user id of the requeued message are empty. With the count reset, the redelivered message has the type it
  had, so that the same handler gets it, and its full number of retries. A message that was
  published to the default exchange, or with an empty routing key, is refused instead, without
  any library call.
\<close>

theorem dead_letter_round_trip:
  assumes "dead_lettered q (h, d) (w_heap w, d')" "ref_ok (w_heap w) (d_Headers d')"
    "RequeueFromDLQ e sc (NewDLQMessage (w_heap w) \<lparr>mc_Delivery = d'\<rparr>) True b w = Returns (x, b', w')"
  shows "OriginalQueue (NewDLQMessage (w_heap w) \<lparr>mc_Delivery = d'\<rparr>) = q \<and>
    RetryCount (NewDLQMessage (w_heap w) \<lparr>mc_Delivery = d'\<rparr>) = count_of (h, d) \<and>
    (d_Exchange d = [] \<or> d_RoutingKey d = [] \<longrightarrow> x \<noteq> None \<and> w' = w) \<and>
    (x = None \<longrightarrow> (\<exists>ch msg hdr new. w_calls w' = w_calls w @ new \<and>
      PublishWithContext ch (d_Exchange d) (d_RoutingKey d) False False msg (Some hdr) \<in> set new \<and>
      p_Body msg = d_Body d \<and> p_ContentType msg = d_ContentType d \<and> p_DeliveryMode msg = d_DeliveryMode d \<and>
      p_Priority msg = d_Priority d \<and> other_properties_unset msg \<and> hdr ''x-death'' = None \<and>
      (\<forall>k s. take 2 k \<noteq> ''x-'' \<longrightarrow> map_get h (d_Headers d) k = Some (VString s) \<longrightarrow> hdr k = Some (VString s)) \<and>
      (\<forall>y rh. delivered_as msg hdr y \<longrightarrow> GetType \<lparr>mc_Delivery = snd y\<rparr> = GetType \<lparr>mc_Delivery = d\<rparr> \<and>
        ShouldRetry (fst y) rh (snd y) = (0 < rh_maxRetries rh, 0))))"
    (is "_ \<and> _ \<and> _ \<and> (_ \<longrightarrow> ?sent)")
proof -
  note reads = dead_lettered_reads [OF assms(1)]
  note restored = requeue_restores_message [OF assms(3) reads(5) [symmetric] assms(2), unfolded reads(2,3)]
  have same: "d_Body d' = d_Body d" "d_ContentType d' = d_ContentType d" "d_DeliveryMode d' = d_DeliveryMode d"
    "d_Priority d' = d_Priority d" using assms(1) by (simp_all add: dead_lettered_def)
  have kept: "map_get (w_heap w) (d_Headers d') k = Some (VString s)"
    if "take 2 k \<noteq> ''x-''" "map_get h (d_Headers d) k = Some (VString s)" for k s
    using assms(1) that by (simp add: dead_lettered_def)
  have sent: ?sent if ok: "x = None"
  proof -
    obtain ch msg hdr new where c: "w_calls w' = w_calls w @ new"
      "PublishWithContext ch (d_Exchange d) (d_RoutingKey d) False False msg (Some hdr) \<in> set new"
      "p_Body msg = d_Body d'" "p_ContentType msg = d_ContentType d'" "p_DeliveryMode msg = d_DeliveryMode d'"
      "p_Priority msg = d_Priority d'"
      "hdr = ((map_get (w_heap w) (d_Headers d'))(CountHeader \<mapsto> VInt32 0))(''x-death'' := None)"
      "other_properties_unset msg"
      using restored ok by auto
    have "hdr ''x-death'' = None" by (simp add: c(7))
    moreover have "hdr k = Some (VString s)" if "take 2 k \<noteq> ''x-''" "map_get h (d_Headers d) k = Some (VString s)" for k s
      using kept [OF that] that(1) by (auto simp: c(7) CountHeader_def)
    moreover have "GetType \<lparr>mc_Delivery = snd y\<rparr> = GetType \<lparr>mc_Delivery = d\<rparr> \<and>
        ShouldRetry (fst y) rh (snd y) = (0 < rh_maxRetries rh, 0)" if "delivered_as msg hdr y" for y rh
      using that same(1) c(3)
      by (auto simp: delivered_as_def GetType_def ShouldRetry_def count_of_def c(7) CountHeader_def Let_def)
    ultimately show ?thesis
      using c(1-6,8) unfolding same
      by (intro exI [of _ ch] exI [of _ msg] exI [of _ hdr] exI [of _ new] conjI allI impI) simp_all
  qed
  have "d_Exchange d = [] \<or> d_RoutingKey d = [] \<longrightarrow> x \<noteq> None \<and> w' = w" using restored by simp
  with reads(1,4) sent show ?thesis by blast
qed

definition dead_order_heap :: heap where
  "dead_order_heap = \<lparr>hp_next = 1, hp_map = (\<lambda>_. [''trace_id'' \<mapsto> VString ''t-1'', CountHeader \<mapsto> VInt64 3,
     ''x-death'' \<mapsto> VArray [VTable [(''queue'', VString ''orders.queue''), (''exchange'', VString ''orders''),
       (''routing-keys'', VArray [VString ''order.created''])]]])\<rparr>"

definition failed_order_heap :: heap where
  "failed_order_heap = \<lparr>hp_next = 1, hp_map = (\<lambda>_. [''trace_id'' \<mapsto> VString ''t-1'', CountHeader \<mapsto> VInt 3])\<rparr>"

lemma order_dead_lettered:
  "dead_lettered ''orders.queue'' (failed_order_heap, order_delivery (Some 0)) (dead_order_heap, order_delivery (Some 0))"
  by (auto simp: dead_lettered_def dead_order_heap_def failed_order_heap_def order_delivery_def count_of_def GetRetryCount_def
      CountHeader_def)

theorem dead_letter_round_trip_witness:
  "\<exists>b' w' ch msg hdr. RequeueFromDLQ plain_env plain_script (NewDLQMessage dead_order_heap \<lparr>mc_Delivery = order_delivery (Some 0)\<rparr>)
      True plain_bus (empty_world\<lparr>w_heap := dead_order_heap\<rparr>) = Returns (None, b', w') \<and>
    PublishWithContext ch ''orders'' ''order.created'' False False msg (Some hdr) \<in> set (w_calls w') \<and>
    hdr ''trace_id'' = Some (VString ''t-1'')"
proof -
  let ?w = "empty_world\<lparr>w_heap := dead_order_heap\<rparr>" and ?d = "order_delivery (Some 0)"
  have h: "w_heap ?w = dead_order_heap" "w_calls ?w = []" by (simp_all add: empty_world_def)
  have m: "OriginalExchange (NewDLQMessage dead_order_heap \<lparr>mc_Delivery = ?d\<rparr>) = ''orders''"
    "OriginalRoutingKey (NewDLQMessage dead_order_heap \<lparr>mc_Delivery = ?d\<rparr>) = ''order.created''"
    "d_Exchange ?d = ''orders''" "d_RoutingKey ?d = ''order.created''"
    using dead_lettered_reads [OF order_dead_lettered] by (simp_all add: order_delivery_def)
  obtain b' w' where r: "RequeueFromDLQ plain_env plain_script (NewDLQMessage dead_order_heap \<lparr>mc_Delivery = ?d\<rparr>) True plain_bus ?w
      = Returns (None, b', w')"
    by (auto simp: RequeueFromDLQ_def m plain_bus_def plain_Publish time_Now_def make_map_def Let_def)
  have "ref_ok dead_order_heap (d_Headers ?d)" by (simp add: ref_ok_def dead_order_heap_def order_delivery_def)
  then obtain ch msg hdr new where c: "w_calls w' = new"
    "PublishWithContext ch ''orders'' ''order.created'' False False msg (Some hdr) \<in> set new"
    "\<forall>k s. take 2 k \<noteq> ''x-'' \<longrightarrow> map_get failed_order_heap (d_Headers ?d) k = Some (VString s) \<longrightarrow> hdr k = Some (VString s)"
    using dead_letter_round_trip [where w = ?w, unfolded h, OF order_dead_lettered _ r] m by auto
  have "map_get failed_order_heap (d_Headers ?d) ''trace_id'' = Some (VString ''t-1'')"
    by (simp add: failed_order_heap_def order_delivery_def CountHeader_def)
  with c(3) have "hdr ''trace_id'' = Some (VString ''t-1'')" by simp
  with r c(1,2) show ?thesis by blast
qed

text \<open>
  C26. A dead letter whose retries were exhausted is lost when its handler fails. Its retry count
  is the one with which it was rejected; if that had already reached \<open>MaxRetries\<close>, the first
  failure of a handler for dead letters finds no retries left: the worker neither republishes the message nor returns it to the queue, it nacks it without requeue. And
  no dead letter queue that \<open>setupDLQ\<close> declares has a dead letter exchange of its own, so the
  broker discards it. (A message that was rejected with retries left, by an open breaker or
  because its republishing failed, still has them in the dead letter queue.)
\<close>

theorem exhausted_dead_letter_dropped:
  assumes "dead_lettered q x (w_heap w, d)" "MaxRetries (cl_config (cs_client cs)) \<le> count_of x"
    "GetHandler (cs_router cs) (GetType \<lparr>mc_Delivery = d\<rparr>) = Some svc" "fails_plainly svc"
  shows "(\<exists>cs' w'. worker_step e ws i d cs w = Returns (cs', w') \<and>
      w_calls w' = w_calls w @ [NackCall (d_DeliveryTag d) False False]) \<and>
    (\<exists>new. w_calls (snd (setupDLQ e ch cfg v)) = w_calls v @ new \<and> \<not> list_ex dead_letters_again new)"
proof -
  have "count_of (w_heap w, d) = count_of x" using assms(1) by (cases x) (simp add: dead_lettered_def)
  then show ?thesis using failed_delivery [OF assms(3,4), of w e ws i] assms(2) setupDLQ_calls by auto
qed

theorem exhausted_dead_letter_dropped_witness:
  "\<exists>cs' w'. worker_step plain_env plain_worker 0 (order_delivery (Some 0)) (order_consumer rejecting_router None)
      (empty_world\<lparr>w_heap := dead_order_heap\<rparr>) = Returns (cs', w') \<and> w_calls w' = [NackCall 5 False False]"
proof -
  let ?w = "empty_world\<lparr>w_heap := dead_order_heap\<rparr>" and ?d = "order_delivery (Some 0)"
    and ?cs = "order_consumer rejecting_router None"
  have "dead_lettered ''orders.queue'' (failed_order_heap, ?d) (w_heap ?w, ?d)" using order_dead_lettered by simp
  moreover have "MaxRetries (cl_config (cs_client ?cs)) \<le> count_of (failed_order_heap, ?d)"
    by (simp add: order_consumer_def plain_client_def DefaultConfig_def count_of_def GetRetryCount_def failed_order_heap_def
        order_delivery_def)
  moreover have "GetHandler (cs_router ?cs) (GetType \<lparr>mc_Delivery = ?d\<rparr>) = Some reject_all"
    by (simp add: order_consumer_def rejecting_router_def rt.lookup_register empty_body_type)
  moreover have "fails_plainly reject_all" by (simp add: fails_plainly_def reject_all_def)
  ultimately have "\<exists>cs' w'. worker_step plain_env plain_worker 0 ?d ?cs ?w = Returns (cs', w') \<and>
      w_calls w' = w_calls ?w @ [NackCall (d_DeliveryTag ?d) False False]"
    by (rule exhausted_dead_letter_dropped [THEN conjunct1])
  then show ?thesis by (simp add: empty_world_def order_delivery_def)
qed

text \<open>
  A handler that acknowledges its message itself, as an example of the documentation does, makes
  the worker settle the delivery a second time.
\<close>

lemma handler_ack_settles_twice:
  assumes "GetHandler (cs_router cs) (GetType \<lparr>mc_Delivery = d\<rparr>) = Some (\<lambda>mc w. case mc_Ack e mc w of (r, w') \<Rightarrow> (r, mc, w'))"
    "cs_breaker cs = None" "\<And>hist. answer e hist (AckCall (d_DeliveryTag d) False) = ROk"
  shows "\<exists>cs' w'. worker_step e ws i d cs w = Returns (cs', w') \<and>
    settled_tags (w_calls w') = settled_tags (w_calls w) @ [d_DeliveryTag d, d_DeliveryTag d]"
proof -
  obtain t d1 w1 where tr: "trace_delivery e d w = (t, d1, w1)" by (metis prod.collapse)
  then obtain h where "d1 = d\<lparr>d_Headers := h\<rparr>" "w_calls w1 = w_calls w" using trace_delivery_world by blast
  with tr assms show ?thesis
    by (simp add: worker_step_def allow_delivery_def mc_Ack_def call_err_eq handle_success_def record_success_def Let_def
        settled_tags_def)
qed

end
