(* ===== verification/Direct.thy ===== *)
theory Direct
  imports Client
begin

text \<open>
  The package \<open>direct\<close>: raw connections, and the declaration of one exchange and one queue with
  its bindings. \<open>DeclareTopology\<close> returns the broker's answer to the queue declaration.
\<close>

section \<open>Connections\<close>

definition Connect :: "env \<Rightarrow> string \<Rightarrow> world \<Rightarrow> (goerror + nat) \<times> world" where
  "Connect e uri w = call_id e (Dial uri) w"

definition Disconnect :: "env \<Rightarrow> nat option \<Rightarrow> world \<Rightarrow> goerror option \<times> world" where
  "Disconnect e conn w =
     (case conn of None \<Rightarrow> (None, w) | Some c \<Rightarrow> call_err e (CloseConnection c) w)"

section \<open>Topology\<close>

record Topology =
  tp_Exchange :: ExchangeConfig
  tp_Queue :: QueueConfig

record Queue =
  qu_Name :: string
  qu_Messages :: int
  qu_Consumers :: int

definition zero_Queue :: Queue where
  "zero_Queue = \<lparr>qu_Name = [], qu_Messages = 0, qu_Consumers = 0\<rparr>"

definition declareExchange :: "env \<Rightarrow> nat \<Rightarrow> ExchangeConfig \<Rightarrow> world \<Rightarrow> goerror option \<times> world" where
  "declareExchange e ch cfg w =
     call_err e (ExchangeDeclare ch (ex_Name cfg) (ex_Type cfg) (ex_Durable cfg) (ex_AutoDelete cfg)
       (ex_Internal cfg) False (map_snapshot (w_heap w) (ex_Args cfg))) w"

text \<open>The library answers a declaration with an error or with the queue.\<close>

definition declareQueue :: "env \<Rightarrow> nat \<Rightarrow> QueueConfig \<Rightarrow> world \<Rightarrow> (goerror + Queue) \<times> world" where
  "declareQueue e ch cfg w =
     (case call e (QueueDeclare ch (q_Name cfg) (q_Durable cfg) (q_AutoDelete cfg) (q_Exclusive cfg) False
         (map_snapshot (w_heap w) (q_Args cfg))) w of
        (RErr err, w1) \<Rightarrow> (Inl err, w1)
      | (RQueue n m c, w1) \<Rightarrow> (Inr \<lparr>qu_Name = n, qu_Messages = m, qu_Consumers = c\<rparr>, w1)
      | (_, w1) \<Rightarrow> (Inr zero_Queue, w1))"

fun bindQueue :: "env \<Rightarrow> nat \<Rightarrow> string \<Rightarrow> string \<Rightarrow> string list \<Rightarrow> world \<Rightarrow> goerror option \<times> world" where
  "bindQueue e ch queueName exchangeName [] w = (None, w)"
| "bindQueue e ch queueName exchangeName (rk # rks) w =
     (case call_err e (QueueBind ch queueName rk exchangeName False None) w of
        (Some err, w1) \<Rightarrow> (Some err, w1)
      | (None, w1) \<Rightarrow> bindQueue e ch queueName exchangeName rks w1)"

definition DeclareTopology :: "env \<Rightarrow> nat \<Rightarrow> Topology \<Rightarrow> world \<Rightarrow> (Queue \<times> goerror option) \<times> world" where
  "DeclareTopology e ch t w =
     (case declareExchange e ch (tp_Exchange t) w of
        (Some err, w1) \<Rightarrow> ((zero_Queue, Some err), w1)
      | (None, w1) \<Rightarrow>
          (case declareQueue e ch (tp_Queue t) w1 of
             (Inl err, w2) \<Rightarrow> ((zero_Queue, Some err), w2)
           | (Inr q, w2) \<Rightarrow>
               (case bindQueue e ch (qu_Name q) (ex_Name (tp_Exchange t)) (q_RoutingKeys (tp_Queue t)) w2 of
                  (Some err, w3) \<Rightarrow> ((zero_Queue, Some err), w3)
                | (None, w3) \<Rightarrow> ((q, None), w3))))"

section \<open>Properties\<close>

text \<open>The bindings of a topology for a queue the broker named \<open>n\<close>, in the order of the routing keys.\<close>

definition binding_plan :: "nat \<Rightarrow> Topology \<Rightarrow> string \<Rightarrow> plan" where
  "binding_plan ch t n =
     map (\<lambda>rk. (QueueBind ch n rk (ex_Name (tp_Exchange t)) False None, \<lambda>x. x)) (q_RoutingKeys (tp_Queue t))"

lemma bindQueue_plan:
  "outcome (bindQueue e ch n en rks w) =
     run_plan e (map (\<lambda>rk. (QueueBind ch n rk en False None, \<lambda>x. x)) rks) (w_calls w)"
  by (induction rks arbitrary: w) (simp_all add: outcome_def call_err_eq split: reply.splits)

text \<open>
  C39. \<open>DeclareTopology\<close> declares the exchange, then the queue, then binds the queue under the
  name in the broker's reply to the declaration, once per routing key, in order and to the
  topology's own exchange; it stops at the first call that fails and then returns the zero
  queue with that call's error as it is. When every call succeeds it has made all of them and
  returns the queue of the broker's reply, name and counts; without routing keys nothing is
  bound.
\<close>

theorem declare_topology_exact:
  fixes ch :: nat and t :: Topology and w :: world
  defines "xd \<equiv> ExchangeDeclare ch (ex_Name (tp_Exchange t)) (ex_Type (tp_Exchange t)) (ex_Durable (tp_Exchange t))
      (ex_AutoDelete (tp_Exchange t)) (ex_Internal (tp_Exchange t)) False
      (map_snapshot (w_heap w) (ex_Args (tp_Exchange t)))"
    and "qd \<equiv> QueueDeclare ch (q_Name (tp_Queue t)) (q_Durable (tp_Queue t)) (q_AutoDelete (tp_Queue t))
      (q_Exclusive (tp_Queue t)) False (map_snapshot (w_heap w) (q_Args (tp_Queue t)))"
  assumes "DeclareTopology e ch t w = ((q, r), w')"
  shows "(\<forall>err. answer e (w_calls w) xd = RErr err \<longrightarrow>
        q = zero_Queue \<and> r = Some err \<and> w_calls w' = w_calls w @ [xd]) \<and>
    ((\<forall>err. answer e (w_calls w) xd \<noteq> RErr err) \<longrightarrow>
       (\<forall>err. answer e (w_calls w @ [xd]) qd = RErr err \<longrightarrow>
          q = zero_Queue \<and> r = Some err \<and> w_calls w' = w_calls w @ [xd, qd]) \<and>
       (\<forall>n m c. answer e (w_calls w @ [xd]) qd = RQueue n m c \<longrightarrow>
          (r, w_calls w') = run_plan e (binding_plan ch t n) (w_calls w @ [xd, qd]) \<and>
          q = (if r = None then \<lparr>qu_Name = n, qu_Messages = m, qu_Consumers = c\<rparr> else zero_Queue) \<and>
          (r = None \<longrightarrow> w_calls w' = w_calls w @ [xd, qd] @ map fst (binding_plan ch t n))))"
proof -
  define w1 where "w1 = w\<lparr>w_calls := w_calls w @ [xd]\<rparr>"
  define w2 where "w2 = w\<lparr>w_calls := w_calls w @ [xd, qd]\<rparr>"
  have x: "declareExchange e ch (tp_Exchange t) w =
      ((case answer e (w_calls w) xd of RErr x \<Rightarrow> Some x | _ \<Rightarrow> None), w1)"
    by (simp add: declareExchange_def call_err_eq xd_def w1_def)
  have d: "call e (QueueDeclare ch (q_Name (tp_Queue t)) (q_Durable (tp_Queue t)) (q_AutoDelete (tp_Queue t))
      (q_Exclusive (tp_Queue t)) False (map_snapshot (w_heap w1) (q_Args (tp_Queue t)))) w1 =
      (answer e (w_calls w @ [xd]) qd, w2)"
    by (simp add: call_def w1_def w2_def qd_def)
  have bound: "(r, w_calls w') = run_plan e (binding_plan ch t n) (w_calls w @ [xd, qd]) \<and>
      q = (if r = None then \<lparr>qu_Name = n, qu_Messages = m, qu_Consumers = c\<rparr> else zero_Queue)"
    if ok: "\<forall>err. answer e (w_calls w) xd \<noteq> RErr err"
      and reply: "answer e (w_calls w @ [xd]) qd = RQueue n m c" for n m c
  proof -
    obtain r' w3 where b: "bindQueue e ch n (ex_Name (tp_Exchange t)) (q_RoutingKeys (tp_Queue t)) w2 = (r', w3)"
      by fastforce
    have "run_plan e (binding_plan ch t n) (w_calls w @ [xd, qd]) = (r', w_calls w3)"
      using bindQueue_plan [of e ch n "ex_Name (tp_Exchange t)" "q_RoutingKeys (tp_Queue t)" w2] b
      by (simp add: binding_plan_def outcome_def w2_def)
    moreover from ok have ok': "declareExchange e ch (tp_Exchange t) w = (None, w1)"
      using x by (cases "answer e (w_calls w) xd") simp_all
    ultimately show ?thesis
      using assms(3) reply b d ok' by (cases r') (auto simp: DeclareTopology_def declareQueue_def)
  qed
  show ?thesis
  proof (intro conjI allI impI)
    fix err assume "answer e (w_calls w) xd = RErr err"
    then show "q = zero_Queue" "r = Some err" "w_calls w' = w_calls w @ [xd]"
      using assms(3) x by (auto simp: DeclareTopology_def w1_def)
  next
    fix err
    assume ok: "\<forall>err. answer e (w_calls w) xd \<noteq> RErr err"
      and "answer e (w_calls w @ [xd]) qd = RErr err"
    moreover from ok have "declareExchange e ch (tp_Exchange t) w = (None, w1)"
      using x by (cases "answer e (w_calls w) xd") simp_all
    ultimately show "q = zero_Queue" "r = Some err" "w_calls w' = w_calls w @ [xd, qd]"
      using assms(3) d by (auto simp: DeclareTopology_def declareQueue_def w2_def)
  next
    fix n m c
    assume "\<forall>err. answer e (w_calls w) xd \<noteq> RErr err" "answer e (w_calls w @ [xd]) qd = RQueue n m c"
    from bound [OF this]
    show "(r, w_calls w') = run_plan e (binding_plan ch t n) (w_calls w @ [xd, qd])"
      and "q = (if r = None then \<lparr>qu_Name = n, qu_Messages = m, qu_Consumers = c\<rparr> else zero_Queue)"
      and "r = None \<Longrightarrow> w_calls w' = w_calls w @ [xd, qd] @ map fst (binding_plan ch t n)"
      using run_plan_None [of e "binding_plan ch t n" "w_calls w @ [xd, qd]" "w_calls w'"] by auto
  qed
qed

definition naming_env :: env where
  "naming_env = \<lparr>clock = int, uuid = (\<lambda>n. []), answer = (\<lambda>cs c. case c of
     QueueDeclare ch n d a x nw args \<Rightarrow> RQueue ''amq.gen-1'' 0 0 | _ \<Rightarrow> ROk),
     marshal_leaf = plain_leaf, json_error = (\<lambda>_. ''json'')\<rparr>"

theorem declare_topology_exact_witness:
  "\<exists>q w' cs. DeclareTopology naming_env 4 \<lparr>tp_Exchange = \<lparr>ex_Name = ''spy'', ex_Type = ''topic'', ex_Durable = True,
      ex_AutoDelete = False, ex_Internal = False, ex_Args = None\<rparr>,
      tp_Queue = (sample_queue [] None)\<lparr>q_RoutingKeys := [''a'', ''b'']\<rparr>\<rparr> empty_world = ((q, None), w') \<and>
    w_calls w' = cs @ [QueueBind 4 ''amq.gen-1'' ''a'' ''spy'' False None, QueueBind 4 ''amq.gen-1'' ''b'' ''spy'' False None]"
proof -
  let ?t = "\<lparr>tp_Exchange = \<lparr>ex_Name = ''spy'', ex_Type = ''topic'', ex_Durable = True,
      ex_AutoDelete = False, ex_Internal = False, ex_Args = None\<rparr>,
      tp_Queue = (sample_queue [] None)\<lparr>q_RoutingKeys := [''a'', ''b'']\<rparr>\<rparr>"
  obtain q w' where r: "DeclareTopology naming_env 4 ?t empty_world = ((q, None), w')" "qu_Name q = ''amq.gen-1''"
    by (simp add: DeclareTopology_def declareExchange_def declareQueue_def call_err_eq call_def naming_env_def)
  from declare_topology_exact [OF r(1)] r(1) show ?thesis
    by (auto simp: naming_env_def binding_plan_def)
qed

end
