(* ===== verification/Default_Logger.thy ===== *)
theory Default_Logger
  imports Amqp "HOL-Library.Multiset"
begin

text \<open>
  The default logger of \<open>internal/logger/default_logger.go\<close>: its construction, its methods, the
  text it makes of a message and its fields, and what the standard \<open>log.Logger\<close> beneath it writes.
  The fields are a Go map, whose iteration order is not determined: a list of pairs with
  distinct keys in the order the iteration happens to take. \<open>fmt\<close>'s \<open>%v\<close> is modelled for the values
  a field can hold, durations included; the digits of a \<open>float64\<close>, the text of a \<open>time.Time\<close> and the
  time stamp of a line are what the formatting environment says.
\<close>

section \<open>Printing values\<close>

record fmt_env =
  fmt_float :: "float64 \<Rightarrow> string"
  fmt_time :: "time \<Rightarrow> string"
  fmt_stamp :: "time \<Rightarrow> string"

text \<open>\<open>fmtFrac\<close> of the package \<open>time\<close>: the lowest \<open>prec\<close> digits as a fraction without trailing zeros.\<close>

fun frac_digits :: "nat \<Rightarrow> nat \<Rightarrow> string" where
  "frac_digits 0 v = []"
| "frac_digits (Suc n) v = frac_digits n (v div 10) @ [char_of (48 + v mod 10)]"

definition fmtFrac :: "nat \<Rightarrow> nat \<Rightarrow> string" where
  "fmtFrac prec v =
     (let ds = rev (dropWhile (\<lambda>c. c = CHR ''0'') (rev (frac_digits prec v)))
      in if ds = [] then [] else CHR ''.'' # ds)"

text \<open>\<open>Duration.String\<close>: one small unit below a second, hours, minutes and seconds above.\<close>

definition Duration_String :: "duration \<Rightarrow> string" where
  "Duration_String d =
     (let u = nat \<bar>d\<bar>;
          text = (if u = 0 then ''0s''
                  else if u < 1000 then show_nat u @ ''ns''
                  else if u < 1000000 then show_nat (u div 1000) @ fmtFrac 3 u @ [CHR 0xC2, CHR 0xB5, CHR ''s'']
                  else if u < 1000000000 then show_nat (u div 1000000) @ fmtFrac 6 u @ ''ms''
                  else
                    (let secs = u div 1000000000; mins = secs div 60; hours = mins div 60
                     in (if hours > 0 then show_nat hours @ ''h'' else [])
                        @ (if mins > 0 then show_nat (mins mod 60) @ ''m'' else [])
                        @ show_nat (secs mod 60) @ fmtFrac 9 u @ ''s''))
      in if d < 0 then CHR ''-'' # text else text)"

text \<open>The verb \<open>%v\<close>: maps are printed in ascending key order.\<close>

fun show_value :: "fmt_env \<Rightarrow> gvalue \<Rightarrow> string" where
  "show_value fe VNil = ''<nil>''"
| "show_value fe (VBool b) = (if b then ''true'' else ''false'')"
| "show_value fe (VInt n) = show_int n"
| "show_value fe (VInt32 n) = show_int n"
| "show_value fe (VInt64 n) = show_int n"
| "show_value fe (VFloat64 x) = fmt_float fe x"
| "show_value fe (VString s) = s"
| "show_value fe (VUint64 n) = show_nat (unat n)"
| "show_value fe (VDuration d) = Duration_String d"
| "show_value fe (VTime t) = fmt_time fe t"
| "show_value fe (VTable kvs) =
     ''map['' @ join '' '' (map (\<lambda>m. fst m @ '':'' @ snd m) (sort_key fst (map (\<lambda>m. (fst m, show_value fe (snd m))) kvs))) @ '']''"
| "show_value fe (VArray vs) = ''['' @ join '' '' (map (show_value fe) vs) @ '']''"
| "show_value fe (VOther s) = s"

section \<open>Lines\<close>

definition FormatFields :: "fmt_env \<Rightarrow> (string \<times> gvalue) list \<Rightarrow> string" where
  "FormatFields fe fs =
     (if fs = [] then []
      else
        (let keys = sort (map fst fs);
             pairs = map (\<lambda>k. k @ ''='' @ show_value fe (case map_of fs k of None \<Rightarrow> VNil | Some v \<Rightarrow> v)) keys
         in join '' '' pairs))"

text \<open>
  A \<open>log.Logger\<close>: its prefix, whether it writes the date and time, and the bytes it has written.
  \<open>Printf\<close> writes one record and ends it with a newline if the text does not.
\<close>

record go_logger =
  gl_prefix :: string
  gl_stdFlags :: bool
  gl_out :: string

definition Printf :: "fmt_env \<Rightarrow> time \<Rightarrow> string \<Rightarrow> go_logger \<Rightarrow> go_logger" where
  "Printf fe now text l =
     (let line = gl_prefix l @ (if gl_stdFlags l then fmt_stamp fe now else []) @ text
      in l\<lparr>gl_out := gl_out l @ line @ (if line \<noteq> [] \<and> last line = CHR 0x0A then [] else [CHR 0x0A])\<rparr>)"

record DefaultLogger =
  dl_logger :: go_logger

definition logger_New :: DefaultLogger where
  "logger_New = \<lparr>dl_logger = \<lparr>gl_prefix = ''[rabbitmq-kit] '', gl_stdFlags = True, gl_out = []\<rparr>\<rparr>"

definition NewTestLogger :: "go_logger \<Rightarrow> DefaultLogger" where
  "NewTestLogger l = \<lparr>dl_logger = l\<rparr>"

definition logger_log :: "fmt_env \<Rightarrow> time \<Rightarrow> string \<Rightarrow> string \<Rightarrow> (string \<times> gvalue) list \<Rightarrow> DefaultLogger \<Rightarrow> DefaultLogger" where
  "logger_log fe now level msg fs l =
     l\<lparr>dl_logger := Printf fe now
        (if 0 < length fs then level @ '': '' @ msg @ '' '' @ FormatFields fe fs else level @ '': '' @ msg) (dl_logger l)\<rparr>"

fun level_name :: "level \<Rightarrow> string" where
  "level_name LInfo = ''INFO''"
| "level_name LError = ''ERROR''"
| "level_name LWarn = ''WARN''"
| "level_name LDebug = ''DEBUG''"

text \<open>A recorded call of the \<open>Logger\<close> interface, answered by the default logger.\<close>

definition write_entry :: "fmt_env \<Rightarrow> time \<Rightarrow> log_entry \<Rightarrow> DefaultLogger \<Rightarrow> DefaultLogger" where
  "write_entry fe now x l = logger_log fe now (level_name (log_level x)) (log_msg x) (log_fields x) l"

definition logger_Close :: "DefaultLogger \<Rightarrow> goerror option \<times> DefaultLogger" where
  "logger_Close l = (None, l)"

section \<open>Properties\<close>

lemma sort_keys_perm: "mset (map fst fs') = mset (map fst fs) \<Longrightarrow> sort (map fst fs') = sort (map fst (fs :: (string \<times> 'a) list))"
  by (metis properties_for_sort sorted_sort mset_sort)

lemma FormatFields_sorted:
  assumes "distinct (map fst fs)"
  shows "\<exists>kvs. mset kvs = mset fs \<and> sorted_wrt (<) (map fst kvs) \<and>
    FormatFields fe fs = join '' '' (map (\<lambda>(k, x). k @ ''='' @ show_value fe x) kvs)"
proof -
  let ?kvs = "map (\<lambda>k. (k, the (map_of fs k))) (sort (map fst fs))"
  have "map (\<lambda>k. (k, the (map_of fs k))) (map fst fs) = fs"
    using assms(1) by (auto intro!: map_idI)
  then have "mset (map (\<lambda>k. (k, the (map_of fs k))) (map fst fs)) = mset fs" by simp
  then have "mset ?kvs = mset fs" by (simp only: mset_map mset_sort)
  moreover have "sorted_wrt (<) (map fst ?kvs)"
    using assms(1) by (simp add: comp_def strict_sorted_iff)
  moreover have "FormatFields fe fs = join '' '' (map (\<lambda>(k, x). k @ ''='' @ show_value fe x) ?kvs)"
  proof -
    have eq: "map (\<lambda>k. k @ ''='' @ show_value fe (case map_of fs k of None \<Rightarrow> VNil | Some x \<Rightarrow> x)) (sort (map fst fs)) =
        map (\<lambda>(k, x). k @ ''='' @ show_value fe x) ?kvs"
      using weak_map_of_SomeI by (fastforce split: option.splits dest: map_of_eq_None_iff [THEN iffD1])
    show ?thesis unfolding FormatFields_def Let_def eq by simp
  qed
  ultimately show ?thesis by blast
qed

lemma Printf_ends_line: "last (gl_out (Printf fe now text l)) = CHR 0x0A"
  by (simp add: Printf_def Let_def)

lemma Printf_appends:
  "\<exists>nl \<in> {[], [CHR 0x0A]}. gl_out (Printf fe now text l) =
     gl_out l @ gl_prefix l @ (if gl_stdFlags l then fmt_stamp fe now else []) @ text @ nl"
  unfolding Printf_def Let_def by simp

text \<open>
  C40. Log lines do not depend on map order. Whatever order the iteration over the fields takes,
  a call of the default logger appends the same record to its output: the prefix, the time
  stamp, the level, the message, and each key once, in ascending byte order, with its own
  value. The output ends in a newline, which is added where the text does not bring its own,
  and nothing written before is changed.
\<close>

theorem log_line_deterministic:
  assumes "distinct (map fst fs)" "mset fs' = mset fs" "fs \<noteq> []"
    "l1 = write_entry fe now \<lparr>log_level = lv, log_msg = msg, log_fields = fs\<rparr> l"
  shows "write_entry fe now \<lparr>log_level = lv, log_msg = msg, log_fields = fs'\<rparr> l = l1 \<and>
    last (gl_out (dl_logger l1)) = CHR 0x0A \<and>
    (\<exists>kvs end. mset kvs = mset fs \<and> sorted_wrt (<) (map fst kvs) \<and> end \<in> {[], [CHR 0x0A]} \<and>
      gl_out (dl_logger l1) = gl_out (dl_logger l) @ gl_prefix (dl_logger l) @
        (if gl_stdFlags (dl_logger l) then fmt_stamp fe now else []) @ level_name lv @ '': '' @ msg @ '' '' @
        join '' '' (map (\<lambda>(k, x). k @ ''='' @ show_value fe x) kvs) @ end)"
proof -
  have keys: "mset (map fst fs') = mset (map fst fs)" using assms(2) by (simp add: mset_map)
  then have d': "distinct (map fst fs')" using assms(1) by (metis mset_eq_imp_distinct_iff)
  have "set fs' = set fs" using assms(2) by (metis set_mset_mset)
  then have m: "map_of fs' = map_of fs" using map_of_inject_set [OF d' assms(1)] by simp
  have nil: "fs' \<noteq> []" using assms(2,3) by (metis mset_zero_iff)
  have same: "FormatFields fe fs' = FormatFields fe fs"
    using m sort_keys_perm [OF keys] nil assms(3) by (simp add: FormatFields_def)
  obtain kvs where kvs: "mset kvs = mset fs" "sorted_wrt (<) (map fst kvs)"
    "FormatFields fe fs = join '' '' (map (\<lambda>(k, x). k @ ''='' @ show_value fe x) kvs)"
    using FormatFields_sorted [OF assms(1)] by blast
  have l1: "l1 = l\<lparr>dl_logger := Printf fe now (level_name lv @ '': '' @ msg @ '' '' @ FormatFields fe fs) (dl_logger l)\<rparr>"
    using assms(3,4) by (simp add: write_entry_def logger_log_def)
  have l1': "dl_logger l1 = Printf fe now (level_name lv @ '': '' @ msg @ '' '' @ FormatFields fe fs) (dl_logger l)"
    by (simp add: l1)
  obtain nl where nl: "nl \<in> {[], [CHR 0x0A]}"
    "gl_out (dl_logger l1) = gl_out (dl_logger l) @ gl_prefix (dl_logger l) @
      (if gl_stdFlags (dl_logger l) then fmt_stamp fe now else []) @ (level_name lv @ '': '' @ msg @ '' '' @ FormatFields fe fs) @ nl"
    using Printf_appends [of fe now "level_name lv @ '': '' @ msg @ '' '' @ FormatFields fe fs" "dl_logger l"]
    unfolding l1' by blast
  have "write_entry fe now \<lparr>log_level = lv, log_msg = msg, log_fields = fs'\<rparr> l = l1"
    using nil same by (simp add: l1 write_entry_def logger_log_def)
  moreover have "last (gl_out (dl_logger l1)) = CHR 0x0A" unfolding l1' by (rule Printf_ends_line)
  moreover have "gl_out (dl_logger l1) = gl_out (dl_logger l) @ gl_prefix (dl_logger l) @
      (if gl_stdFlags (dl_logger l) then fmt_stamp fe now else []) @ level_name lv @ '': '' @ msg @ '' '' @
      join '' '' (map (\<lambda>(k, x). k @ ''='' @ show_value fe x) kvs) @ nl" using nl(2) kvs(3) by simp
  ultimately show ?thesis using kvs(1,2) nl(1) by blast
qed

definition utc_fmt :: fmt_env where
  "utc_fmt = \<lparr>fmt_float = (\<lambda>x. ''NaN''), fmt_time = (\<lambda>t. show_int t), fmt_stamp = (\<lambda>t. ''2024/01/02 03:04:05 '')\<rparr>"

theorem log_line_deterministic_witness:
  "write_entry utc_fmt 7 \<lparr>log_level = LWarn, log_msg = ''slow'',
     log_fields = [(''queue'', VString ''q1''), (''delay'', VDuration 1500000000)]\<rparr> logger_New =
   write_entry utc_fmt 7 \<lparr>log_level = LWarn, log_msg = ''slow'',
     log_fields = [(''delay'', VDuration 1500000000), (''queue'', VString ''q1'')]\<rparr> logger_New"
  using log_line_deterministic [of "[(''delay'', VDuration 1500000000), (''queue'', VString ''q1'')]"
      "[(''queue'', VString ''q1''), (''delay'', VDuration 1500000000)]" _ utc_fmt 7 LWarn "''slow''" logger_New]
  by simp

end
