(* ===== verification/Spec2Isabelle.thy ===== *)
theory Spec2Isabelle
  imports Errors Circuit_Breaker Config Client Reconnect Recovery Publisher Confirm_Processors Router Consumer
    Workers Event_Bus System Senders Broker_Tags Progress Dead_Letters Direct Default_Logger
begin

text \<open>
  A verification development for \<open>rabbitmq-kit-go\<close>, a Go library that puts an event bus on top of
  RabbitMQ: connection and topology management with reconnection, publishing with asynchronous
  confirmations and pipelined batches, consuming with workers, retries, a circuit breaker and
  dead-letter queues.

  \<^bold>\<open>Parts and their theories.\<close> The application talks to the \<open>EventBus\<close> (\<open>eventbus.go\<close>, \<open>publish.go\<close>,
  \<open>event.go\<close>; theory \<open>Event_Bus\<close>), which owns one \<open>Client\<close> (\<open>internal/broker/client.go\<close>; theories \<open>Client\<close>,
  \<open>Reconnect\<close> and \<open>Recovery\<close>), one \<open>Publisher\<close> on it (\<open>internal/broker/publisher.go\<close>; \<open>Publisher\<close>, and
  \<open>Confirm_Processors\<close> for its goroutines) and a \<open>Consumer\<close> (\<open>internal/broker/consumer.go\<close>, \<open>retry.go\<close>;
  \<open>Consumer\<close>, and \<open>Workers\<close> for its pool of goroutines), which asks the \<open>Router\<close> (\<open>router/\<close>; \<open>Router\<close>)
  for handlers, guards them with the circuit breaker (\<open>internal/circuitbreaker/\<close>;
  \<open>Circuit_Breaker\<close>) and republishes through the publisher. \<open>Config\<close> models \<open>config/\<close>, \<open>Errors\<close> models
  \<open>errors/errors.go\<close>, \<open>Direct\<close> models \<open>direct/\<close> and \<open>Default_Logger\<close> models
  \<open>internal/logger/default_logger.go\<close>. Six theories put parts together: \<open>Client_Calls\<close> (what the client asks of
  the library while others work on its connection), \<open>System\<close> (a bus at work: the
  client's goroutine, the workers and the application), \<open>Senders\<close> (several calls of \<open>Publish\<close> on one
  publisher), \<open>Broker_Tags\<close> (the publisher beside the reconnection goroutine, and the broker's own
  numbering of messages), \<open>Progress\<close> (bus, workers and publisher: who can stop whom) and \<open>Dead_Letters\<close> (a failing message from the consumer over the broker's dead letter
  exchange back to its queue). Four theories serve the others: \<open>Go_Prelude\<close> (64-bit
  integers, times, dynamic values, the store of Go maps, transition systems), \<open>Json\<close> (a byte-level
  JSON parser and the decoding of a body into a map, numbers rounded to \<open>float64\<close>), \<open>Json_Encode\<close>
  (the part of the standard library's \<open>json.Marshal\<close> that an event's map needs) and \<open>Amqp\<close> (the boundary to \<open>amqp091-go\<close>).

  \<^bold>\<open>The world.\<close> A call of the AMQP library is a value of type \<open>amqp_call\<close>; an environment \<open>env\<close> answers
  each call from the calls made before it and gives the clock readings and UUIDs. Nothing is
  assumed of it but where a theorem names a law as a hypothesis, so the theorems hold for every broker,
  network and timing. The world records
  the calls in order, the store of maps and the log. Go maps are references in that store:
  where the code shares a map by assigning a struct, so does the model.

  \<^bold>\<open>State and operations.\<close> A struct is a record, a method a function on it and the world; an error
  is a value of \<open>goerror\<close>. Where the code can panic or block (closing or sending on channels, a nil
  channel pointer) the result is an \<open>exec\<close>. A mutex-protected section is one step. What other
  goroutines do between two such sections is an explicit list: \<open>bg_event\<close>s for the publisher's
  table, breaker operations of other workers while a handler runs; or it is a step relation:
  the reconnection goroutine (\<open>rstep\<close>), the workers of a consumer (\<open>pool_step\<close>), the processors and
  resets of a publisher (\<open>procs_step\<close>), the concurrent callers of \<open>Publish\<close> (\<open>senders_step\<close>), the publisher beside the client
  (\<open>link_step\<close>), the bus as a whole (\<open>sys_step\<close>). A close watcher or a caller of \<open>Reconnect\<close> that is about to send its signal is a
  state of its own (\<open>rs_signals\<close>): the send takes place at any later step and is dropped when the
  handler is not waiting. Theorems quantify over all such lists and all runs of these relations;
  that is not every interleaving of the source. In one call of the publisher other goroutines act
  after its tag is taken, after its entry is stored and while it waits, not within its own
  \<open>ensureConfirmsSetup\<close> nor between that and the tag; the client is read at its entry and again at each
  send, and may differ between the two (the source also reads it when a reset completes and when
  it fetches the channel). A \<open>BgReset\<close> is the locked part of another call's reset only: the steps after
  the unlock, which can panic, are those of \<open>procs_step\<close>. \<open>worker_run\<close> passes one client and publisher from
  iteration to iteration; \<open>worker_loop\<close>, \<open>pool_step\<close> and \<open>sys_step\<close> let the client reconnect and others act
  in between.

  \<^bold>\<open>What is shown.\<close>
  \<^item> \<open>Consumer\<close>: every delivery is settled exactly once and an acknowledged one is not lost; retries
    are counted and bounded; two defects (a logged count, a half-open circuit that stays so).
  \<^item> \<open>Workers\<close>: the stages of a delivery taken in a row are the iteration of \<open>Consumer\<close>; however the
    stages of several workers interleave, the settled and the unsettled deliveries are exactly
    the delivered ones, and the shared breaker stays in a reachable state.
  \<^item> \<open>Publisher\<close>: the confirmation table is safe under every interleaving; \<open>Publish\<close> and pipelined
    batches never report success without a positive confirmation of the message's own tag; a
    routed confirmation is delivered; no entry is left behind; three defects (a panic after
    close, tags that shift after a failed send, a panic of a batch on a lost connection).
  \<^item> \<open>Confirm_Processors\<close>: any number of processors leave the table in order and none waits on a
    \<open>done\<close> channel nobody will close; two defects (a busy processor that outlives a reset clears the
    entries of the new channel; overlapping resets leave a closed \<open>done\<close> channel behind and later panic).
  \<^item> \<open>Senders\<close>: publishers that do not overlap between taking their tag and sending get their own
    answers; one defect (overlapping ones can get each other's).
  \<^item> \<open>Broker_Tags\<close>: across reconnects, and as long as calls overlap neither each other nor a reconnect
    and no send failed on the channel, the publisher's tags are the broker's numbers, so a reported success is the
    confirmation of the very message; one defect (a reconnect within a call shifts all later
    answers on the new channel).
  \<^item> \<open>Progress\<close>: until the bus is closed every call of \<open>Publish\<close> that no reset overlaps and every iteration
    of a worker returns; a worker settles any sequence of deliveries in order, whichever channels the
    client gets and whatever others do to the publisher between its iterations.
  \<^item> \<open>System\<close>: whatever the client and the application do between the stages of the workers, every
    delivery is settled once, by simulation of the pool; one defect (after a reconnect nothing
    consumes).
  \<^item> \<open>Dead_Letters\<close>: requeueing a dead letter undoes its rejection, except for the properties it drops; a
    failing handler loses the dead letters whose retries were exhausted; a handler that acknowledges by itself settles twice.
  \<^item> \<open>Json_Encode\<close>: \<open>unquote\<close> inverts \<open>quote\<close> up to invalid UTF-8, parsing inverts printing, every
    marshalled body is well formed, and decoding gives back the encoded map.
  \<^item> \<open>Circuit_Breaker\<close>: the invariant of all reachable states, refinement of an abstract breaker,
    opening, rejection, recovery and the exact half-open limit, the path of callbacks.
  \<^item> Across consumer and publisher, at the end of this theory: with confirms on, a delivery whose handler failed is
    acknowledged only after its retry was confirmed.
  \<^item> \<open>Client\<close> and \<open>Reconnect\<close>: topology setup follows a declarative plan; outcomes of \<open>connect\<close>; close
    is final; a failed \<open>connect\<close> closes what it opened; two defects of the signal channel.
  \<^item> \<open>Recovery\<close>: in every fair run a lost connection is replaced once the outage ends.
  \<^item> \<open>Event_Bus\<close>: batch reports say what became of each event; messages of events and requeued dead letters are what they
    should be; a published event binds back to its map at the consumer and is dispatched to the
    handler registered last for its type; requeueing settles each dead letter once, as its outcome asks; three
    defects (double counting, a call that does not return, a subscription left behind).
  \<^item> \<open>Config\<close>, \<open>Errors\<close>, \<open>Direct\<close>, \<open>Default_Logger\<close>: exact validation, idempotent dead-letter arguments,
    error queries through any chain of wrappers, exact declarations, log output independent of map order.

  \<^bold>\<open>Interfaces.\<close> \<open>invariant_system\<close> (state machines; interpreted on the breaker, on the reconnection
  steps, on the pool of workers for the deliveries and for the breaker, on the processors,
  on ordered publishers and on the publisher beside the reconnection goroutine), \<open>simulation\<close> (a system that implements another one and inherits its
  invariant; interpreted on the bus at work over its pool of workers), \<open>error_search\<close> (the two error queries), \<open>handler_table\<close> (the router, used by the
  bus and the consumer), \<open>total_ops\<close> (operations that always return; interpreted on the publisher's
  background steps with three invariants), \<open>stuck_gate\<close> (the full half-open breaker).

  \<^bold>\<open>Bounds.\<close> The JSON parser takes fuel, twice the length of its input plus two, and \<open>json_parse_fuel\<close>
  shows that more fuel never changes its answer. \<open>reconnect_loop\<close> runs a given number of attempts;
  the lemma about it holds for every number, and \<open>Recovery\<close> bounds the handler's steps by the length
  of the outage. All other recursions are structural. Go's \<open>int\<close> is
  kept in its 64-bit range (\<open>inc64\<close>); delivery tags are 64-bit words.

  A delivery passes at most six stages of a worker (\<open>run_stages\<close>), and \<open>stages_are_iteration\<close> shows
  that six are enough.

  \<^bold>\<open>Not modelled.\<close> The AMQP library itself; the scheduler and real time (sleeps are steps that may
  be taken at any time, and the deadline \<open>NewContext\<close> sets is the choice of when a wait ends); how
  \<open>encoding/json\<close> writes a \<open>float64\<close>, a \<open>time.Time\<close> or a value of a foreign type (\<open>marshal_leaf\<close> of the
  environment) and the texts of its errors (\<open>json_error\<close>); how \<open>fmt\<close> writes a \<open>float64\<close> or a
  \<open>time.Time\<close>, and the time stamp of a log line (\<open>fmt_env\<close>); \<open>BindJSON\<close> into other targets than a map,
  which are types of the caller; the container helpers for tests.

  Of the application's handlers some theorems assume that they leave settling to the worker
  (\<open>leaves_settling\<close>); the library does not enforce it and two of its examples do not do it. In
  \<open>Dead_Letters\<close> the broker's dead lettering is the hypothesis \<open>dead_lettered\<close>, in \<open>Senders\<close> the broker
  numbers messages in the order in which they were sent, both as RabbitMQ documents them. In
  \<open>System\<close> the application may make any call that neither settles a delivery nor subscribes.
  In \<open>Broker_Tags\<close> a channel the broker opens is assumed to be a new one (\<open>fresh_channels\<close>).

  How the broker shares out the messages of a queue among its consumers is not modelled, so the
  competition of \<open>RequeueAllFromDLQ\<close> with a consumer of the same queue is not either; \<open>NewContext\<close> only
  sets a deadline. Every other function of the library is a definition of this development.
\<close>

section \<open>Across consumer and publisher\<close>

text \<open>
  C2. With publisher confirms on, a failed message is acknowledged only after its retry was
  confirmed. If the handler reports an error and the worker nevertheless acks the delivery,
  then the publisher received a positive confirmation for the tag it gave the republished copy.
  As far as these tags agree with the broker's numbering (see \<open>Senders\<close>), the broker holds the
  message at any time between the failed attempt and the retry.
\<close>

theorem acked_failure_was_confirmed:
  assumes "worker_step e ws i d cs w = Returns (cs', w')"
    "PublisherConfirms (cl_config (cs_client cs))" "pub_inv (cs_pub cs)"
    "GetHandler (cs_router cs) (GetType \<lparr>mc_Delivery = d\<rparr>) = Some svc" "leaves_settling svc"
    "handler_input e i d cs w = (mc, w3)" "fst (svc mc w3) \<noteq> None"
    "w_calls w' = w_calls w @ new" "AckCall (d_DeliveryTag d) False \<in> set new"
  shows "\<exists>p0 w1 w2. ensureConfirmsSetup e (cs_client cs) (cs_pub cs) w1 = Returns (p0, w2) \<and>
    BgConfirm (pb_deliveryTag p0 + 1) True \<in> set (sc_mid (ws_publish ws) @ sc_wait (ws_publish ws))"
proof -
  obtain t d1 w1 where tr: "trace_delivery e d w = (t, d1, w1)" by (metis prod.collapse)
  obtain ok cb v3 where al: "allow_delivery e (cs_breaker cs) (log_received e i t d1 w1) = (ok, cb, v3)"
    by (metis prod.collapse)
  have inp: "mc = \<lparr>mc_Delivery = d1\<rparr>" "w3 = v3" using assms(6) tr al by (simp_all add: handler_input_def)
  note calls = handler_input_calls [OF tr al]
  from worker_step_cases [OF assms(1) tr al] assms(4,7,8,9) inp obtain mc1 w4 cs2 err where
    h: "svc \<lparr>mc_Delivery = d1\<rparr> v3 = (Some err, mc1, w4)" "cs_client cs2 = cs_client cs" "cs_pub cs2 = cs_pub cs"
    "handle_failure e ws i t d1 mc1 err cs2 w4 = Returns (cs', w')"
    by auto
  from leaves [OF assms(5) h(1)] obtain xs where tag: "d_DeliveryTag (mc_Delivery mc1) = d_DeliveryTag d"
    and xs: "w_calls w4 = w_calls w @ xs" "filter is_settle xs = []"
    using calls by (auto simp: no_settle_def)
  from handle_failure_calls [OF h(4)] obtain ys where ys: "w_calls w' = w_calls w4 @ ys" by auto
  then have "AckCall (d_DeliveryTag d) False \<in> set xs \<union> set ys" using assms(8,9) xs(1) by auto
  moreover have "AckCall (d_DeliveryTag d) False \<notin> set xs" using xs(2) by (auto simp: filter_empty_conv)
  ultimately have "AckCall (d_DeliveryTag (mc_Delivery mc1)) False \<in> set ys" by (simp add: tag)
  from handle_failure_acks [OF h(4) ys this] obtain w2 p v where
    r: "Retry e (cs_client cs) (ws_publish ws) (NewHandler (MaxRetries (cl_config (cs_client cs)))) d1 (cs_pub cs) w2
      = Returns (None, p, v)" by (auto simp: h(2,3))
  from Retry_is_Publish [OF r] obtain ex rk msg u where
    "Publish e (cs_client cs) (ws_publish ws) ex rk msg (cs_pub cs) u = Returns (None, p, v)" by blast
  from Publish_acked [OF assms(3,2) this] show ?thesis by blast
qed

definition confirming_consumer :: consumer where
  "confirming_consumer = \<lparr>cs_client = confirm_client, cs_pub = idle_pub, cs_router = rejecting_router,
     cs_breaker = None\<rparr>"

definition confirming_worker :: worker_script where
  "confirming_worker = \<lparr>ws_publish = quiet_script [BgConfirm 1 True], ws_others = []\<rparr>"

lemma confirmed_Publish:
  "\<exists>p'. Publish plain_env confirm_client (quiet_script [BgConfirm 1 True]) ex rk msg idle_pub w =
     Returns (None, p', w\<lparr>w_calls := w_calls w @ [PublishWithContext 8 ex rk False False msg
       (map_snapshot (w_heap w) (p_Headers msg))]\<rparr>)"
  unfolding Publish_def idle_setup
  by (simp add: quiet_script_def confirm_client_def channel_publish_def call_err_eq plain_env_def nextTag_def
      idle_pub_def registerPending_def make_chan_def processConfirmation_def send_chan_def close_chan_def
      Let_def await_def await_log_def recv_chan_def deletePending_def)

lemma confirming_worker_acks:
  "\<exists>cs' w' xs. worker_step plain_env confirming_worker 0 (order_delivery None) confirming_consumer empty_world =
     Returns (cs', w') \<and> w_calls w' = w_calls empty_world @ xs @ [AckCall 5 False]"
proof -
  have m: "MaxRetries (cl_config confirm_client) = 3" by (simp add: confirm_client_def DefaultConfig_def)
  have t: "d_DeliveryTag (order_delivery h) = 5" for h by (simp add: order_delivery_def)
  obtain w1 where w1: "trace_delivery plain_env (order_delivery None) empty_world =
      (''uuid-'' @ show_nat 0, order_delivery (Some 0), w1)" "w_calls w1 = []" "hp_map (w_heap w1) 0 CountHeader = None"
    by (auto simp: trace_delivery_def order_headers header_map_def uuid_New_def make_map_def empty_world_def
        empty_heap_def plain_env_def CountHeader_def)
  let ?w2 = "log_handler_error 0 \<lparr>mc_Delivery = order_delivery (Some 0)\<rparr> ErrNoConnection
      (log_received plain_env 0 (''uuid-'' @ show_nat 0) (order_delivery (Some 0)) w1)"
  have n: "GetRetryCount (w_heap ?w2) \<lparr>mc_Delivery = order_delivery (Some 0)\<rparr> = 0"
    using w1(3) by (simp add: GetRetryCount_def order_headers)
  obtain p' w' where r: "Retry plain_env confirm_client (quiet_script [BgConfirm 1 True]) (NewHandler 3)
      (order_delivery (Some 0)) idle_pub ?w2 = Returns (None, p', w')" "\<exists>xs. w_calls w' = xs"
    using n confirmed_Publish by (fastforce simp: Retry_def ShouldRetry_def NewHandler_def order_headers time_Now_def Let_def)
  then show ?thesis
    using w1 by (simp add: worker_step_def confirming_consumer_def confirming_worker_def allow_delivery_def
        rejecting_router_def rt.lookup_register empty_body_type reject_all_def handle_failure_def record_failure_def
        m settle_retry_calls t Let_def empty_world_def)
qed

theorem acked_failure_was_confirmed_witness:
  "\<exists>p0 w1 w2. ensureConfirmsSetup plain_env confirm_client idle_pub w1 = Returns (p0, w2) \<and>
     BgConfirm (pb_deliveryTag p0 + 1) True \<in> set [BgConfirm 1 True]"
proof -
  obtain cs' w' xs where r: "worker_step plain_env confirming_worker 0 (order_delivery None) confirming_consumer empty_world =
     Returns (cs', w')" "w_calls w' = w_calls empty_world @ xs @ [AckCall 5 False]"
    using confirming_worker_acks by blast
  obtain mc w3 where inp: "handler_input plain_env 0 (order_delivery None) confirming_consumer empty_world = (mc, w3)"
    by fastforce
  have h: "GetHandler (cs_router confirming_consumer) (GetType \<lparr>mc_Delivery = order_delivery None\<rparr>) = Some reject_all"
    by (simp add: confirming_consumer_def rejecting_router_def rt.lookup_register empty_body_type)
  have l: "leaves_settling reject_all" by (auto simp: leaves_settling_def reject_all_def intro: no_settle_refl)
  show ?thesis
    using acked_failure_was_confirmed [OF r(1) _ _ h l inp _ r(2)] idle_pub_inv
    by (auto simp: confirming_consumer_def confirming_worker_def confirm_client_def quiet_script_def reject_all_def
        order_delivery_def)
qed

end
